(* ===== verification/Ummu_Prelude.thy ===== *)
theory Ummu_Prelude
  imports Main "HOL-Library.Word" "HOL-Library.Monad_Syntax" "HOL-Library.Code_Target_Nat"
begin

unbundle bit_operations_syntax

text \<open>
  Shared vocabulary of the development: the machine types of the C sources, the errno
  values they return, checked array access, and the lemmas on words, lists and options
  that the component theories use.  A computation that the C standard leaves undefined
  (a NULL dereference, an access outside an array or outside a mapped block) is the value
  \<open>None\<close>; everything else is \<open>Some\<close>.
\<close>

section \<open>Machine types and errno values\<close>

type_synonym u8 = "8 word"
type_synonym u16 = "16 word"
type_synonym u32 = "32 word"
type_synonym u64 = "64 word"

text \<open>The Linux values of the errno constants that the library returns (negated).\<close>

definition ENOENT :: int where "ENOENT = 2"
definition EAGAIN :: int where "EAGAIN = 11"
definition ENOMEM :: int where "ENOMEM = 12"
definition ENODEV :: int where "ENODEV = 19"
definition EINVAL :: int where "EINVAL = 22"
definition ERANGE :: int where "ERANGE = 34"
definition ETIMEDOUT :: int where "ETIMEDOUT = 110"

named_theorems errno_defs "the numeric errno values"
named_theorems word_nat "rules that move word arithmetic to the natural numbers"

declare ENOENT_def [errno_defs] EAGAIN_def [errno_defs] ENOMEM_def [errno_defs]
  ENODEV_def [errno_defs] EINVAL_def [errno_defs] ERANGE_def [errno_defs]
  ETIMEDOUT_def [errno_defs]

section \<open>Checked array access\<close>

definition arr_rd :: "'a list \<Rightarrow> nat \<Rightarrow> 'a option" where
  "arr_rd xs i = (if i < length xs then Some (xs ! i) else None)"

definition arr_wr :: "'a list \<Rightarrow> nat \<Rightarrow> 'a \<Rightarrow> 'a list option" where
  "arr_wr xs i v = (if i < length xs then Some (xs[i := v]) else None)"

lemma arr_rd_Some [simp]: "i < length xs \<Longrightarrow> arr_rd xs i = Some (xs ! i)"
  by (simp add: arr_rd_def)

lemma arr_wr_Some [simp]: "i < length xs \<Longrightarrow> arr_wr xs i v = Some (xs[i := v])"
  by (simp add: arr_wr_def)

lemma arr_rd_eq_Some: "arr_rd xs i = Some v \<longleftrightarrow> i < length xs \<and> xs ! i = v"
  by (simp add: arr_rd_def)

lemma arr_wr_eq_Some: "arr_wr xs i v = Some ys \<longleftrightarrow> i < length xs \<and> ys = xs[i := v]"
  by (auto simp: arr_wr_def)

section \<open>Words as natural numbers\<close>

lemma unat_and_mask [word_nat]: "unat (w AND mask n) = unat w mod 2 ^ n"
  for w :: "'a::len word"
proof -
  have "unat (w AND mask n) = unat (take_bit n w)"
    by (simp only: take_bit_eq_mask)
  also have "\<dots> = take_bit n (unat w)"
    by (rule unsigned_take_bit_eq)
  finally show ?thesis by (simp only: take_bit_eq_mod)
qed

lemma unat_drop_bit [word_nat]: "unat (drop_bit n w) = unat w div 2 ^ n"
  for w :: "'a::len word"
  by (simp only: unat_drop_bit_eq) (rule drop_bit_eq_div)

lemma unat_ucast_mod [word_nat]: "unat (ucast w :: 'b::len word) = unat w mod 2 ^ LENGTH('b)"
  for w :: "'a::len word"
  by (simp add: unsigned_ucast_eq take_bit_eq_mod)

lemma push_bit_minus_1_eq_mask: "push_bit n 1 - 1 = (mask n :: 'a::len word)"
  by (simp add: mask_eq_decr_exp)

lemma unat_mask_less: "n < LENGTH('a) \<Longrightarrow> unat (mask n :: 'a::len word) = 2 ^ n - 1"
proof -
  assume n: "n < LENGTH('a)"
  have "unat (mask n :: 'a word) = unat (- 1 AND mask n :: 'a word)" by simp
  also have "\<dots> = (2 ^ LENGTH('a) - 1) mod 2 ^ n"
    by (simp only: unat_and_mask unsigned_minus_1_eq_mask) (simp only: mask_eq_exp_minus_1)
  also have "\<dots> = 2 ^ n - 1"
    using n by (subst mask_mod_exp) (simp add: min_def)
  finally show ?thesis .
qed

lemma unat_le_self_mono: "a \<le> b \<longleftrightarrow> unat a \<le> unat b" for a b :: "'a::len word"
  by (rule word_le_nat_alt)

lemma unat_plus_no_wrap:
  "unat a + unat b < 2 ^ LENGTH('a) \<Longrightarrow> unat (a + b) = unat a + unat b"
  for a b :: "'a::len word"
  by (simp add: unat_word_ariths)

lemma word_bit1_cases: "(w :: 1 word) = 0 \<or> w = 1"
proof -
  have "unat w < 2 ^ LENGTH(1)" by (rule unsigned_less)
  then have "unat w = 0 \<or> unat w = 1" by auto
  then show ?thesis by (metis unat_0 unat_1 word_unat_eq_iff)
qed

lemma word_bit1_neq_1 [simp]: "(w :: 1 word) \<noteq> 1 \<longleftrightarrow> w = 0"
  using word_bit1_cases [of w] by auto

lemma word_bit1_neq_0 [simp]: "(w :: 1 word) \<noteq> 0 \<longleftrightarrow> w = 1"
  using word_bit1_cases [of w] by auto

lemma bit_less_exp: "unat w < 2 ^ n \<Longrightarrow> bit w j \<Longrightarrow> j < n" for w :: "'a::len word"
proof (rule ccontr)
  assume w: "unat w < 2 ^ n" and b: "bit w j" and "\<not> j < n"
  from w have "w AND mask n = w" by (simp add: word_unat_eq_iff unat_and_mask)
  with b have "bit (w AND mask n) j" by simp
  with \<open>\<not> j < n\<close> show False by (simp add: bit_and_iff bit_mask_iff)
qed

section \<open>Lists and options\<close>

lemma find_append:
  "find P (xs @ ys) = (case find P xs of None \<Rightarrow> find P ys | Some x \<Rightarrow> Some x)"
  by (induction xs) auto

lemma find_map: "find P (map f xs) = map_option f (find (P \<circ> f) xs)"
  by (induction xs) auto

lemma find_cong_set: "(\<And>x. x \<in> set xs \<Longrightarrow> P x = Q x) \<Longrightarrow> find P xs = find Q xs"
  by (induction xs) auto

lemma find_upt_split: "i \<le> j \<Longrightarrow> j \<le> k \<Longrightarrow>
    find P [i..<k] = (case find P [i..<j] of None \<Rightarrow> find P [j..<k] | Some x \<Rightarrow> Some x)"
  by (metis find_append le_iff_add upt_add_eq_append)

lemma find_upt_shift:
  "find P [a + m..<a + n] = map_option ((+) a) (find (\<lambda>j. P (a + j)) [m..<n])"
proof -
  have "[a + m..<a + n] = map ((+) a) [m..<n]"
    by (induction n) auto
  then show ?thesis by (simp only: find_map) (simp add: comp_def)
qed

lemma find_upt_None: "find P [a..<b] = None \<longleftrightarrow> (\<forall>k. a \<le> k \<and> k < b \<longrightarrow> \<not> P k)"
  by (auto simp: find_None_iff)

lemma find_upt_Some:
  "find P [a..<b] = Some k \<longleftrightarrow> a \<le> k \<and> k < b \<and> P k \<and> (\<forall>j. a \<le> j \<and> j < k \<longrightarrow> \<not> P j)"
proof (induction "b - a" arbitrary: a)
  case 0
  then show ?case by simp
next
  case (Suc n)
  then have ab: "a < b" and IH: "find P [Suc a..<b] = Some k \<longleftrightarrow>
      Suc a \<le> k \<and> k < b \<and> P k \<and> (\<forall>j. Suc a \<le> j \<and> j < k \<longrightarrow> \<not> P j)"
    by auto
  show ?case
  proof (cases "P a")
    case True
    then show ?thesis using ab by (auto simp: upt_conv_Cons le_less)
  next
    case False
    then show ?thesis using ab IH
      by (auto simp: upt_conv_Cons) (metis Suc_leI le_neq_implies_less)+
  qed
qed

lemma filter_upt_skip:
  "a \<le> b \<Longrightarrow> (\<And>k. a \<le> k \<Longrightarrow> k < b \<Longrightarrow> \<not> P k) \<Longrightarrow> filter P [a..<c] = filter P [b..<c]"
proof (induction "b - a" arbitrary: a)
  case (Suc n)
  then have ab: "a < b" and "n = b - Suc a" by auto
  with Suc have IH: "filter P [Suc a..<c] = filter P [b..<c]" by auto
  have "\<not> P a" using Suc.prems(2) ab by simp
  with IH ab show ?case by (cases "a < c") (auto simp: upt_conv_Cons)
qed simp

lemma bind_SomeE: "m \<bind> f = Some y \<Longrightarrow> (\<And>x. m = Some x \<Longrightarrow> f x = Some y \<Longrightarrow> P) \<Longrightarrow> P"
  by (cases m) auto

lemma option_eqI: "(\<And>y. a = Some y \<longleftrightarrow> b = Some y) \<Longrightarrow> a = b"
  by (cases a; cases b) auto

text \<open>A fold whose body may fault.\<close>

primrec fold_opt :: "('a \<Rightarrow> 's \<Rightarrow> 's option) \<Rightarrow> 'a list \<Rightarrow> 's \<Rightarrow> 's option" where
  "fold_opt f [] s = Some s"
| "fold_opt f (x # xs) s = Option.bind (f x s) (fold_opt f xs)"

lemma fold_opt_append: "fold_opt f (xs @ ys) s = Option.bind (fold_opt f xs s) (fold_opt f ys)"
  by (induction xs arbitrary: s) (auto split: bind_splits)

lemma list_update_nth_eq: "i < length xs \<Longrightarrow> xs[i := v] ! j = (if j = i then v else xs ! j)"
  by (auto simp: nth_list_update)

end
