(* ===== verification/Ummu_Common.thy ===== *)
theory Ummu_Common
  imports Ummu_Prelude
begin

text \<open>
  The bit utilities of \<^verbatim>\<open>src/ummu_common.h\<close> and \<^verbatim>\<open>src/ummu_common.c\<close>: masks, bit set
  and clear on an array of \<^verbatim>\<open>unsigned long\<close>, and the three bit searches.  Bit numbers and
  sizes are natural numbers; the one sum that can wrap (in \<^verbatim>\<open>DIV_ROUND_UP\<close>) is reduced
  modulo \<open>2 ^ 64\<close>.  A read outside the array is \<open>None\<close>.  The lemmas show that each search
  equals a naive scan of the bits, and that \<^verbatim>\<open>FOR_EACH_SET_BIT\<close> visits exactly the set bits
  in ascending order.
\<close>

section \<open>Definitions\<close>

definition BITS_PER_LONG :: nat where "BITS_PER_LONG = 64"
definition BITS_PER_LONG_SHIFT :: nat where "BITS_PER_LONG_SHIFT = 6"
definition BITS_PER_LONG_MASK :: nat where "BITS_PER_LONG_MASK = BITS_PER_LONG - 1"

definition GENMASK_ULL :: "nat \<Rightarrow> nat \<Rightarrow> u64" where
  "GENMASK_ULL h l = (NOT 0 - push_bit l 1 + 1) AND drop_bit (BITS_PER_LONG - 1 - h) (NOT 0)"

definition DIV_ROUND_UP :: "nat \<Rightarrow> nat \<Rightarrow> nat" where
  "DIV_ROUND_UP n d = ((n + d - 1) mod 2 ^ 64) div d"

definition BITS_TO_LONGS :: "nat \<Rightarrow> nat" where
  "BITS_TO_LONGS cnt = DIV_ROUND_UP cnt BITS_PER_LONG"

definition ummu_set_bit :: "nat \<Rightarrow> u64 list \<Rightarrow> u64 list option" where
  "ummu_set_bit nr addr = do {
     w \<leftarrow> arr_rd addr (drop_bit BITS_PER_LONG_SHIFT nr);
     arr_wr addr (drop_bit BITS_PER_LONG_SHIFT nr) (w OR push_bit (nr AND BITS_PER_LONG_MASK) 1)
   }"

definition ummu_clear_bit :: "nat \<Rightarrow> u64 list \<Rightarrow> u64 list option" where
  "ummu_clear_bit nr addr = do {
     w \<leftarrow> arr_rd addr (drop_bit BITS_PER_LONG_SHIFT nr);
     arr_wr addr (drop_bit BITS_PER_LONG_SHIFT nr)
       (w AND NOT (push_bit (nr AND BITS_PER_LONG_MASK) 1))
   }"

text \<open>
  \<open>builtin_ffsl\<close> is gcc's \<^verbatim>\<open>__builtin_ffsl\<close>: one plus the index of the least significant set
  bit, zero for the zero word.  In \<open>ffz\<close> the subtraction is on \<^verbatim>\<open>unsigned long\<close> and wraps for
  the all-ones word.
\<close>

definition builtin_ffsl :: "u64 \<Rightarrow> nat" where
  "builtin_ffsl w = (case find (bit w) [0..<64] of None \<Rightarrow> 0 | Some i \<Rightarrow> Suc i)"

definition ffz :: "u64 \<Rightarrow> nat" where
  "ffz w = (builtin_ffsl (NOT w) + (2 ^ 64 - 1)) mod 2 ^ 64"

function find_first_zero_bit_loop :: "u64 list \<Rightarrow> nat \<Rightarrow> nat \<Rightarrow> nat \<Rightarrow> nat \<Rightarrow> nat option" where
  "find_first_zero_bit_loop array sz array_size i ret =
     (if i < array_size then do {
        w \<leftarrow> arr_rd array i;
        if NOT w \<noteq> 0 then Some (ret + ffz w)
        else find_first_zero_bit_loop array sz array_size (Suc i) (ret + BITS_PER_LONG)
      } else Some sz)"
  by pat_completeness auto
termination
  by (relation "measure (\<lambda>(array, sz, array_size, i, ret). array_size - i)") auto

definition find_first_zero_bit :: "u64 list \<Rightarrow> nat \<Rightarrow> nat option" where
  "find_first_zero_bit array sz =
     (if sz = 0 then Some sz
      else find_first_zero_bit_loop array sz (BITS_TO_LONGS sz) 0 0)"

function find_bit_loop :: "u64 list \<Rightarrow> nat \<Rightarrow> nat \<Rightarrow> nat \<Rightarrow> nat \<Rightarrow> nat option" where
  "find_bit_loop array sz array_size i ret =
     (if i < array_size then do {
        w \<leftarrow> arr_rd array i;
        if w \<noteq> 0 then Some (ret + ffz (NOT w))
        else find_bit_loop array sz array_size (Suc i) (ret + BITS_PER_LONG)
      } else Some sz)"
  by pat_completeness auto
termination
  by (relation "measure (\<lambda>(array, sz, array_size, i, ret). array_size - i)") auto

definition find_first_bit :: "u64 list \<Rightarrow> nat \<Rightarrow> nat option" where
  "find_first_bit array sz =
     (if sz = 0 then Some sz
      else find_bit_loop array sz (BITS_TO_LONGS sz) 0 0)"

definition find_next_bit :: "u64 list \<Rightarrow> nat \<Rightarrow> nat \<Rightarrow> nat option" where
  "find_next_bit array sz offset =
     (if offset \<ge> sz \<or> sz = 0 then Some sz
      else
        let i = drop_bit BITS_PER_LONG_SHIFT offset;
            ret = i * BITS_PER_LONG;
            long_offset = offset mod BITS_PER_LONG
        in do {
          w \<leftarrow> arr_rd array i;
          let tmp = w AND push_bit long_offset (NOT 0);
          if tmp \<noteq> 0 then Some (ret + ffz (NOT tmp))
          else find_bit_loop array sz (BITS_TO_LONGS sz) (Suc i) (ret + BITS_PER_LONG)
        })"

text \<open>
  \<^verbatim>\<open>FOR_EACH_SET_BIT\<close>: the loop body is a state transformer that may fault.  The guard
  \<open>bit' > bit\<close> only serves totality: it always holds, by \<open>find_next_bit_ge\<close> below.
\<close>

function for_each_bit_from ::
    "u64 list \<Rightarrow> nat \<Rightarrow> (nat \<Rightarrow> 's \<Rightarrow> 's option) \<Rightarrow> nat \<Rightarrow> 's \<Rightarrow> 's option" where
  "for_each_bit_from addr sz body n s =
     (if n < sz then do {
        s' \<leftarrow> body n s;
        n' \<leftarrow> find_next_bit addr sz (Suc n);
        if n' > n then for_each_bit_from addr sz body n' s' else None
      } else Some s)"
  by pat_completeness auto
termination
  by (relation "measure (\<lambda>(addr, sz, body, n, s). sz - n)") auto

definition FOR_EACH_SET_BIT ::
    "u64 list \<Rightarrow> nat \<Rightarrow> (nat \<Rightarrow> 's \<Rightarrow> 's option) \<Rightarrow> 's \<Rightarrow> 's option" where
  "FOR_EACH_SET_BIT addr sz body s = do {
     n \<leftarrow> find_first_bit addr sz;
     for_each_bit_from addr sz body n s
   }"

declare find_first_zero_bit_loop.simps [simp del] find_bit_loop.simps [simp del]
  for_each_bit_from.simps [simp del]

text \<open>The abstract view of a bitmap: its \<open>k\<close>-th bit, counted across the words.\<close>

definition bm_bit :: "u64 list \<Rightarrow> nat \<Rightarrow> bool" where
  "bm_bit bm k = bit (bm ! (k div 64)) (k mod 64)"

section \<open>Single bits\<close>

lemmas long_consts = BITS_PER_LONG_def BITS_PER_LONG_SHIFT_def BITS_PER_LONG_MASK_def

lemma long_index:
  "drop_bit BITS_PER_LONG_SHIFT nr = nr div 64" "nr AND BITS_PER_LONG_MASK = nr mod 64"
proof -
  show "drop_bit BITS_PER_LONG_SHIFT nr = nr div 64"
    by (simp add: long_consts drop_bit_eq_div)
  have "nr AND BITS_PER_LONG_MASK = take_bit 6 nr"
    by (simp add: long_consts take_bit_eq_mask mask_eq_exp_minus_1)
  then show "nr AND BITS_PER_LONG_MASK = nr mod 64"
    by (simp add: take_bit_eq_mod)
qed

lemma div_eq_mod_eq_64: "(k div 64 = n div 64 \<and> k mod 64 = n mod 64) = (k = (n::nat))"
  by (metis div_mult_mod_eq)

lemma ummu_set_bit_eq:
  assumes "nr < 64 * length bm"
  obtains bm' where "ummu_set_bit nr bm = Some bm'" "length bm' = length bm"
    "\<And>k. bm_bit bm' k \<longleftrightarrow> k = nr \<or> bm_bit bm k"
proof
  let ?w = "bm ! (nr div 64) OR push_bit (nr mod 64) 1"
  have i: "nr div 64 < length bm" using assms by (simp add: less_mult_imp_div_less mult.commute)
  then show "ummu_set_bit nr bm = Some (bm[nr div 64 := ?w])"
    by (simp add: ummu_set_bit_def long_index)
  fix k
  show "bm_bit (bm[nr div 64 := ?w]) k \<longleftrightarrow> k = nr \<or> bm_bit bm k"
    using i div_eq_mod_eq_64 [of k nr]
    by (auto simp: bm_bit_def nth_list_update bit_or_iff bit_exp_iff)
qed simp

lemma ummu_clear_bit_eq:
  assumes "nr < 64 * length bm"
  obtains bm' where "ummu_clear_bit nr bm = Some bm'" "length bm' = length bm"
    "\<And>k. bm_bit bm' k \<longleftrightarrow> k \<noteq> nr \<and> bm_bit bm k"
proof
  let ?w = "bm ! (nr div 64) AND NOT (push_bit (nr mod 64) 1)"
  have i: "nr div 64 < length bm" using assms by (simp add: less_mult_imp_div_less mult.commute)
  then show "ummu_clear_bit nr bm = Some (bm[nr div 64 := ?w])"
    by (simp add: ummu_clear_bit_def long_index)
  fix k
  show "bm_bit (bm[nr div 64 := ?w]) k \<longleftrightarrow> k \<noteq> nr \<and> bm_bit bm k"
    using i div_eq_mod_eq_64 [of k nr]
    by (auto simp: bm_bit_def nth_list_update bit_and_iff bit_not_iff bit_exp_iff)
qed simp

section \<open>Searches equal a naive scan\<close>

lemma ffz_find:
  "find (\<lambda>j. \<not> bit w j) [0..<64] = (if NOT w \<noteq> 0 then Some (ffz w) else None)"
proof (cases "find (\<lambda>j. \<not> bit w j) [0..<64]")
  case None
  then have "NOT w = 0"
    by (auto simp: find_upt_None bit_eq_iff bit_not_iff)
  with None show ?thesis by simp
next
  case (Some j)
  then have j: "j < 64" and nb: "\<not> bit w j" by (auto simp: find_upt_Some)
  have "find (bit (NOT w)) [0..<64] = find (\<lambda>j. \<not> bit w j) [0..<64]"
    by (rule find_cong_set) (simp add: bit_not_iff)
  with Some have "builtin_ffsl (NOT w) = Suc j" by (simp add: builtin_ffsl_def)
  then have "ffz w = j" using j by (simp add: ffz_def)
  moreover have "NOT w \<noteq> 0" using j nb by (auto simp: bit_eq_iff bit_not_iff)
  ultimately show ?thesis using Some by simp
qed

lemma ffz_not_find: "find (bit w) [0..<64] = (if w \<noteq> 0 then Some (ffz (NOT w)) else None)"
proof -
  have "find (bit w) [0..<64] = find (\<lambda>j. \<not> bit (NOT w) j) [0..<64]"
    by (rule find_cong_set) (simp add: bit_not_iff)
  then show ?thesis by (simp only: ffz_find) simp
qed

lemma bm_bit_word: "j < 64 \<Longrightarrow> bm_bit bm (64 * i + j) = bit (bm ! i) j"
  by (simp add: bm_bit_def)

lemma find_bm_word:
  "find (\<lambda>k. Q (bm_bit bm k)) [64 * i..<64 * i + 64] =
     map_option ((+) (64 * i)) (find (\<lambda>j. Q (bit (bm ! i) j)) [0..<64])"
proof -
  have "find (\<lambda>j. Q (bm_bit bm (64 * i + j))) [0..<64] = find (\<lambda>j. Q (bit (bm ! i) j)) [0..<64]"
    by (rule find_cong_set) (simp add: bm_bit_word)
  then show ?thesis using find_upt_shift [of "\<lambda>k. Q (bm_bit bm k)" "64 * i" 0 64] by simp
qed

lemma find_bm_step:
  assumes "i < n"
  shows "find (\<lambda>k. Q (bm_bit bm k)) [64 * i..<64 * n] =
    (case find (\<lambda>j. Q (bit (bm ! i) j)) [0..<64] of
       None \<Rightarrow> find (\<lambda>k. Q (bm_bit bm k)) [64 * Suc i..<64 * n]
     | Some j \<Rightarrow> Some (64 * i + j))"
proof -
  have "64 * i \<le> 64 * i + 64" "64 * i + 64 \<le> 64 * n" and S: "64 * Suc i = 64 * i + 64"
    using assms by auto
  from find_upt_split [OF this(1,2)] show ?thesis
    by (simp only: find_bm_word S) (auto split: option.splits)
qed

text \<open>The two word loops are instances of one scan over the words from \<open>i\<close> on.\<close>

lemma find_first_zero_bit_loop_eq:
  "i \<le> n \<Longrightarrow> n \<le> length bm \<Longrightarrow>
   find_first_zero_bit_loop bm sz n i (64 * i) =
     Some (case find (\<lambda>k. \<not> bm_bit bm k) [64 * i..<64 * n] of None \<Rightarrow> sz | Some k \<Rightarrow> k)"
proof (induction "n - i" arbitrary: i)
  case 0
  then show ?case by (simp add: find_first_zero_bit_loop.simps)
next
  case (Suc m)
  then have i: "i < n" by simp
  have "m = n - Suc i" using Suc.hyps(2) by simp
  from Suc.hyps(1) [OF this] i Suc.prems(2) show ?case
    by (subst find_first_zero_bit_loop.simps)
      (simp add: ffz_find find_bm_step [where Q = Not, OF i] BITS_PER_LONG_def add.commute)
qed

lemma find_bit_loop_eq:
  "i \<le> n \<Longrightarrow> n \<le> length bm \<Longrightarrow>
   find_bit_loop bm sz n i (64 * i) =
     Some (case find (bm_bit bm) [64 * i..<64 * n] of None \<Rightarrow> sz | Some k \<Rightarrow> k)"
proof (induction "n - i" arbitrary: i)
  case 0
  then show ?case by (simp add: find_bit_loop.simps)
next
  case (Suc m)
  then have i: "i < n" by simp
  have "m = n - Suc i" using Suc.hyps(2) by simp
  from Suc.hyps(1) [OF this] i Suc.prems(2) show ?case
    by (subst find_bit_loop.simps)
      (simp add: ffz_not_find find_bm_step [where Q = "\<lambda>b. b", OF i] BITS_PER_LONG_def add.commute)
qed

lemma find_first_zero_bit_scan:
  assumes "0 < sz" "BITS_TO_LONGS sz \<le> length bm"
  shows "find_first_zero_bit bm sz =
    Some (case find (\<lambda>k. \<not> bm_bit bm k) [0..<64 * BITS_TO_LONGS sz] of None \<Rightarrow> sz | Some k \<Rightarrow> k)"
  using assms find_first_zero_bit_loop_eq [of 0 "BITS_TO_LONGS sz" bm sz]
  by (simp add: find_first_zero_bit_def)

lemma find_first_bit_scan:
  assumes "0 < sz" "BITS_TO_LONGS sz \<le> length bm"
  shows "find_first_bit bm sz =
    Some (case find (bm_bit bm) [0..<64 * BITS_TO_LONGS sz] of None \<Rightarrow> sz | Some k \<Rightarrow> k)"
  using assms find_bit_loop_eq [of 0 "BITS_TO_LONGS sz" bm sz]
  by (simp add: find_first_bit_def)

lemma BITS_TO_LONGS_mult: "64 * n < 2 ^ 64 - 63 \<Longrightarrow> BITS_TO_LONGS (64 * n) = n"
  by (simp add: BITS_TO_LONGS_def DIV_ROUND_UP_def BITS_PER_LONG_def)

lemma find_masked_word:
  fixes w :: u64
  assumes "lo < 64"
  shows "find (bit (w AND push_bit lo (NOT 0))) [0..<64] = find (bit w) [lo..<64]"
proof -
  let ?t = "w AND push_bit lo (NOT 0)"
  have b: "bit ?t j \<longleftrightarrow> bit w j \<and> lo \<le> j" if "j < 64" for j
    using that by (auto simp: bit_and_iff bit_not_iff bit_mask_iff)
  have "find (bit ?t) [0..<lo] = None" using assms b by (auto simp: find_upt_None)
  moreover have "find (bit ?t) [lo..<64] = find (bit w) [lo..<64]"
    by (rule find_cong_set) (simp only: b set_upt atLeastLessThan_iff simp_thms)
  ultimately show ?thesis using assms find_upt_split [of 0 lo 64 "bit ?t"] by simp
qed

lemma offset_in_words: "n < sz \<Longrightarrow> sz + 63 < 2 ^ 64 \<Longrightarrow> n div 64 < BITS_TO_LONGS sz"
  unfolding BITS_TO_LONGS_def DIV_ROUND_UP_def BITS_PER_LONG_def by simp

lemma find_bm_rest:
  assumes "n div 64 < m"
  shows "find (bm_bit bm) [n..<64 * m] =
    (case find (bit (bm ! (n div 64))) [n mod 64..<64] of
       None \<Rightarrow> find (bm_bit bm) [64 * Suc (n div 64)..<64 * m]
     | Some j \<Rightarrow> Some (64 * (n div 64) + j))"
proof -
  let ?i = "n div 64"
  have n: "n = 64 * ?i + n mod 64" by simp
  have "find (bm_bit bm) [64 * ?i + n mod 64..<64 * ?i + 64] =
      map_option ((+) (64 * ?i)) (find (\<lambda>j. bm_bit bm (64 * ?i + j)) [n mod 64..<64])"
    by (rule find_upt_shift)
  also have "find (\<lambda>j. bm_bit bm (64 * ?i + j)) [n mod 64..<64] = find (bit (bm ! ?i)) [n mod 64..<64]"
    by (rule find_cong_set) (simp add: bm_bit_word)
  finally have w: "find (bm_bit bm) [n..<64 * ?i + 64] =
      map_option ((+) (64 * ?i)) (find (bit (bm ! ?i)) [n mod 64..<64])"
    by simp
  have "n \<le> 64 * ?i + 64" "64 * ?i + 64 \<le> 64 * m" and S: "64 * Suc ?i = 64 * ?i + 64"
    using assms by auto
  from find_upt_split [OF this(1,2)] show ?thesis
    by (simp only: w S) (auto split: option.splits)
qed

lemma find_next_bit_scan:
  assumes "n < sz" "sz + 63 < 2 ^ 64" "BITS_TO_LONGS sz \<le> length bm"
  shows "find_next_bit bm sz n =
    Some (case find (bm_bit bm) [n..<64 * BITS_TO_LONGS sz] of None \<Rightarrow> sz | Some k \<Rightarrow> k)"
proof -
  let ?i = "n div 64" and ?m = "BITS_TO_LONGS sz" and ?lo = "n mod 64"
  have i: "?i < ?m" using assms(1,2) by (rule offset_in_words)
  then have len: "?i < length bm" using assms(3) by simp
  have step: "Suc ?i \<le> ?m" using i by simp
  have "find (bit (bm ! ?i)) [?lo..<64] =
      (if bm ! ?i AND push_bit ?lo (NOT 0) \<noteq> 0
       then Some (ffz (NOT (bm ! ?i AND push_bit ?lo (NOT 0)))) else None)"
    using find_masked_word [of ?lo "bm ! ?i"] ffz_not_find [of "bm ! ?i AND push_bit ?lo (NOT 0)"]
    by simp
  note rest = find_bm_rest [OF i, of bm, unfolded this]
  show ?thesis
    using assms(1) len find_bit_loop_eq [OF step assms(3), of sz]
    by (simp add: rest) (simp add: find_next_bit_def long_index(1) BITS_PER_LONG_def Let_def
        mult.commute add.commute)
qed

lemma find_next_bit_ge:
  assumes "sz = 64 * m" "m \<le> length bm" "64 * m + 63 < 2 ^ 64"
  shows "find_next_bit bm sz n = Some (case find (bm_bit bm) [n..<sz] of None \<Rightarrow> sz | Some k \<Rightarrow> k)"
proof (cases "n < sz")
  case True
  have "BITS_TO_LONGS sz = m" using assms by (simp add: BITS_TO_LONGS_mult)
  then show ?thesis using find_next_bit_scan [OF True, of bm] assms by simp
qed (simp add: find_next_bit_def)

lemma for_each_bit_from_eq:
  assumes sz: "sz = 64 * m" "m \<le> length bm" "64 * m + 63 < 2 ^ 64"
  shows "n \<le> sz \<Longrightarrow> (n < sz \<Longrightarrow> bm_bit bm n) \<Longrightarrow>
    for_each_bit_from bm sz body n s = fold_opt body (filter (bm_bit bm) [n..<sz]) s"
proof (induction "sz - n" arbitrary: n s rule: less_induct)
  case less
  show ?case
  proof (cases "n < sz")
    case False
    then show ?thesis by (simp add: for_each_bit_from.simps)
  next
    case True
    define n' where "n' = (case find (bm_bit bm) [Suc n..<sz] of None \<Rightarrow> sz | Some k \<Rightarrow> k)"
    have next': "find_next_bit bm sz (Suc n) = Some n'"
      unfolding n'_def by (rule find_next_bit_ge [OF sz])
    have n': "n < n'" "n' \<le> sz" "n' < sz \<Longrightarrow> bm_bit bm n'"
      and skip: "\<And>k. Suc n \<le> k \<Longrightarrow> k < n' \<Longrightarrow> \<not> bm_bit bm k"
      using True unfolding n'_def by (auto split: option.splits simp: find_upt_None find_upt_Some)
    have "filter (bm_bit bm) [n..<sz] = n # filter (bm_bit bm) [Suc n..<sz]"
      using True less.prems(2) by (simp add: upt_conv_Cons)
    also have "filter (bm_bit bm) [Suc n..<sz] = filter (bm_bit bm) [n'..<sz]"
      using n'(1) skip by (intro filter_upt_skip) auto
    finally have f: "filter (bm_bit bm) [n..<sz] = n # filter (bm_bit bm) [n'..<sz]" .
    have "for_each_bit_from bm sz body n' s' = fold_opt body (filter (bm_bit bm) [n'..<sz]) s'" for s'
      using n' True by (intro less.hyps) auto
    then show ?thesis
      using True n'(1) by (subst for_each_bit_from.simps) (simp add: next' f cong: Option.bind_cong)
  qed
qed

lemma FOR_EACH_SET_BIT_eq:
  assumes "sz = 64 * m" "m \<le> length bm" "64 * m + 63 < 2 ^ 64"
  shows "FOR_EACH_SET_BIT bm sz body s = fold_opt body (filter (bm_bit bm) [0..<sz]) s"
proof -
  define n where "n = (case find (bm_bit bm) [0..<sz] of None \<Rightarrow> sz | Some k \<Rightarrow> k)"
  have first: "find_first_bit bm sz = Some n"
    using assms find_first_bit_scan [of sz bm]
    by (cases "sz = 0") (auto simp: n_def find_first_bit_def BITS_TO_LONGS_mult)
  have n: "n \<le> sz" "n < sz \<Longrightarrow> bm_bit bm n" "\<And>k. k < n \<Longrightarrow> \<not> bm_bit bm k"
    unfolding n_def by (auto split: option.splits simp: find_upt_None find_upt_Some)
  have "filter (bm_bit bm) [0..<sz] = filter (bm_bit bm) [n..<sz]"
    using n by (intro filter_upt_skip) auto
  then show ?thesis
    using for_each_bit_from_eq [OF assms n(1,2)] first by (simp add: FOR_EACH_SET_BIT_def)
qed

section \<open>Properties\<close>

text \<open>\<^verbatim>\<open>find_next_bit\<close> on a bitmap of \<open>m\<close> words reads only inside the bitmap and returns the
  least set bit at or after \<open>n\<close>, or the size of the bitmap when there is none.\<close>

theorem find_next_bit_least:
  assumes "m \<le> length bm" "64 * m + 63 < 2 ^ 64"
  shows "find_next_bit bm (64 * m) n = Some
    (if \<exists>k. n \<le> k \<and> k < 64 * m \<and> bm_bit bm k
     then LEAST k. n \<le> k \<and> k < 64 * m \<and> bm_bit bm k else 64 * m)"
proof -
  note e = find_next_bit_ge [OF refl assms, of n]
  show ?thesis
  proof (cases "find (bm_bit bm) [n..<64 * m]")
    case None
    then have "\<nexists>k. n \<le> k \<and> k < 64 * m \<and> bm_bit bm k" by (auto simp: find_upt_None)
    then show ?thesis using e None by auto
  next
    case (Some k)
    then have k: "n \<le> k" "k < 64 * m" "bm_bit bm k" "\<And>j. n \<le> j \<Longrightarrow> j < k \<Longrightarrow> \<not> bm_bit bm j"
      by (auto simp: find_upt_Some)
    then have "(LEAST k. n \<le> k \<and> k < 64 * m \<and> bm_bit bm k) = k"
      by (intro Least_equality) (auto simp: not_less [symmetric])
    with k Some e show ?thesis by auto
  qed
qed

theorem find_next_bit_least_witness:
  "find_next_bit [0, 0x28] (64 * 2) 68 = Some 69 \<and>
   (LEAST k. 68 \<le> k \<and> k < 64 * 2 \<and> bm_bit [0, 0x28] k) = 69"
proof -
  have v: "find_next_bit [0, 0x28] (64 * 2) 68 = Some 69" by code_simp
  with find_next_bit_least [of 2 "[0, 0x28]" 68] show ?thesis by (simp split: if_splits)
qed

text \<open>C39: \<^verbatim>\<open>FOR_EACH_SET_BIT\<close> over a bitmap of \<open>m\<close> words runs its body exactly once for every set
  bit, in increasing order, and stops at the first undefined body.\<close>

theorem for_each_set_bit_ascending:
  assumes "m \<le> length bm" "64 * m + 63 < 2 ^ 64"
  shows "FOR_EACH_SET_BIT bm (64 * m) body s =
    fold_opt body (sorted_list_of_set {k. k < 64 * m \<and> bm_bit bm k}) s"
proof -
  let ?xs = "filter (bm_bit bm) [0..<64 * m]"
  have set: "{k. k < 64 * m \<and> bm_bit bm k} = set ?xs" by auto
  have "sorted ?xs" by (intro sorted_wrt_filter) simp
  then have "sorted_list_of_set {k. k < 64 * m \<and> bm_bit bm k} = ?xs"
    unfolding set by (rule sorted_list_of_set.idem_if_sorted_distinct) simp
  then show ?thesis using FOR_EACH_SET_BIT_eq [OF refl assms, of body s] by simp
qed

theorem for_each_set_bit_ascending_witness:
  "FOR_EACH_SET_BIT [5, 1] (64 * 2) (\<lambda>n xs. Some (xs @ [n])) [] =
    fold_opt (\<lambda>n xs. Some (xs @ [n])) (sorted_list_of_set {k. k < 64 * 2 \<and> bm_bit [5, 1] k}) []"
  by (rule for_each_set_bit_ascending) simp_all

end
