(* ===== verification/Ummu_Node.thy ===== *)
theory Ummu_Node
  imports Ummu_Common
begin

text \<open>
  The data structures and address macros of \<^verbatim>\<open>src/ummu_mapt.h\<close> and
  \<^verbatim>\<open>src/kernel_headers/ummu_core.h\<close>: the permission entry of entry mode, the table node of
  table mode, the request descriptor \<^verbatim>\<open>ummu_data_info\<close>.  Bit-fields are words of the
  field's width.  Both nodes are also given as the eight 32-bit words they occupy (fields
  from the least significant bit up, the layout of the supported ABI), because the token
  functions of \<^verbatim>\<open>src/ummu_mapt.c\<close> cast a table node to an entry node: the cast is modelled
  on the words and shown to touch the right fields.
\<close>

section \<open>Constants of the user interface\<close>

definition MAPT_PERM_W :: u32 where "MAPT_PERM_W = 1"
definition MAPT_PERM_R :: u32 where "MAPT_PERM_R = 2"
definition MAPT_PERM_RW :: u32 where "MAPT_PERM_RW = 3"
definition MAPT_PERM_ATOMIC_W :: u32 where "MAPT_PERM_ATOMIC_W = 5"
definition MAPT_PERM_ATOMIC_R :: u32 where "MAPT_PERM_ATOMIC_R = 6"
definition MAPT_PERM_ATOMIC_RW :: u32 where "MAPT_PERM_ATOMIC_RW = 7"

definition MAPT_MODE_TABLE :: u32 where "MAPT_MODE_TABLE = 0"
definition MAPT_MODE_ENTRY :: u32 where "MAPT_MODE_ENTRY = 1"
definition MAPT_MODE_END :: u32 where "MAPT_MODE_END = 2"

definition UMMU_EBIT_OFF :: u32 where "UMMU_EBIT_OFF = 0"
definition UMMU_EBIT_ON :: u32 where "UMMU_EBIT_ON = 1"
definition UMMU_EBIT_END :: u32 where "UMMU_EBIT_END = 2"

named_theorems ummu_consts "numeric values of the interface constants"

declare MAPT_PERM_W_def [ummu_consts] MAPT_PERM_R_def [ummu_consts] MAPT_PERM_RW_def [ummu_consts]
  MAPT_PERM_ATOMIC_W_def [ummu_consts] MAPT_PERM_ATOMIC_R_def [ummu_consts]
  MAPT_PERM_ATOMIC_RW_def [ummu_consts] MAPT_MODE_TABLE_def [ummu_consts]
  MAPT_MODE_ENTRY_def [ummu_consts] MAPT_MODE_END_def [ummu_consts]
  UMMU_EBIT_OFF_def [ummu_consts] UMMU_EBIT_ON_def [ummu_consts] UMMU_EBIT_END_def [ummu_consts]

definition MAX_LEVEL_INDEX :: nat where "MAX_LEVEL_INDEX = 3"
definition PER_MAPT_LEVEL_BLOCK_CNT :: nat where "PER_MAPT_LEVEL_BLOCK_CNT = 4"
definition INDEX_MAX_SIZE :: nat where "INDEX_MAX_SIZE = 512"
definition MAX_MAPT_ENTRY_INDEX :: nat where "MAX_MAPT_ENTRY_INDEX = 512"
definition MAX_LEVEL_ID_SIZE :: nat where
  "MAX_LEVEL_ID_SIZE = INDEX_MAX_SIZE * PER_MAPT_LEVEL_BLOCK_CNT"
definition INDEX_LEVEL_BITMAP_SIZE :: nat where
  "INDEX_LEVEL_BITMAP_SIZE = drop_bit 6 MAX_LEVEL_ID_SIZE"
definition MAX_ADDRESS_BITS :: nat where "MAX_ADDRESS_BITS = 48"
definition UMMU_MAX_TOKEN_NUM :: nat where "UMMU_MAX_TOKEN_NUM = 2"
definition MAPT_VPAGE_SHIFT :: nat where "MAPT_VPAGE_SHIFT = 12"

section \<open>Structures\<close>

record entry_node =
  en_valid :: "1 word"
  en_reserved_0 :: "2 word"
  en_e_bit :: "1 word"
  en_permission :: "6 word"
  en_reserved_1 :: "22 word"
  en_reserved_2 :: u32
  en_base_low :: u32
  en_base_high :: "16 word"
  en_reserved_3 :: "12 word"
  en_reserved_4 :: "3 word"
  en_token_check :: "1 word"
  en_limit_low :: u32
  en_limit_high :: "16 word"
  en_reserved_5 :: "12 word"
  en_reserved_6 :: "2 word"
  en_nonce :: "2 word"
  en_token_val_0 :: u32
  en_token_val_1 :: u32

record table_node =
  tn_valid :: "1 word"
  tn_type :: "1 word"
  tn_next_block :: "1 word"
  tn_e_bit :: "1 word"
  tn_permission :: "6 word"
  tn_reserved_0 :: "2 word"
  tn_next_lv_offset_low :: "20 word"
  tn_next_lv_offset_high :: "10 word"
  tn_reserved_1 :: "6 word"
  tn_next_lv_index :: "16 word"
  tn_base_low :: u32
  tn_base_high :: "7 word"
  tn_reserved_2 :: "21 word"
  tn_reserved_3 :: "3 word"
  tn_token_check :: "1 word"
  tn_limit_low :: u32
  tn_limit_high :: "7 word"
  tn_reserved_4 :: "21 word"
  tn_flag :: "2 word"
  tn_nonce :: "2 word"
  tn_token_val_0 :: u32
  tn_token_val_1 :: u32

datatype grant_op = UMMU_GRANT | UMMU_ADD_TOKEN | UMMU_REMOVE_TOKEN | UMMU_UNGRANT | UMMU_OP_END

record token_info =
  ti_input :: u32
  ti_tokenVal :: u32

record data_info =
  di_data :: u64
  di_data_size :: u64
  di_perm :: u32
  di_token :: "token_info option"
  di_tokenval :: u32
  di_data_base :: u64
  di_data_limit :: u64
  di_token_check :: u32
  di_bytoken :: bool
  di_e_bit :: u32
  di_op :: grant_op
  di_lvl :: nat

section \<open>Address macros\<close>

definition g_mapt_range_bits :: "(nat \<times> nat) list" where
  "g_mapt_range_bits = [(47, 39), (38, 30), (29, 21), (20, 12)]"

definition GET_BITS_MASK :: "nat \<Rightarrow> u64" where
  "GET_BITS_MASK bits = push_bit bits 1 - 1"

definition GET_LEVEL_RANGE_MASK :: "nat \<Rightarrow> u64" where
  "GET_LEVEL_RANGE_MASK level = GET_BITS_MASK (snd (g_mapt_range_bits ! level))"

definition GET_LEVEL_BLOCK_INDEX :: "u64 \<Rightarrow> nat \<Rightarrow> u64" where
  "GET_LEVEL_BLOCK_INDEX addr level =
     drop_bit (snd (g_mapt_range_bits ! level)) addr AND
     GET_BITS_MASK (fst (g_mapt_range_bits ! level) - snd (g_mapt_range_bits ! level) + 1)"

definition ALIGN_MAPT :: "u64 \<Rightarrow> u64 \<Rightarrow> u64" where
  "ALIGN_MAPT x a = x AND NOT (a - 1)"

definition ALIGN_VPAGE_SHIFT_CHECK :: "u64 \<Rightarrow> bool" where
  "ALIGN_VPAGE_SHIFT_CHECK val \<longleftrightarrow> ALIGN_MAPT val (push_bit MAPT_VPAGE_SHIFT 1) = val"

text \<open>The macros yield \<^verbatim>\<open>uint32_t\<close>; a store to a bit-field truncates further.\<close>

definition ENTRY_ADDR_LOW :: "u64 \<Rightarrow> u32" where
  "ENTRY_ADDR_LOW addr = ucast (addr AND GENMASK_ULL 31 0)"
definition ENTRY_ADDR_HIGH :: "u64 \<Rightarrow> u32" where
  "ENTRY_ADDR_HIGH addr = ucast (drop_bit 32 (addr AND GENMASK_ULL 47 32))"
definition TABLE_ADDR_LOW :: "u64 \<Rightarrow> u32" where
  "TABLE_ADDR_LOW addr = ucast (addr AND GENMASK_ULL 31 0)"
definition TABLE_ADDR_HIGH :: "u64 \<Rightarrow> u32" where
  "TABLE_ADDR_HIGH addr = ucast (drop_bit 32 (addr AND GENMASK_ULL 38 32))"
definition LVL_OFFSET_LOW :: "u32 \<Rightarrow> u32" where
  "LVL_OFFSET_LOW off = ucast (ucast off AND GENMASK_ULL 19 0)"
definition LVL_OFFSET_HIGH :: "u32 \<Rightarrow> u32" where
  "LVL_OFFSET_HIGH off = ucast (drop_bit 20 (ucast off AND GENMASK_ULL 29 20))"

definition ADDR_FULL :: "u32 \<Rightarrow> u32 \<Rightarrow> u64" where
  "ADDR_FULL low high = push_bit 32 (ucast high) OR ucast low"
definition TABLE_LVL_OFFSET :: "u32 \<Rightarrow> u32 \<Rightarrow> u32" where
  "TABLE_LVL_OFFSET low high = push_bit 20 high OR low"

definition en_base :: "entry_node \<Rightarrow> u64" where
  "en_base n = ADDR_FULL (en_base_low n) (ucast (en_base_high n))"
definition en_limit :: "entry_node \<Rightarrow> u64" where
  "en_limit n = ADDR_FULL (en_limit_low n) (ucast (en_limit_high n))"
definition tn_base :: "table_node \<Rightarrow> u64" where
  "tn_base n = ADDR_FULL (tn_base_low n) (ucast (tn_base_high n))"
definition tn_limit :: "table_node \<Rightarrow> u64" where
  "tn_limit n = ADDR_FULL (tn_limit_low n) (ucast (tn_limit_high n))"
definition tn_lv_offset :: "table_node \<Rightarrow> u32" where
  "tn_lv_offset n = TABLE_LVL_OFFSET (ucast (tn_next_lv_offset_low n)) (ucast (tn_next_lv_offset_high n))"

section \<open>Memory layout\<close>

text \<open>\<open>put k f\<close> is field \<open>f\<close> at bit \<open>k\<close> of a 32-bit word, \<open>fld k w\<close> reads it back.\<close>

definition put :: "nat \<Rightarrow> 'a::len word \<Rightarrow> u32" where
  "put k f = push_bit k (ucast f)"
definition fld :: "nat \<Rightarrow> u32 \<Rightarrow> 'a::len word" where
  "fld k w = ucast (drop_bit k w)"

definition words_of_entry :: "entry_node \<Rightarrow> u32 list" where
  "words_of_entry n =
    [put 0 (en_valid n) OR put 1 (en_reserved_0 n) OR put 3 (en_e_bit n) OR
       put 4 (en_permission n) OR put 10 (en_reserved_1 n),
     en_reserved_2 n,
     en_base_low n,
     put 0 (en_base_high n) OR put 16 (en_reserved_3 n) OR put 28 (en_reserved_4 n) OR
       put 31 (en_token_check n),
     en_limit_low n,
     put 0 (en_limit_high n) OR put 16 (en_reserved_5 n) OR put 28 (en_reserved_6 n) OR
       put 30 (en_nonce n),
     en_token_val_0 n,
     en_token_val_1 n]"

definition entry_of_words :: "u32 list \<Rightarrow> entry_node" where
  "entry_of_words ws =
    \<lparr>en_valid = fld 0 (ws ! 0), en_reserved_0 = fld 1 (ws ! 0), en_e_bit = fld 3 (ws ! 0),
     en_permission = fld 4 (ws ! 0), en_reserved_1 = fld 10 (ws ! 0),
     en_reserved_2 = ws ! 1, en_base_low = ws ! 2,
     en_base_high = fld 0 (ws ! 3), en_reserved_3 = fld 16 (ws ! 3),
     en_reserved_4 = fld 28 (ws ! 3), en_token_check = fld 31 (ws ! 3),
     en_limit_low = ws ! 4,
     en_limit_high = fld 0 (ws ! 5), en_reserved_5 = fld 16 (ws ! 5),
     en_reserved_6 = fld 28 (ws ! 5), en_nonce = fld 30 (ws ! 5),
     en_token_val_0 = ws ! 6, en_token_val_1 = ws ! 7\<rparr>"

definition words_of_table :: "table_node \<Rightarrow> u32 list" where
  "words_of_table n =
    [put 0 (tn_valid n) OR put 1 (tn_type n) OR put 2 (tn_next_block n) OR put 3 (tn_e_bit n) OR
       put 4 (tn_permission n) OR put 10 (tn_reserved_0 n) OR put 12 (tn_next_lv_offset_low n),
     put 0 (tn_next_lv_offset_high n) OR put 10 (tn_reserved_1 n) OR put 16 (tn_next_lv_index n),
     tn_base_low n,
     put 0 (tn_base_high n) OR put 7 (tn_reserved_2 n) OR put 28 (tn_reserved_3 n) OR
       put 31 (tn_token_check n),
     tn_limit_low n,
     put 0 (tn_limit_high n) OR put 7 (tn_reserved_4 n) OR put 28 (tn_flag n) OR
       put 30 (tn_nonce n),
     tn_token_val_0 n,
     tn_token_val_1 n]"

definition table_of_words :: "u32 list \<Rightarrow> table_node" where
  "table_of_words ws =
    \<lparr>tn_valid = fld 0 (ws ! 0), tn_type = fld 1 (ws ! 0), tn_next_block = fld 2 (ws ! 0),
     tn_e_bit = fld 3 (ws ! 0), tn_permission = fld 4 (ws ! 0), tn_reserved_0 = fld 10 (ws ! 0),
     tn_next_lv_offset_low = fld 12 (ws ! 0),
     tn_next_lv_offset_high = fld 0 (ws ! 1), tn_reserved_1 = fld 10 (ws ! 1),
     tn_next_lv_index = fld 16 (ws ! 1),
     tn_base_low = ws ! 2,
     tn_base_high = fld 0 (ws ! 3), tn_reserved_2 = fld 7 (ws ! 3),
     tn_reserved_3 = fld 28 (ws ! 3), tn_token_check = fld 31 (ws ! 3),
     tn_limit_low = ws ! 4,
     tn_limit_high = fld 0 (ws ! 5), tn_reserved_4 = fld 7 (ws ! 5),
     tn_flag = fld 28 (ws ! 5), tn_nonce = fld 30 (ws ! 5),
     tn_token_val_0 = ws ! 6, tn_token_val_1 = ws ! 7\<rparr>"

text \<open>\<^verbatim>\<open>memset(node, 0, sizeof(...))\<close>.\<close>

definition zero_table_node :: table_node where
  "zero_table_node = table_of_words (replicate 8 0)"
definition zero_entry_node :: entry_node where
  "zero_entry_node = entry_of_words (replicate 8 0)"

section \<open>Layout lemmas\<close>

lemma bit_put: "bit (put k (f :: 'a::len word)) j \<longleftrightarrow> j < 32 \<and> k \<le> j \<and> bit f (j - k)"
  by (auto simp: put_def bit_push_bit_iff bit_ucast_iff bit_imp_le_length)

lemma bit_fld: "bit (fld k w :: 'a::len word) j \<longleftrightarrow> j < LENGTH('a) \<and> bit w (k + j)"
  by (auto simp: fld_def bit_ucast_iff bit_drop_bit_eq)

lemma bit_put_fld:
  "bit (put k (fld k w :: 'a::len word)) j \<longleftrightarrow> j < 32 \<and> k \<le> j \<and> j < k + LENGTH('a) \<and> bit w j"
  by (auto simp: bit_put bit_fld)

lemma fld_or: "fld k (a OR b) = fld k a OR fld k b"
  by (simp add: bit_eq_iff bit_fld bit_or_iff conj_disj_distribL)

lemma fld_put_same: "k + LENGTH('a) \<le> 32 \<Longrightarrow> fld k (put k (f :: 'a::len word)) = f"
  by (auto simp: bit_eq_iff bit_fld bit_put dest: bit_imp_le_length)

lemma fld_put_below:
  "k' + LENGTH('b) \<le> k \<Longrightarrow> (fld k (put k' (f :: 'b::len word)) :: 'a::len word) = 0"
  by (auto simp: bit_eq_iff bit_fld bit_put dest: bit_imp_le_length)

lemma fld_put_above:
  "k + LENGTH('a) \<le> k' \<Longrightarrow> (fld k (put k' (f :: 'b::len word)) :: 'a::len word) = 0"
  by (auto simp: bit_eq_iff bit_fld bit_put dest: bit_imp_le_length)

lemmas fld_put = fld_or fld_put_same fld_put_below fld_put_above

lemma fld_zero [simp]: "fld k 0 = 0"
  by (simp add: fld_def)

lemma u32_eqI: "(\<And>j. j < 32 \<Longrightarrow> bit a j = bit (b::u32) j) \<Longrightarrow> a = b"
  by (rule bit_word_eqI) simp

lemma eight_words: "length ws = 8 \<Longrightarrow> \<exists>a b c d e f g h. ws = [a, b, c, d, e, f, g, h]"
  by (auto simp: length_Suc_conv numeral_eq_Suc)

lemma table_of_words_of_table [simp]: "table_of_words (words_of_table n) = n"
  by (simp add: table_of_words_def words_of_table_def fld_put)

lemma entry_of_words_of_entry [simp]: "entry_of_words (words_of_entry n) = n"
  by (simp add: entry_of_words_def words_of_entry_def fld_put)

lemma words_of_entry_of_words: "length ws = 8 \<Longrightarrow> words_of_entry (entry_of_words ws) = ws"
  by (drule eight_words)
    (auto simp: words_of_entry_def entry_of_words_def bit_or_iff bit_put_fld intro!: u32_eqI)

lemma words_of_table_of_words: "length ws = 8 \<Longrightarrow> words_of_table (table_of_words ws) = ws"
  by (drule eight_words)
    (auto simp: words_of_table_def table_of_words_def bit_or_iff bit_put_fld intro!: u32_eqI)

lemma length_words [simp]: "length (words_of_entry n) = 8" "length (words_of_table m) = 8"
  by (simp_all add: words_of_entry_def words_of_table_def)

text \<open>What a table node looks like through an entry pointer, and back.\<close>

definition entry_view :: "table_node \<Rightarrow> entry_node" where
  "entry_view n = entry_of_words (words_of_table n)"
definition table_view :: "entry_node \<Rightarrow> table_node" where
  "table_view n = table_of_words (words_of_entry n)"

lemma table_view_entry_view [simp]: "table_view (entry_view n) = n"
  by (simp add: table_view_def entry_view_def words_of_entry_of_words)

lemma entry_view_fields [simp]:
  "en_valid (entry_view n) = tn_valid n"
  "en_nonce (entry_view n) = tn_nonce n"
  "en_token_check (entry_view n) = tn_token_check n"
  "en_permission (entry_view n) = tn_permission n"
  "en_e_bit (entry_view n) = tn_e_bit n"
  "en_token_val_0 (entry_view n) = tn_token_val_0 n"
  "en_token_val_1 (entry_view n) = tn_token_val_1 n"
  by (simp_all add: entry_view_def entry_of_words_def words_of_table_def fld_put)

lemma table_view_update [simp]:
  "table_view (m\<lparr>en_token_val_0 := t\<rparr>) = (table_view m)\<lparr>tn_token_val_0 := t\<rparr>"
  "table_view (m\<lparr>en_token_val_1 := t\<rparr>) = (table_view m)\<lparr>tn_token_val_1 := t\<rparr>"
  by (simp_all add: table_view_def table_of_words_def words_of_entry_def)

lemma table_view_nonce [simp]:
  "table_view (m\<lparr>en_nonce := c\<rparr>) = (table_view m)\<lparr>tn_nonce := c\<rparr>"
  by (simp add: table_view_def table_of_words_def words_of_entry_def fld_put)

section \<open>Address lemmas\<close>

lemma GENMASK_bit: "l \<le> h \<Longrightarrow> h < 64 \<Longrightarrow> bit (GENMASK_ULL h l) n \<longleftrightarrow> l \<le> n \<and> n \<le> h"
  by (auto simp: GENMASK_ULL_def BITS_PER_LONG_def bit_and_iff bit_drop_bit_eq bit_not_iff
      bit_mask_iff minus_exp_eq_not_mask)

lemmas addr_bits = GENMASK_bit bit_or_iff bit_and_iff bit_push_bit_iff bit_ucast_iff
  bit_drop_bit_eq bit_mask_iff

lemma entry_addr_full:
  "ADDR_FULL (ENTRY_ADDR_LOW a) (ucast (ucast (ENTRY_ADDR_HIGH a) :: 16 word)) = a AND mask 48"
  by (rule bit_word_eqI)
    (auto simp: ADDR_FULL_def ENTRY_ADDR_LOW_def ENTRY_ADDR_HIGH_def addr_bits)

lemma table_addr_full:
  "ADDR_FULL (TABLE_ADDR_LOW a) (ucast (ucast (TABLE_ADDR_HIGH a) :: 7 word)) = a AND mask 39"
  by (rule bit_word_eqI)
    (auto simp: ADDR_FULL_def TABLE_ADDR_LOW_def TABLE_ADDR_HIGH_def addr_bits)

lemma lvl_offset_full:
  "TABLE_LVL_OFFSET (ucast (ucast (LVL_OFFSET_LOW a) :: 20 word))
     (ucast (ucast (LVL_OFFSET_HIGH a) :: 10 word)) = a AND mask 30"
  by (rule bit_word_eqI)
    (auto simp: TABLE_LVL_OFFSET_def LVL_OFFSET_LOW_def LVL_OFFSET_HIGH_def addr_bits)

lemma and_mask_id: "unat a < 2 ^ n \<Longrightarrow> a AND mask n = a" for a :: "'a::len word"
  by (simp add: word_unat_eq_iff unat_and_mask)

lemma GET_BITS_MASK_mask: "GET_BITS_MASK n = mask n"
  unfolding GET_BITS_MASK_def by (rule push_bit_minus_1_eq_mask)

text \<open>Level \<open>l\<close> covers \<open>2 ^ region_bits l\<close> bytes per node.\<close>

definition region_bits :: "nat \<Rightarrow> nat" where
  "region_bits level = 39 - 9 * level"

lemma level_cases: "level \<le> MAX_LEVEL_INDEX \<Longrightarrow> level = 0 \<or> level = 1 \<or> level = 2 \<or> level = 3"
  by (auto simp: MAX_LEVEL_INDEX_def)

lemma range_bits:
  assumes "level \<le> MAX_LEVEL_INDEX"
  shows "snd (g_mapt_range_bits ! level) = region_bits level"
    and "fst (g_mapt_range_bits ! level) = region_bits level + 8"
  using level_cases [OF assms] by (auto simp: g_mapt_range_bits_def region_bits_def)

lemma unat_block_index:
  "level \<le> MAX_LEVEL_INDEX \<Longrightarrow>
   unat (GET_LEVEL_BLOCK_INDEX a level) = unat a div 2 ^ region_bits level mod 512"
  by (simp add: GET_LEVEL_BLOCK_INDEX_def range_bits GET_BITS_MASK_mask word_nat)

lemma unat_range_mask:
  "level \<le> MAX_LEVEL_INDEX \<Longrightarrow> unat (GET_LEVEL_RANGE_MASK level) = 2 ^ region_bits level - 1"
  by (simp add: GET_LEVEL_RANGE_MASK_def range_bits GET_BITS_MASK_mask unat_mask_less region_bits_def)

lemma unat_and_range_mask:
  "level \<le> MAX_LEVEL_INDEX \<Longrightarrow>
   unat (a AND GET_LEVEL_RANGE_MASK level) = unat a mod 2 ^ region_bits level"
  by (simp add: GET_LEVEL_RANGE_MASK_def range_bits GET_BITS_MASK_mask unat_and_mask)

lemma ALIGN_VPAGE_iff: "ALIGN_VPAGE_SHIFT_CHECK a \<longleftrightarrow> unat a mod 4096 = 0"
proof -
  have "ALIGN_MAPT a (push_bit MAPT_VPAGE_SHIFT 1) = a AND NOT (mask 12)"
    by (simp only: ALIGN_MAPT_def MAPT_VPAGE_SHIFT_def push_bit_minus_1_eq_mask)
  moreover have "a = (a AND NOT (mask 12)) + (a AND mask 12)"
    by (subst disjunctive_add) (auto simp: bit_and_iff bit_not_iff bit_eq_iff bit_or_iff)
  ultimately have "ALIGN_VPAGE_SHIFT_CHECK a \<longleftrightarrow> a AND mask 12 = 0"
    by (metis ALIGN_VPAGE_SHIFT_CHECK_def add_cancel_right_right)
  also have "\<dots> \<longleftrightarrow> unat (a AND mask 12) = 0"
    by (rule unat_eq_zero [symmetric])
  finally show ?thesis by (simp only: unat_and_mask) simp
qed

end
