(* ===== verification/Ummu_Os.thy ===== *)
theory Ummu_Os
  imports Ummu_Node
begin

text \<open>
  The boundary of the library: the C library, the UMMU-CORE driver behind
  \<^verbatim>\<open>/dev/ummu/tid\<close> and the UMMU hardware.  None of that code is in the repository, so it is
  a parameter \<open>E\<close> of the definitions that call it.  The parameter gives each call's result
  as a function of a clock that ticks at every call, so two calls may answer differently.
  The calls that matter to the outside (mappings, ioctls, waits) are recorded in a trace.
\<close>

section \<open>Structures shared with driver and hardware\<close>

record tid_info =
  tf_pcmdq_order :: u8
  tf_pcplq_order :: u8
  tf_expan :: int
  tf_blk_exp_size :: u64
  tf_dev :: u64
  tf_tid :: u32
  tf_ummu_cnt :: u32
  tf_mode :: u32
  tf_hw_cap :: u64
  tf_va :: u64
  tf_size :: u64

definition zero_tid_info :: tid_info where
  "zero_tid_info = \<lparr>tf_pcmdq_order = 0, tf_pcplq_order = 0, tf_expan = 0, tf_blk_exp_size = 0,
     tf_dev = 0, tf_tid = 0, tf_ummu_cnt = 0, tf_mode = 0, tf_hw_cap = 0, tf_va = 0, tf_size = 0\<rparr>"

definition HW_CAP_EXPAN :: u64 where "HW_CAP_EXPAN = push_bit 0 1"
definition HW_CAP_DOUBLE_PLBI :: u64 where "HW_CAP_DOUBLE_PLBI = push_bit 1 1"
definition HW_CAP_KCMD_PLBI :: u64 where "HW_CAP_KCMD_PLBI = push_bit 2 1"

datatype ioctl_req = UMMU_IOCALLOC_TID | UMMU_IOCFREE_TID | UMMU_IOCPLBI_VA | UMMU_IOCPLBI_ALL

text \<open>The structures of \<^verbatim>\<open>src/ummu_queue.h\<close>.\<close>

record cmd_entry =
  ce_opcode :: u8
  ce_cqe_en :: "1 word"
  ce_range :: "6 word"
  ce_addr :: u64

record cpl_entry =
  cp_status :: "4 word"
  cp_cmdq_ci :: u16

record ctrl_pages =
  ct_ucmdq_pi :: u16
  ct_ucmdq_ci :: u16
  ct_ucplq_pi :: u16
  ct_ucplq_ci :: u16

text \<open>
  One hardware queue: the three addresses kept in \<^verbatim>\<open>struct ummu_mapt_queue_args\<close> and the
  contents of the mapped memory they point to.
\<close>

record queue_args =
  qa_cmd_entry :: u64
  qa_cpl_entry :: u64
  qa_ctrl_page :: u64
  qm_cmd :: "nat \<Rightarrow> cmd_entry"
  qm_cpl :: "nat \<Rightarrow> cpl_entry"
  qm_ctrl :: ctrl_pages

section \<open>The environment and the world\<close>

record os_env =
  os_malloc :: "nat \<Rightarrow> bool"
  os_mmap :: "nat \<Rightarrow> u64 \<Rightarrow> int \<Rightarrow> u64 \<Rightarrow> u64"
  os_ioctl :: "nat \<Rightarrow> ioctl_req \<Rightarrow> tid_info \<Rightarrow> int \<times> tid_info"
  os_open :: "nat \<Rightarrow> string \<Rightarrow> int"
  os_read_u32 :: "nat \<Rightarrow> int \<times> u32"
  os_errno :: "nat \<Rightarrow> int"
  os_getpagesize :: u64
  os_block_mem :: "nat \<Rightarrow> nat \<Rightarrow> table_node"
  os_entry_mem :: "nat \<Rightarrow> entry_node"
  os_queue_mem :: "nat \<Rightarrow> nat \<Rightarrow> (nat \<Rightarrow> cmd_entry) \<times> (nat \<Rightarrow> cpl_entry) \<times> ctrl_pages"
  os_device :: "nat \<Rightarrow> queue_args \<Rightarrow> u16 \<times> u16 \<times> (nat \<Rightarrow> cpl_entry)"

datatype sys_call =
    SysMmap u64 int u64 u64
  | SysMunmap u64 u64
  | SysIoctl ioctl_req tid_info int
  | SysUsleep nat
  | SysOpen string int
  | SysClose int

record world =
  clock :: nat
  errno :: int
  trace :: "sys_call list"

definition tick :: "world \<Rightarrow> world" where
  "tick w = w\<lparr>clock := Suc (clock w)\<rparr>"

definition log_call :: "sys_call \<Rightarrow> world \<Rightarrow> world" where
  "log_call c w = w\<lparr>trace := trace w @ [c]\<rparr>"

text \<open>
  \<^verbatim>\<open>malloc\<close> and \<^verbatim>\<open>calloc\<close> (only success matters: ownership of heap objects is part of the
  state records), \<^verbatim>\<open>mmap\<close> (\<open>0\<close> is NULL, \<open>-1\<close> is MAP_FAILED), \<^verbatim>\<open>munmap\<close>, \<^verbatim>\<open>ioctl\<close>,
  \<^verbatim>\<open>open\<close>, \<^verbatim>\<open>close\<close>, \<^verbatim>\<open>usleep\<close>.
\<close>

definition c_malloc :: "os_env \<Rightarrow> world \<Rightarrow> bool \<times> world" where
  "c_malloc E w = (os_malloc E (clock w), tick w)"

definition sys_mmap :: "os_env \<Rightarrow> u64 \<Rightarrow> int \<Rightarrow> u64 \<Rightarrow> world \<Rightarrow> u64 \<times> world" where
  "sys_mmap E sz fd off w =
     (let a = os_mmap E (clock w) sz fd off in (a, log_call (SysMmap sz fd off a) (tick w)))"

definition sys_munmap :: "u64 \<Rightarrow> u64 \<Rightarrow> world \<Rightarrow> world" where
  "sys_munmap a sz w = log_call (SysMunmap a sz) (tick w)"

definition sys_ioctl :: "os_env \<Rightarrow> ioctl_req \<Rightarrow> tid_info \<Rightarrow> world \<Rightarrow> (int \<times> tid_info) \<times> world" where
  "sys_ioctl E req info w =
     (let (ret, info') = os_ioctl E (clock w) req info
      in ((ret, info'), log_call (SysIoctl req info ret) (tick w)))"

definition sys_open :: "os_env \<Rightarrow> string \<Rightarrow> world \<Rightarrow> int \<times> world" where
  "sys_open E path w =
     (let fd = os_open E (clock w) path in (fd, log_call (SysOpen path fd) (tick w)))"

definition sys_close :: "int \<Rightarrow> world \<Rightarrow> world" where
  "sys_close fd w = log_call (SysClose fd) (tick w)"

definition sys_usleep :: "nat \<Rightarrow> world \<Rightarrow> world" where
  "sys_usleep n w = log_call (SysUsleep n) (tick w)"

text \<open>
  The device runs concurrently.  It owns the command consumer index, the completion producer
  index and the completion entries; every poll of the library may see new values of these
  and of nothing else.
\<close>

definition dev_poll :: "os_env \<Rightarrow> queue_args \<Rightarrow> world \<Rightarrow> queue_args \<times> world" where
  "dev_poll E q w =
     (let (ci, pi, cpl) = os_device E (clock w) q
      in (q\<lparr>qm_ctrl := (qm_ctrl q)\<lparr>ct_ucmdq_ci := ci, ct_ucplq_pi := pi\<rparr>, qm_cpl := cpl\<rparr>, tick w))"

text \<open>
  One well-behaved environment, used where a hypothesis on the environment is shown to be
  satisfiable: every call succeeds, fresh memory is zero, the device consumes what it finds.
\<close>

definition quiet_env :: os_env where
  "quiet_env = \<lparr>os_malloc = (\<lambda>_. True), os_mmap = (\<lambda>c _ _ _. push_bit 24 (of_nat (Suc c))),
     os_ioctl = (\<lambda>c req info. (0, if req = UMMU_IOCALLOC_TID
        then info\<lparr>tf_tid := 5, tf_ummu_cnt := 1, tf_blk_exp_size := 0x10000\<rparr> else info)),
     os_open = (\<lambda>_ _. 3), os_read_u32 = (\<lambda>_. (4, 77)), os_errno = (\<lambda>_. 0), os_getpagesize = 4096,
     os_block_mem = (\<lambda>_ _. zero_table_node), os_entry_mem = (\<lambda>_. zero_entry_node),
     os_queue_mem = (\<lambda>_ _. (\<lambda>_. \<lparr>ce_opcode = 0, ce_cqe_en = 0, ce_range = 0, ce_addr = 0\<rparr>,
        \<lambda>_. \<lparr>cp_status = 0, cp_cmdq_ci = 0\<rparr>,
        \<lparr>ct_ucmdq_pi = 0, ct_ucmdq_ci = 0, ct_ucplq_pi = 0, ct_ucplq_ci = 0\<rparr>)),
     os_device = (\<lambda>_ q. (ct_ucmdq_pi (qm_ctrl q), ct_ucplq_pi (qm_ctrl q), qm_cpl q))\<rparr>"

definition world0 :: world where
  "world0 = \<lparr>clock = 0, errno = 0, trace = []\<rparr>"

lemma log_call_simps [simp]:
  "clock (log_call c w) = clock w" "errno (log_call c w) = errno w"
  "trace (log_call c w) = trace w @ [c]"
  by (simp_all add: log_call_def)

lemma tick_simps [simp]:
  "clock (tick w) = Suc (clock w)" "errno (tick w) = errno w" "trace (tick w) = trace w"
  by (simp_all add: tick_def)

lemma sys_munmap_simps [simp]:
  "errno (sys_munmap a sz w) = errno w" "trace (sys_munmap a sz w) = trace w @ [SysMunmap a sz]"
  by (simp_all add: sys_munmap_def)

lemma dev_poll_fields:
  assumes "dev_poll E q w = (q', w')"
  shows "qm_cmd q' = qm_cmd q" "ct_ucmdq_pi (qm_ctrl q') = ct_ucmdq_pi (qm_ctrl q)"
    "ct_ucplq_ci (qm_ctrl q') = ct_ucplq_ci (qm_ctrl q)" "qa_cmd_entry q' = qa_cmd_entry q"
    "w' = tick w"
  using assms by (auto simp: dev_poll_def split: prod.splits)

end
