(* ===== verification/Ummu_Resource.thy ===== *)
theory Ummu_Resource
  imports Ummu_Os
begin

text \<open>
  \<^verbatim>\<open>src/ummu_resource.c\<close>: mapping and unmapping of the buffers that the driver hands out,
  allocation and release of a TID, the kernel-side invalidation command, and the offset
  encoding of \<^verbatim>\<open>src/kernel_headers/ummu_core.h\<close> that tells the driver which buffer is meant;
  also \<^verbatim>\<open>ummu_gen_random\<close> of \<^verbatim>\<open>src/ummu_common.c\<close>.
\<close>

section \<open>Definitions\<close>

definition BLOCK_SIZE_4K :: u64 where "BLOCK_SIZE_4K = 0x1000"
definition BLOCK_SIZE_16K :: u64 where "BLOCK_SIZE_16K = 0x4000"
definition BLOCK_SIZE_2M :: u64 where "BLOCK_SIZE_2M = 0x200000"

definition MMAP_TYPE_BLOCK :: u64 where "MMAP_TYPE_BLOCK = 1"
definition MMAP_TYPE_MUTIQ :: u64 where "MMAP_TYPE_MUTIQ = 2"

definition PLBI_ALL_OP :: u8 where "PLBI_ALL_OP = 0x10"
definition PLBI_VA_OP :: u8 where "PLBI_VA_OP = 0x11"

text \<open>\<^verbatim>\<open>__builtin_ctz\<close> on a non-zero argument: the index of the least significant set bit.\<close>

definition builtin_ctz :: "u64 \<Rightarrow> nat" where
  "builtin_ctz x = builtin_ffsl x - 1"

definition PAGE_SHIFT :: "os_env \<Rightarrow> nat" where
  "PAGE_SHIFT E =
     (if os_getpagesize E div 0x1000 > 0 then 12 + builtin_ctz (os_getpagesize E div 0x1000) else 12)"

definition UMMU_OFFSET_BLK :: "os_env \<Rightarrow> u64 \<Rightarrow> u32 \<Rightarrow> u64" where
  "UMMU_OFFSET_BLK E index tid =
     push_bit (PAGE_SHIFT E) MMAP_TYPE_BLOCK OR push_bit (PAGE_SHIFT E + 2) index OR
     push_bit (PAGE_SHIFT E + 2 + 10) (ucast tid)"

definition UMMU_OFFSET_QUE :: "os_env \<Rightarrow> u32 \<Rightarrow> u64" where
  "UMMU_OFFSET_QUE E tid =
     push_bit (PAGE_SHIFT E) MMAP_TYPE_MUTIQ OR push_bit (PAGE_SHIFT E + 2) (ucast tid)"

definition CORE_BUF_CHECK_INVALID :: "u64 \<Rightarrow> bool" where
  "CORE_BUF_CHECK_INVALID a \<longleftrightarrow> a = 0 \<or> a = -1"

datatype buf_mode = BASE_MODE_ENTRY_BLOCK | BASE_MODE_TABLE_BLOCK | BASE_MODE_QUEUE

definition ummu_get_core_buf ::
    "os_env \<Rightarrow> u32 \<Rightarrow> buf_mode \<Rightarrow> u64 \<Rightarrow> int \<Rightarrow> u64 \<Rightarrow> world \<Rightarrow> u64 \<times> world" where
  "ummu_get_core_buf E tid mode sz fd idx w =
     (if sz = 0 then (0, w)
      else case mode of
        BASE_MODE_ENTRY_BLOCK \<Rightarrow> sys_mmap E sz fd (UMMU_OFFSET_BLK E 0 tid) w
      | BASE_MODE_TABLE_BLOCK \<Rightarrow>
          if sz < BLOCK_SIZE_16K \<or> sz > BLOCK_SIZE_2M then (0, w)
          else sys_mmap E sz fd (UMMU_OFFSET_BLK E idx tid) w
      | BASE_MODE_QUEUE \<Rightarrow> sys_mmap E sz fd (UMMU_OFFSET_QUE E tid) w)"

definition ummu_free_core_buf :: "buf_mode \<Rightarrow> u64 \<Rightarrow> u64 \<Rightarrow> world \<Rightarrow> world" where
  "ummu_free_core_buf mode buf sz w =
     (case mode of
        BASE_MODE_ENTRY_BLOCK \<Rightarrow> sys_munmap buf BLOCK_SIZE_4K w
      | BASE_MODE_TABLE_BLOCK \<Rightarrow> sys_munmap buf sz w
      | BASE_MODE_QUEUE \<Rightarrow> sys_munmap buf sz w)"

definition ummu_get_tid :: "os_env \<Rightarrow> int \<Rightarrow> tid_info \<Rightarrow> world \<Rightarrow> (int \<times> tid_info) \<times> world" where
  "ummu_get_tid E fd info w =
     (if fd < 0 then ((- ENOENT, info), w)
      else sys_ioctl E UMMU_IOCALLOC_TID (info\<lparr>tf_dev := -1\<rparr>) w)"

definition ummu_put_tid :: "os_env \<Rightarrow> int \<Rightarrow> u32 \<Rightarrow> world \<Rightarrow> world" where
  "ummu_put_tid E fd tid w =
     (if fd < 0 then w else snd (sys_ioctl E UMMU_IOCFREE_TID (zero_tid_info\<lparr>tf_tid := tid\<rparr>) w))"

definition ummu_kcmd_plbi :: "os_env \<Rightarrow> int \<Rightarrow> tid_info \<Rightarrow> u8 \<Rightarrow> world \<Rightarrow> world" where
  "ummu_kcmd_plbi E fd info opcode w =
     (if fd < 0 then w
      else if opcode = PLBI_VA_OP then snd (sys_ioctl E UMMU_IOCPLBI_VA info w)
      else if opcode = PLBI_ALL_OP then snd (sys_ioctl E UMMU_IOCPLBI_ALL info w)
      else w)"

definition UMMU_URANDOM_DEV :: string where "UMMU_URANDOM_DEV = ''/dev/urandom''"

definition ummu_gen_random :: "os_env \<Rightarrow> u32 \<Rightarrow> world \<Rightarrow> (int \<times> u32) \<times> world" where
  "ummu_gen_random E old w =
     (let (fd, w1) = sys_open E UMMU_URANDOM_DEV w in
      if fd < 0 then ((- os_errno E (clock w1), old), w1)
      else
        let (n, v) = os_read_u32 E (clock w1);
            e = os_errno E (clock w1);
            w2 = sys_close fd (tick w1)
        in if n \<noteq> 4 then ((- e, old), w2) else ((0, v), w2))"

section \<open>The offset encoding\<close>

lemma bit_OFFSET_BLK:
  "bit (UMMU_OFFSET_BLK E index tid) j \<longleftrightarrow> j < 64 \<and>
     (j = PAGE_SHIFT E \<or> PAGE_SHIFT E + 2 \<le> j \<and> bit index (j - (PAGE_SHIFT E + 2)) \<or>
      PAGE_SHIFT E + 12 \<le> j \<and> bit tid (j - (PAGE_SHIFT E + 12)))"
  by (simp only: UMMU_OFFSET_BLK_def MMAP_TYPE_BLOCK_def bit_or_iff bit_push_bit_iff
      bit_ucast_iff possible_bit_word bit_1_iff add.assoc) (auto dest: bit_imp_le_length)

lemma bit_two: "bit (2 :: u64) n \<longleftrightarrow> n = 1"
  using bit_exp_iff [where 'a = u64, of 1 n] by auto

lemma bit_two_int: "bit (2 :: int) n \<longleftrightarrow> n = 1"
  using bit_exp_iff [where 'a = int, of 1 n] by auto

lemma bit_OFFSET_QUE:
  "bit (UMMU_OFFSET_QUE E tid) j \<longleftrightarrow> j < 64 \<and>
     (j = Suc (PAGE_SHIFT E) \<or> PAGE_SHIFT E + 2 \<le> j \<and> bit tid (j - (PAGE_SHIFT E + 2)))"
  by (simp only: UMMU_OFFSET_QUE_def MMAP_TYPE_MUTIQ_def bit_or_iff bit_push_bit_iff
      bit_ucast_iff possible_bit_word bit_two) (auto dest: bit_imp_le_length)

lemma OFFSET_BLK_fields:
  assumes "PAGE_SHIFT E \<le> 20" "unat index < 1024" and off: "off = UMMU_OFFSET_BLK E index tid"
  shows "drop_bit (PAGE_SHIFT E) off AND mask 2 = MMAP_TYPE_BLOCK"
    "drop_bit (PAGE_SHIFT E + 2) off AND mask 10 = index"
    "drop_bit (PAGE_SHIFT E + 12) off = ucast tid"
proof -
  have idx: "bit index j \<Longrightarrow> j < 10" for j using bit_less_exp [of index 10] assms(2) by simp
  have tid: "bit tid j \<Longrightarrow> j < 32" for j using bit_imp_le_length by fastforce
  note b = bit_OFFSET_BLK [of E index tid, folded off]
  show "drop_bit (PAGE_SHIFT E) off AND mask 2 = MMAP_TYPE_BLOCK"
    using assms(1) by (intro bit_word_eqI)
      (auto simp: b MMAP_TYPE_BLOCK_def bit_and_iff bit_drop_bit_eq bit_mask_iff bit_1_iff)
  show "drop_bit (PAGE_SHIFT E + 2) off AND mask 10 = index"
    using assms(1) by (intro bit_word_eqI)
      (auto simp: b bit_and_iff bit_drop_bit_eq bit_mask_iff dest: idx)
  show "drop_bit (PAGE_SHIFT E + 12) off = ucast tid"
    using assms(1) by (intro bit_word_eqI)
      (auto simp: b bit_drop_bit_eq bit_ucast_iff dest: idx tid)
qed

lemma OFFSET_QUE_type:
  assumes "PAGE_SHIFT E \<le> 20" and off: "off = UMMU_OFFSET_QUE E tid"
  shows "drop_bit (PAGE_SHIFT E) off AND mask 2 = MMAP_TYPE_MUTIQ"
proof -
  note b = bit_OFFSET_QUE [of E tid, folded off]
  show ?thesis
    using assms(1) by (intro bit_word_eqI)
      (auto simp: b MMAP_TYPE_MUTIQ_def bit_two_int bit_and_iff bit_drop_bit_eq bit_mask_iff)
qed

section \<open>Properties\<close>

text \<open>Driver offsets identify what they map: the offset of a table block determines the block
  index (up to the 512 blocks of a TID) and the TID, and no block offset is a queue offset, so
  two mappings of the library never name the same driver object.\<close>

theorem core_offsets_distinct:
  assumes "PAGE_SHIFT E \<le> 20" "unat i < 512" "unat j < 512"
  shows "(UMMU_OFFSET_BLK E i t = UMMU_OFFSET_BLK E j u \<longleftrightarrow> i = j \<and> t = u) \<and>
    UMMU_OFFSET_BLK E i t \<noteq> UMMU_OFFSET_QUE E u"
proof -
  have lt: "unat i < 1024" "unat j < 1024" using assms(2,3) by auto
  note f = OFFSET_BLK_fields [OF assms(1) lt(1) refl, of t] OFFSET_BLK_fields [OF assms(1) lt(2) refl, of u]
  have "i = j \<and> t = u" if "UMMU_OFFSET_BLK E i t = UMMU_OFFSET_BLK E j u"
  proof -
    have "i = j" "(ucast t :: u64) = ucast u" using f that by metis+
    moreover have "unat (ucast x :: u64) = unat x" for x :: u32
      using unsigned_less [of x, where 'a = nat] by (simp only: unat_ucast_mod) simp
    ultimately show ?thesis by (metis word_unat_eq_iff)
  qed
  moreover have "UMMU_OFFSET_BLK E i t \<noteq> UMMU_OFFSET_QUE E u"
    using f(1) OFFSET_QUE_type [OF assms(1) refl, of u]
    by (auto simp: MMAP_TYPE_BLOCK_def MMAP_TYPE_MUTIQ_def)
  ultimately show ?thesis by blast
qed

theorem core_offsets_distinct_witness:
  "PAGE_SHIFT quiet_env \<le> 20 \<and> UMMU_OFFSET_BLK quiet_env 3 5 \<noteq> UMMU_OFFSET_BLK quiet_env 4 5 \<and>
   UMMU_OFFSET_BLK quiet_env 3 5 \<noteq> UMMU_OFFSET_QUE quiet_env 5"
proof -
  have p: "PAGE_SHIFT quiet_env \<le> 20" by code_simp
  then show ?thesis using core_offsets_distinct [OF p, of 3 4 5 5] by simp
qed

end
