(* ===== verification/Ummu_NodeOps.thy ===== *)
theory Ummu_NodeOps
  imports Ummu_Resource
begin

text \<open>
  The functions of \<^verbatim>\<open>src/ummu_mapt.c\<close> that work on one node or on one request: parameter
  checks, request preparation, filling a node, and the token functions.  The contract of a
  two-slot token store is the locale \<open>token_slots\<close>; it is shared by the entry node, by the
  table node seen through the entry-node cast, and (in \<open>Ummu_SegMng\<close>) by the software copy
  of a segment.
\<close>

section \<open>Parameter checks\<close>

definition ummu_check_mode :: "u32 \<Rightarrow> int" where
  "ummu_check_mode mode = (if mode \<ge> MAPT_MODE_END \<or> mode < MAPT_MODE_TABLE then - EINVAL else 0)"

definition ummu_check_ebit :: "u32 \<Rightarrow> int" where
  "ummu_check_ebit e_bit = (if e_bit \<ge> UMMU_EBIT_END \<or> e_bit < UMMU_EBIT_OFF then - EINVAL else 0)"

text \<open>\<open>tid_null\<close> says whether the caller's \<^verbatim>\<open>tid\<close> pointer is NULL.\<close>

definition ummu_check_input_param :: "u32 \<Rightarrow> bool \<Rightarrow> int" where
  "ummu_check_input_param mode tid_null =
     (let ret = ummu_check_mode mode in
      if ret \<noteq> 0 then ret else if tid_null then - EINVAL else 0)"

definition ummu_check_perm :: "u32 \<Rightarrow> int" where
  "ummu_check_perm perm =
     (if perm = MAPT_PERM_R then 0 else if perm = MAPT_PERM_W then 0
      else if perm = MAPT_PERM_RW then 0 else if perm = MAPT_PERM_ATOMIC_R then 0
      else if perm = MAPT_PERM_ATOMIC_W then 0 else if perm = MAPT_PERM_ATOMIC_RW then 0
      else - EINVAL)"

definition ummu_check_data :: "data_info \<Rightarrow> u32 \<Rightarrow> int" where
  "ummu_check_data di mode =
     (if di_data_size di = 0 then - EINVAL
      else if drop_bit MAX_ADDRESS_BITS (di_data di) \<noteq> 0 \<or>
        drop_bit MAX_ADDRESS_BITS (di_data_size di - 1) \<noteq> 0 \<or>
        drop_bit MAX_ADDRESS_BITS (di_data di + di_data_size di - 1) \<noteq> 0 then - EINVAL
      else if mode = MAPT_MODE_TABLE \<and> \<not> ALIGN_VPAGE_SHIFT_CHECK (di_data di) then - EINVAL
      else if ummu_check_perm (di_perm di) \<noteq> 0 \<or> ummu_check_ebit (di_e_bit di) \<noteq> 0 then - EINVAL
      else 0)"

section \<open>Preparing a request\<close>

text \<open>
  \<^verbatim>\<open>ummu_get_token\<close> returns the code, the caller's token structure (whose \<^verbatim>\<open>tokenVal\<close> is
  written when the library generates the value) and \<^verbatim>\<open>*value\<close>.
\<close>

definition ummu_get_token ::
    "os_env \<Rightarrow> token_info \<Rightarrow> u32 \<Rightarrow> world \<Rightarrow> (int \<times> token_info \<times> u32) \<times> world" where
  "ummu_get_token E token value w =
     (if ti_input token = 0 then ((0, token, ti_tokenVal token), w)
      else if ti_input token = 1 then
        let ((ret, v), w1) = ummu_gen_random E value w in
        if ret \<noteq> 0 then ((- EINVAL, token, v), w1)
        else ((0, token\<lparr>ti_tokenVal := v\<rparr>, v), w1)
      else ((- EINVAL, token, value), w))"

definition ummu_perm_data_preproc ::
    "os_env \<Rightarrow> data_info \<Rightarrow> world \<Rightarrow> (int \<times> data_info) \<times> world" where
  "ummu_perm_data_preproc E di w =
     (let set_range = (\<lambda>d. d\<lparr>di_data_base := di_data d,
                             di_data_limit := di_data d + di_data_size d - 1\<rparr>)
      in case di_token di of
           None \<Rightarrow> ((0, set_range (di\<lparr>di_token_check := 0\<rparr>)), w)
         | Some tok \<Rightarrow>
             let ((ret, tok', v), w1) = ummu_get_token E tok (di_tokenval di) w;
                 di1 = di\<lparr>di_token_check := 1, di_token := Some tok', di_tokenval := v\<rparr>
             in if ret \<noteq> 0 then ((ret, di1), w1) else ((0, set_range di1), w1))"

section \<open>Tokens of a node\<close>

definition ummu_add_token :: "entry_node \<Rightarrow> data_info \<Rightarrow> int \<times> entry_node" where
  "ummu_add_token node di =
     (if en_valid node = 1 \<and> en_nonce node = 1
      then (0, node\<lparr>en_token_val_1 := di_tokenval di, en_nonce := of_nat UMMU_MAX_TOKEN_NUM\<rparr>)
      else (- EINVAL, node))"

definition ummu_remove_token :: "entry_node \<Rightarrow> data_info \<Rightarrow> int \<times> entry_node" where
  "ummu_remove_token node di =
     (if en_token_val_0 node = di_tokenval di
      then (0, node\<lparr>en_token_val_0 := en_token_val_1 node, en_nonce := 1\<rparr>)
      else if en_token_val_1 node = di_tokenval di
      then (0, node\<lparr>en_token_val_1 := en_token_val_0 node, en_nonce := 1\<rparr>)
      else (- EINVAL, node))"

definition ummu_update_token :: "entry_node \<Rightarrow> data_info \<Rightarrow> int \<times> entry_node" where
  "ummu_update_token node di =
     (case di_op di of
        UMMU_ADD_TOKEN \<Rightarrow> ummu_add_token node di
      | UMMU_REMOVE_TOKEN \<Rightarrow> ummu_remove_token node di
      | _ \<Rightarrow> (- EINVAL, node))"

text \<open>The call \<^verbatim>\<open>ummu_update_token((void *)cur_node, data_info)\<close> on a table node.\<close>

definition cast_update_token :: "table_node \<Rightarrow> data_info \<Rightarrow> int \<times> table_node" where
  "cast_update_token node di =
     (let (ret, e) = ummu_update_token (entry_view node) di in (ret, table_view e))"

section \<open>Filling a node\<close>

definition ummu_entry_fill_node :: "entry_node \<Rightarrow> data_info \<Rightarrow> entry_node" where
  "ummu_entry_fill_node node di =
     (let n1 = node\<lparr>en_permission := ucast (di_perm di),
                en_base_low := ENTRY_ADDR_LOW (di_data_base di),
                en_base_high := ucast (ENTRY_ADDR_HIGH (di_data_base di)),
                en_limit_low := ENTRY_ADDR_LOW (di_data_limit di),
                en_limit_high := ucast (ENTRY_ADDR_HIGH (di_data_limit di)),
                en_token_check := ucast (di_token_check di),
                en_e_bit := ucast (di_e_bit di)\<rparr>;
          n2 = (if di_token_check di = 1
                then n1\<lparr>en_token_val_0 := di_tokenval di, en_token_val_1 := di_tokenval di,
                        en_nonce := 1\<rparr>
                else n1)
      in n2\<lparr>en_valid := 1\<rparr>)"

definition ummu_table_fill_node :: "table_node \<Rightarrow> u64 \<Rightarrow> u64 \<Rightarrow> data_info \<Rightarrow> table_node" where
  "ummu_table_fill_node node base limit di =
     (let n1 = node\<lparr>tn_type := 1,
                tn_permission := ucast (di_perm di),
                tn_base_low := TABLE_ADDR_LOW base,
                tn_base_high := ucast (TABLE_ADDR_HIGH base),
                tn_limit_low := TABLE_ADDR_LOW limit,
                tn_limit_high := ucast (TABLE_ADDR_HIGH limit),
                tn_token_check := ucast (di_token_check di),
                tn_e_bit := ucast (di_e_bit di)\<rparr>;
          n2 = (if di_token_check di = 1
                then n1\<lparr>tn_token_val_0 := di_tokenval di, tn_token_val_1 := di_tokenval di,
                        tn_nonce := 1\<rparr>
                else n1)
      in n2\<lparr>tn_valid := 1\<rparr>)"

text \<open>\<^verbatim>\<open>ummu_swap_node_info\<close> reads \<^verbatim>\<open>g_mapt_range_bits[level + 1]\<close>: undefined at level 3.\<close>

definition ummu_swap_node_info ::
    "table_node \<Rightarrow> table_node \<Rightarrow> nat \<Rightarrow> nat \<Rightarrow> table_node option" where
  "ummu_swap_node_info node next_node idx level = do {
     (_, sh) \<leftarrow> arr_rd g_mapt_range_bits (level + 1);
     let limit = tn_limit next_node OR push_bit sh (of_nat idx);
     let base = tn_base next_node OR push_bit sh (of_nat idx);
     Some (node\<lparr>tn_base_low := TABLE_ADDR_LOW base,
                tn_base_high := ucast (TABLE_ADDR_HIGH base),
                tn_limit_low := TABLE_ADDR_LOW limit,
                tn_limit_high := ucast (TABLE_ADDR_HIGH limit),
                tn_nonce := tn_nonce next_node,
                tn_token_val_0 := tn_token_val_0 next_node,
                tn_token_val_1 := tn_token_val_1 next_node,
                tn_permission := tn_permission next_node,
                tn_e_bit := tn_e_bit next_node,
                tn_token_check := tn_token_check next_node\<rparr>)
   }"

section \<open>The contract of a two-slot token store\<close>

locale token_slots =
  fixes slots :: "'n \<Rightarrow> u32 \<times> u32"
    and cnt :: "'n \<Rightarrow> nat"
    and live :: "'n \<Rightarrow> bool"
    and add :: "'n \<Rightarrow> data_info \<Rightarrow> int \<times> 'n"
    and remove :: "'n \<Rightarrow> data_info \<Rightarrow> int \<times> 'n"
  assumes add_law: "live n \<Longrightarrow> cnt n = 1 \<Longrightarrow>
      \<exists>m. add n d = (0, m) \<and> slots m = (fst (slots n), di_tokenval d) \<and> cnt m = 2 \<and> live m"
    and remove_law: "live n \<Longrightarrow> di_tokenval d \<in> {fst (slots n), snd (slots n)} \<Longrightarrow>
      \<exists>m. remove n d = (0, m) \<and> cnt m = 1 \<and> live m \<and>
        (let k = (if fst (slots n) = di_tokenval d then snd (slots n) else fst (slots n))
         in slots m = (k, k))"
begin

definition tokens :: "'n \<Rightarrow> u32 set" where
  "tokens n = {fst (slots n), snd (slots n)}"

text \<open>One token is stored in both slots; two tokens fill them.\<close>

definition token_inv :: "'n \<Rightarrow> bool" where
  "token_inv n \<longleftrightarrow> live n \<and> (cnt n = 1 \<and> fst (slots n) = snd (slots n) \<or> cnt n = 2)"

lemma add_tokens:
  assumes "token_inv n" "cnt n = 1" "add n d = (r, m)"
  shows "r = 0" "token_inv m" "cnt m = 2" "tokens m = insert (di_tokenval d) (tokens n)"
  using assms add_law [of n d] by (auto simp: token_inv_def tokens_def)

lemma remove_tokens:
  assumes "token_inv n" "di_tokenval d \<in> tokens n" "remove n d = (r, m)"
  shows "r = 0" "token_inv m" "cnt m = 1"
    "fst (slots n) \<noteq> snd (slots n) \<Longrightarrow> tokens m = tokens n - {di_tokenval d}"
    "fst (slots n) = snd (slots n) \<Longrightarrow> tokens m = tokens n"
  using assms remove_law [of n d] by (auto simp: token_inv_def tokens_def Let_def split: if_splits)

text \<open>Adding a fresh token and removing it again restores the set of tokens.\<close>

lemma add_remove_roundtrip:
  assumes inv: "token_inv n" "cnt n = 1" and add: "add n d = (r, m)"
    and fresh: "di_tokenval d \<notin> tokens n" and rem: "remove m d = (r', n')"
  shows "r' = 0" "tokens n' = tokens n" "cnt n' = 1" "token_inv n'"
proof -
  note a = add_tokens [OF inv add]
  have s: "slots m = (fst (slots n), di_tokenval d)"
    using add_law [of n d] inv add by (auto simp: token_inv_def)
  have t: "di_tokenval d \<in> tokens m" using a(4) by simp
  note b = remove_tokens [OF a(2) t rem]
  have "fst (slots m) \<noteq> snd (slots m)" using s fresh by (auto simp: tokens_def)
  then show "tokens n' = tokens n" using b(4) a(4) fresh by simp
  show "r' = 0" "cnt n' = 1" "token_inv n'" by (rule b)+
qed

end

interpretation entry_tok: token_slots
  "\<lambda>n. (en_token_val_0 n, en_token_val_1 n)" "\<lambda>n. unat (en_nonce n)" "\<lambda>n. en_valid n = 1"
  ummu_add_token ummu_remove_token
proof
  fix n :: entry_node and d :: data_info
  assume "en_valid n = 1" "unat (en_nonce n) = 1"
  then have "en_nonce n = 1" by (simp add: word_unat_eq_iff)
  then show "\<exists>m. ummu_add_token n d = (0, m) \<and> (en_token_val_0 m, en_token_val_1 m) =
      (fst (en_token_val_0 n, en_token_val_1 n), di_tokenval d) \<and> unat (en_nonce m) = 2 \<and> en_valid m = 1"
    using \<open>en_valid n = 1\<close> by (simp add: ummu_add_token_def UMMU_MAX_TOKEN_NUM_def)
qed (auto simp: ummu_remove_token_def Let_def)

section \<open>The cast\<close>

lemma cast_update_token_eq:
  "cast_update_token n d =
     (case di_op d of
        UMMU_ADD_TOKEN \<Rightarrow>
          if tn_valid n = 1 \<and> tn_nonce n = 1
          then (0, n\<lparr>tn_token_val_1 := di_tokenval d, tn_nonce := 2\<rparr>) else (- EINVAL, n)
      | UMMU_REMOVE_TOKEN \<Rightarrow>
          if tn_token_val_0 n = di_tokenval d
          then (0, n\<lparr>tn_token_val_0 := tn_token_val_1 n, tn_nonce := 1\<rparr>)
          else if tn_token_val_1 n = di_tokenval d
          then (0, n\<lparr>tn_token_val_1 := tn_token_val_0 n, tn_nonce := 1\<rparr>) else (- EINVAL, n)
      | _ \<Rightarrow> (- EINVAL, n))"
  by (simp add: cast_update_token_def ummu_update_token_def ummu_add_token_def
      ummu_remove_token_def UMMU_MAX_TOKEN_NUM_def split: grant_op.split)

interpretation table_tok: token_slots
  "\<lambda>n. (tn_token_val_0 n, tn_token_val_1 n)" "\<lambda>n. unat (tn_nonce n)" "\<lambda>n. tn_valid n = 1"
  "\<lambda>n d. cast_update_token n (d\<lparr>di_op := UMMU_ADD_TOKEN\<rparr>)"
  "\<lambda>n d. cast_update_token n (d\<lparr>di_op := UMMU_REMOVE_TOKEN\<rparr>)"
proof
  fix n :: table_node and d :: data_info
  assume "tn_valid n = 1" "unat (tn_nonce n) = 1"
  then have "tn_nonce n = 1" by (simp add: word_unat_eq_iff)
  then show "\<exists>m. cast_update_token n (d\<lparr>di_op := UMMU_ADD_TOKEN\<rparr>) = (0, m) \<and>
      (tn_token_val_0 m, tn_token_val_1 m) =
      (fst (tn_token_val_0 n, tn_token_val_1 n), di_tokenval d) \<and> unat (tn_nonce m) = 2 \<and> tn_valid m = 1"
    using \<open>tn_valid n = 1\<close> by (simp add: cast_update_token_eq)
qed (auto simp: cast_update_token_eq Let_def)

section \<open>What the checks accept and what a filled node holds\<close>

lemma drop_bit_eq_0_iff: "drop_bit n w = 0 \<longleftrightarrow> unat w < 2 ^ n" for w :: "'a::len word"
proof -
  have "drop_bit n w = 0 \<longleftrightarrow> unat w div 2 ^ n = 0"
    by (simp only: word_unat_eq_iff unat_drop_bit) simp
  then show ?thesis by (simp add: div_eq_0_iff)
qed

lemma check_mode_ok: "ummu_check_mode m = 0 \<longleftrightarrow> m = MAPT_MODE_TABLE \<or> m = MAPT_MODE_ENTRY"
proof -
  have "\<not> (2 \<le> m) \<longleftrightarrow> m = 0 \<or> m = 1"
    by (auto simp: word_le_nat_alt word_unat_eq_iff)
  then show ?thesis by (auto simp: ummu_check_mode_def ummu_consts errno_defs)
qed

lemma check_ebit_ok: "ummu_check_ebit e = 0 \<longleftrightarrow> e = UMMU_EBIT_OFF \<or> e = UMMU_EBIT_ON"
proof -
  have "\<not> (2 \<le> e) \<longleftrightarrow> e = 0 \<or> e = 1"
    by (auto simp: word_le_nat_alt word_unat_eq_iff)
  then show ?thesis by (auto simp: ummu_check_ebit_def ummu_consts errno_defs)
qed

definition valid_perms :: "u32 set" where
  "valid_perms = {MAPT_PERM_W, MAPT_PERM_R, MAPT_PERM_RW, MAPT_PERM_ATOMIC_W,
     MAPT_PERM_ATOMIC_R, MAPT_PERM_ATOMIC_RW}"

lemma check_perm_ok: "ummu_check_perm p = 0 \<longleftrightarrow> p \<in> valid_perms"
  by (auto simp: ummu_check_perm_def valid_perms_def errno_defs)

lemma last_byte_in_range:
  fixes a n :: u64
  assumes "0 < unat n" "unat a < 2 ^ 48" "unat n \<le> 2 ^ 48"
  shows "unat (a + n - 1) = unat a + unat n - 1"
proof -
  have "unat (a + n) = unat a + unat n"
    using assms by (intro unat_plus_no_wrap) simp
  moreover have "a + n \<noteq> 0" using calculation assms(1) by (metis add_gr_0 unat_0 less_numeral_extra(3))
  ultimately show ?thesis by (simp add: unat_minus_one)
qed

lemma check_data_ok:
  "ummu_check_data d mode = 0 \<longleftrightarrow>
     0 < unat (di_data_size d) \<and> unat (di_data d) + unat (di_data_size d) \<le> 2 ^ 48 \<and>
     (mode = MAPT_MODE_TABLE \<longrightarrow> unat (di_data d) mod 4096 = 0) \<and>
     di_perm d \<in> valid_perms \<and> di_e_bit d \<in> {UMMU_EBIT_OFF, UMMU_EBIT_ON}"
proof (cases "di_data_size d = 0")
  case True
  then show ?thesis by (simp add: ummu_check_data_def errno_defs)
next
  case False
  then have pos: "0 < unat (di_data_size d)" by (simp add: unat_gt_0)
  have m1: "unat (di_data_size d - 1) = unat (di_data_size d) - 1"
    using False by (simp add: unat_minus_one)
  have "drop_bit MAX_ADDRESS_BITS (di_data d) = 0 \<and> drop_bit MAX_ADDRESS_BITS (di_data_size d - 1) = 0 \<and>
      drop_bit MAX_ADDRESS_BITS (di_data d + di_data_size d - 1) = 0 \<longleftrightarrow>
      unat (di_data d) + unat (di_data_size d) \<le> 2 ^ 48" (is "?l = ?r")
  proof
    assume l: ?l
    then have "unat (di_data d) < 2 ^ 48" "unat (di_data_size d) \<le> 2 ^ 48"
      "unat (di_data d + di_data_size d - 1) < 2 ^ 48"
      using pos m1 by (simp_all only: drop_bit_eq_0_iff MAX_ADDRESS_BITS_def) auto
    with pos last_byte_in_range [of "di_data_size d" "di_data d"] show ?r by simp
  next
    assume r: ?r
    with pos have "unat (di_data d) < 2 ^ 48" "unat (di_data_size d) \<le> 2 ^ 48" by auto
    with r pos last_byte_in_range [of "di_data_size d" "di_data d"] show ?l
      by (simp only: drop_bit_eq_0_iff MAX_ADDRESS_BITS_def m1) auto
  qed
  then show ?thesis using False pos
    by (auto simp: ummu_check_data_def ALIGN_VPAGE_iff check_perm_ok check_ebit_ok errno_defs)
qed

lemma entry_fill_fields:
  assumes "n = ummu_entry_fill_node n0 d" "unat (di_data_base d) < 2 ^ 48" "unat (di_data_limit d) < 2 ^ 48"
  shows "en_valid n = 1" "en_base n = di_data_base d" "en_limit n = di_data_limit d"
    "en_permission n = ucast (di_perm d)" "en_e_bit n = ucast (di_e_bit d)"
    "en_token_check n = ucast (di_token_check d)"
    "di_token_check d = 1 \<Longrightarrow>
       en_token_val_0 n = di_tokenval d \<and> en_token_val_1 n = di_tokenval d \<and> en_nonce n = 1"
    "di_token_check d \<noteq> 1 \<Longrightarrow> en_nonce n = en_nonce n0"
  using assms(2,3) by (simp_all add: assms(1) ummu_entry_fill_node_def Let_def en_base_def
      en_limit_def entry_addr_full and_mask_id)

lemma table_fill_fields:
  assumes "n = ummu_table_fill_node n0 base limit d" "unat base < 2 ^ 39" "unat limit < 2 ^ 39"
  shows "tn_valid n = 1" "tn_type n = 1" "tn_base n = base" "tn_limit n = limit"
    "tn_permission n = ucast (di_perm d)" "tn_e_bit n = ucast (di_e_bit d)"
    "tn_token_check n = ucast (di_token_check d)"
    "di_token_check d = 1 \<Longrightarrow>
       tn_token_val_0 n = di_tokenval d \<and> tn_token_val_1 n = di_tokenval d \<and> tn_nonce n = 1"
  using assms(2,3) by (simp_all add: assms(1) ummu_table_fill_node_def Let_def tn_base_def
      tn_limit_def table_addr_full and_mask_id)

text \<open>A request used by the witnesses: two pages with a token.\<close>

definition sample_request :: data_info where
  "sample_request = \<lparr>di_data = 0x7000, di_data_size = 0x2000, di_perm = MAPT_PERM_RW,
     di_token = Some \<lparr>ti_input = 0, ti_tokenVal = 9\<rparr>, di_tokenval = 9, di_data_base = 0x7000,
     di_data_limit = 0x8FFF, di_token_check = 1, di_bytoken = False, di_e_bit = UMMU_EBIT_ON,
     di_op = UMMU_GRANT, di_lvl = 0\<rparr>"

section \<open>Properties\<close>

text \<open>C30: \<^verbatim>\<open>ummu_check_data\<close> accepts exactly the non-empty ranges that end at or below \<open>2 ^ 48\<close>,
  start on a 4K page in table mode, and carry one of the six permissions and a known e-bit
  state; its three shift tests are not fooled by 64-bit wrap-around.  A checked request is
  prepared with \<^verbatim>\<open>data_limit\<close> the address of its last byte, whatever the token.\<close>

theorem checked_request_range:
  "(ummu_check_data d mode = 0 \<longleftrightarrow>
     0 < unat (di_data_size d) \<and> unat (di_data d) + unat (di_data_size d) \<le> 2 ^ 48 \<and>
     (mode = MAPT_MODE_TABLE \<longrightarrow> unat (di_data d) mod 4096 = 0) \<and>
     di_perm d \<in> valid_perms \<and> di_e_bit d \<in> {UMMU_EBIT_OFF, UMMU_EBIT_ON}) \<and>
   (ummu_check_data d mode = 0 \<longrightarrow> ummu_perm_data_preproc E d w = ((0, d'), w') \<longrightarrow>
     di_data_base d' = di_data d \<and> unat (di_data_limit d') + 1 = unat (di_data d) + unat (di_data_size d) \<and>
     di_token_check d' = (if di_token d = None then 0 else 1))"
proof (intro conjI impI)
  assume c: "ummu_check_data d mode = 0" and p: "ummu_perm_data_preproc E d w = ((0, d'), w')"
  have b: "0 < unat (di_data_size d)" "unat (di_data d) + unat (di_data_size d) \<le> 2 ^ 48"
    using c unfolding check_data_ok by auto
  from p have f: "di_data_base d' = di_data d" "di_data_limit d' = di_data d + di_data_size d - 1"
      "di_token_check d' = (if di_token d = None then 0 else 1)"
    by (auto simp: ummu_perm_data_preproc_def Let_def split: option.splits prod.splits if_splits)
  then show "di_data_base d' = di_data d" "di_token_check d' = (if di_token d = None then 0 else 1)" by auto
  show "unat (di_data_limit d') + 1 = unat (di_data d) + unat (di_data_size d)"
    using b last_byte_in_range [of "di_data_size d" "di_data d"] by (simp add: f)
qed (rule check_data_ok)

theorem checked_request_range_witness:
  "ummu_check_data sample_request MAPT_MODE_TABLE = 0 \<and>
   unat (di_data_limit (snd (fst (ummu_perm_data_preproc quiet_env sample_request world0)))) + 1 = 0x9000"
proof -
  have c: "ummu_check_data sample_request MAPT_MODE_TABLE = 0" by code_simp
  obtain d' w' where p: "ummu_perm_data_preproc quiet_env sample_request world0 = ((0, d'), w')"
    by (simp add: sample_request_def ummu_perm_data_preproc_def ummu_get_token_def)
  have "unat (di_data_limit d') + 1 = unat (di_data sample_request) + unat (di_data_size sample_request)"
    using checked_request_range [of sample_request MAPT_MODE_TABLE quiet_env world0 d' w'] c p by blast
  then show ?thesis using c p by (simp add: sample_request_def)
qed

text \<open>C31: \<^verbatim>\<open>ummu_update_token\<close> is written for entry nodes and is called on table nodes through a
  pointer cast.  The layouts agree where it matters: on a table node the call returns what it
  returns on an entry node with the same valid bit, count and tokens, makes the same change to
  the tokens and the count, and touches no other field.\<close>

theorem token_update_through_cast:
  assumes "en_valid e = tn_valid n" "en_nonce e = tn_nonce n"
    "en_token_val_0 e = tn_token_val_0 n" "en_token_val_1 e = tn_token_val_1 n"
  shows "cast_update_token n d = (let (r, e') = ummu_update_token e d in
    (r, n\<lparr>tn_token_val_0 := en_token_val_0 e', tn_token_val_1 := en_token_val_1 e',
          tn_nonce := en_nonce e'\<rparr>))"
  using assms by (cases "di_op d") (simp_all add: ummu_update_token_def cast_update_token_eq
      ummu_add_token_def ummu_remove_token_def UMMU_MAX_TOKEN_NUM_def)

theorem token_update_through_cast_witness:
  "cast_update_token (zero_table_node\<lparr>tn_valid := 1, tn_nonce := 1, tn_token_val_0 := 4, tn_token_val_1 := 4\<rparr>)
     (sample_request\<lparr>di_op := UMMU_ADD_TOKEN\<rparr>) =
   (0, zero_table_node\<lparr>tn_valid := 1, tn_token_val_0 := 4, tn_token_val_1 := 9, tn_nonce := 2\<rparr>)"
proof -
  let ?n = "zero_table_node\<lparr>tn_valid := 1, tn_nonce := 1, tn_token_val_0 := 4, tn_token_val_1 := 4\<rparr>"
  let ?e = "zero_entry_node\<lparr>en_valid := 1, en_nonce := 1, en_token_val_0 := 4, en_token_val_1 := 4\<rparr>"
  have "ummu_update_token ?e (sample_request\<lparr>di_op := UMMU_ADD_TOKEN\<rparr>) =
      (0, ?e\<lparr>en_token_val_1 := 9, en_nonce := 2\<rparr>)"
    by (simp add: ummu_update_token_def ummu_add_token_def sample_request_def UMMU_MAX_TOKEN_NUM_def)
  then show ?thesis
    using token_update_through_cast [of ?e ?n "sample_request\<lparr>di_op := UMMU_ADD_TOKEN\<rparr>"] by simp
qed

text \<open>Adding a second token to a granted table node and removing it again leaves one valid
  token, the first one; removing the first one instead leaves the second.  A third token is
  refused and changes nothing.\<close>

theorem table_node_tokens:
  assumes "tn_valid n = 1" "tn_nonce n = 1" "tn_token_val_0 n = tn_token_val_1 n"
    "di_op a = UMMU_ADD_TOKEN" "di_tokenval a \<noteq> tn_token_val_0 n"
    "cast_update_token n a = (r, m)" "di_op d = UMMU_REMOVE_TOKEN"
  shows "r = 0 \<and> {tn_token_val_0 m, tn_token_val_1 m} = {tn_token_val_0 n, di_tokenval a} \<and>
    cast_update_token m a = (- EINVAL, m) \<and>
    (di_tokenval d \<in> {tn_token_val_0 m, tn_token_val_1 m} \<longrightarrow>
       (\<exists>k. cast_update_token m d = (0, k) \<and> tn_nonce k = 1 \<and>
         {tn_token_val_0 k, tn_token_val_1 k} = {tn_token_val_0 m, tn_token_val_1 m} - {di_tokenval d})) \<and>
    (di_tokenval d \<notin> {tn_token_val_0 m, tn_token_val_1 m} \<longrightarrow> cast_update_token m d = (- EINVAL, m))"
proof -
  have inv: "table_tok.token_inv n" "unat (tn_nonce n) = 1" using assms(1-3) by (auto simp: table_tok.token_inv_def)
  have op: "x\<lparr>di_op := di_op x\<rparr> = x" for x :: data_info by simp
  have add: "cast_update_token n (a\<lparr>di_op := UMMU_ADD_TOKEN\<rparr>) = (r, m)" using assms(6) op [of a, unfolded assms(4)] by simp
  note t = table_tok.add_tokens [OF inv add]
  have m: "m = n\<lparr>tn_token_val_1 := di_tokenval a, tn_nonce := 2\<rparr>"
    using assms(1,2,4,6) by (simp add: cast_update_token_eq)
  have d: "d\<lparr>di_op := UMMU_REMOVE_TOKEN\<rparr> = d" using op [of d, unfolded assms(7)] .
  have rem: "\<exists>k. cast_update_token m d = (0, k) \<and> tn_nonce k = 1 \<and>
      {tn_token_val_0 k, tn_token_val_1 k} = {tn_token_val_0 m, tn_token_val_1 m} - {di_tokenval d}"
    if mem: "di_tokenval d \<in> {tn_token_val_0 m, tn_token_val_1 m}"
  proof -
    obtain r' k where k: "cast_update_token m d = (r', k)" by (cases "cast_update_token m d")
    have "table_tok.tokens m = {tn_token_val_0 m, tn_token_val_1 m}" "tn_token_val_0 m \<noteq> tn_token_val_1 m"
      using assms(5) by (auto simp: table_tok.tokens_def m)
    note rk = table_tok.remove_tokens [OF t(2), of d r' k, unfolded this(1) d, OF mem k]
    have "tn_nonce k = 1" using rk(3) by (simp add: word_unat_eq_iff)
    with rk(1,4) k \<open>tn_token_val_0 m \<noteq> tn_token_val_1 m\<close> show ?thesis by (simp add: table_tok.tokens_def)
  qed
  have "cast_update_token m a = (- EINVAL, m)" by (simp add: cast_update_token_eq assms(4) m)
  moreover have "cast_update_token m d = (- EINVAL, m)" if "di_tokenval d \<notin> {tn_token_val_0 m, tn_token_val_1 m}"
  proof -
    have "tn_token_val_0 m \<noteq> di_tokenval d" "tn_token_val_1 m \<noteq> di_tokenval d" using that by auto
    then show ?thesis by (simp add: cast_update_token_eq assms(7))
  qed
  moreover have "{tn_token_val_0 m, tn_token_val_1 m} = {tn_token_val_0 n, di_tokenval a}" by (simp add: m)
  ultimately show ?thesis using t(1) rem by blast
qed

theorem table_node_tokens_witness:
  "(\<exists>k. cast_update_token (zero_table_node\<lparr>tn_valid := 1, tn_token_val_0 := 4, tn_token_val_1 := 9, tn_nonce := 2\<rparr>)
      (sample_request\<lparr>di_op := UMMU_REMOVE_TOKEN\<rparr>) = (0, k) \<and> tn_nonce k = 1 \<and>
      {tn_token_val_0 k, tn_token_val_1 k} = {4, 9} - {9})"
proof -
  let ?n = "zero_table_node\<lparr>tn_valid := 1, tn_nonce := 1, tn_token_val_0 := 4, tn_token_val_1 := 4\<rparr>"
  have "cast_update_token ?n (sample_request\<lparr>di_op := UMMU_ADD_TOKEN\<rparr>) =
      (0, ?n\<lparr>tn_token_val_1 := 9, tn_nonce := 2\<rparr>)"
    by (simp add: cast_update_token_eq sample_request_def)
  from table_node_tokens [OF _ _ _ _ _ this, of "sample_request\<lparr>di_op := UMMU_REMOVE_TOKEN\<rparr>"]
  show ?thesis by (simp add: sample_request_def)
qed

end
