(* ===== verification/Ummu_SegTree.thy ===== *)
theory Ummu_SegTree
  imports Ummu_NodeOps
begin

text \<open>
  \<^verbatim>\<open>src/ummu_seg_tree.cpp\<close>: the table of granted address ranges, a \<^verbatim>\<open>std::map\<close> keyed by
  ranges whose comparison calls overlapping ranges equivalent.  The map is its sequence of
  entries in key order; \<^verbatim>\<open>find\<close> and \<^verbatim>\<open>insert\<close> follow the library's descent: \<^verbatim>\<open>find\<close> takes the
  first entry that is not less than the key and checks that the key is not less than it,
  \<^verbatim>\<open>insert\<close> takes the position before the first entry greater than the key and checks the
  entry before that position.  The locale \<open>seg_store\<close> is the contract the segment manager
  relies on; its interpretation at the end discharges it for these functions.
\<close>

section \<open>Ranges and the map\<close>

datatype range = MkRange (rleft: u64) (rright: u64)

definition Range :: "u64 \<Rightarrow> u64 \<Rightarrow> range" where
  "Range l sz = MkRange l (l + sz)"

text \<open>\<^verbatim>\<open>ModCmp::operator()\<close> is the order of the map.\<close>

definition ModCmp :: "range \<Rightarrow> range \<Rightarrow> bool" where
  "ModCmp l r \<longleftrightarrow> rright l < rleft r"

instantiation range :: ord
begin

definition less_range :: "range \<Rightarrow> range \<Rightarrow> bool" where
  "less_range = ModCmp"

definition less_eq_range :: "range \<Rightarrow> range \<Rightarrow> bool" where
  "less_eq_range l r \<longleftrightarrow> \<not> rright r < rleft l"

instance ..

end

lemma range_less: "l < r \<longleftrightarrow> rright l < rleft r"
  by (simp add: less_range_def ModCmp_def)

record seg_info =
  si_start_addr :: u64
  si_grant_size :: u64
  si_permission :: u32
  si_e_bit :: u32
  si_token_check :: u8
  si_token_count :: u8
  si_token_val_0 :: u32
  si_token_val_1 :: u32

type_synonym 'v range_table = "(range \<times> 'v) list"

definition map_find :: "'v range_table \<Rightarrow> range \<Rightarrow> (range \<times> 'v) option" where
  "map_find t k =
     (case dropWhile (\<lambda>e. fst e < k) t of
        [] \<Rightarrow> None
      | e # _ \<Rightarrow> if k < fst e then None else Some e)"

definition map_insert :: "'v range_table \<Rightarrow> range \<Rightarrow> 'v \<Rightarrow> 'v range_table \<times> bool" where
  "map_insert t k v =
     (let pre = takeWhile (\<lambda>e. \<not> k < fst e) t; post = dropWhile (\<lambda>e. \<not> k < fst e) t
      in if pre = [] \<or> fst (last pre) < k then (pre @ (k, v) # post, True) else (t, False))"

definition map_erase :: "'v range_table \<Rightarrow> range \<Rightarrow> 'v range_table" where
  "map_erase t k = filter (\<lambda>e. fst e \<noteq> k) t"

section \<open>The segment tree\<close>

datatype range_compare_ret = RANGE_MATCH | RANGE_OVERLAP | RANGE_NOT_EXIST

text \<open>The handle \<^verbatim>\<open>*output\<close> is \<open>None\<close> for \<open>0\<close>.\<close>

definition ummu_create_seg_tree :: "os_env \<Rightarrow> world \<Rightarrow> (int \<times> 'v range_table option) \<times> world" where
  "ummu_create_seg_tree E w =
     (let (ok, w1) = c_malloc E w in if \<not> ok then ((- ENOMEM, None), w1) else ((0, Some []), w1))"

definition ummu_insert_seg :: "'v \<Rightarrow> 'v range_table \<Rightarrow> u64 \<Rightarrow> u64 \<Rightarrow> int \<times> 'v range_table" where
  "ummu_insert_seg data t left sz =
     (let (t', ok) = map_insert t (Range left sz) data
      in if \<not> ok then (- EINVAL, t') else (0, t'))"

definition ummu_find_seg :: "u64 \<Rightarrow> u64 \<Rightarrow> 'v range_table \<Rightarrow> 'v option \<times> range_compare_ret" where
  "ummu_find_seg left sz t =
     (case map_find t (Range left sz) of
        Some (r, v) \<Rightarrow>
          if rleft r = left \<and> rright r = left + sz then (Some v, RANGE_MATCH)
          else (None, RANGE_OVERLAP)
      | None \<Rightarrow> (None, RANGE_NOT_EXIST))"

text \<open>
  Deletion and destruction also return the contents of the objects at the moment they are
  freed, after the cleaner ran on them.  The search key of the deletion passes \<open>left + sz\<close>
  where the constructor of a range expects a size.
\<close>

definition ummu_delete_seg ::
    "u64 \<Rightarrow> u64 \<Rightarrow> 'v range_table \<Rightarrow> ('v \<Rightarrow> 'v) \<Rightarrow> int \<times> 'v range_table \<times> 'v list" where
  "ummu_delete_seg left sz t cleaner =
     (case map_find t (Range left (left + sz)) of
        Some (r, v) \<Rightarrow>
          if rleft r = left \<and> rright r = left + sz
          then (0, map_erase t r, [cleaner v])
          else (- EINVAL, t, [])
      | None \<Rightarrow> (- EINVAL, t, []))"

primrec destroy_loop :: "('v \<Rightarrow> 'v) \<Rightarrow> 'v range_table \<Rightarrow> 'v list \<Rightarrow> 'v list" where
  "destroy_loop cleaner [] freed = freed"
| "destroy_loop cleaner (e # t) freed = destroy_loop cleaner t (freed @ [cleaner (snd e)])"

definition ummu_destroy_seg_tree ::
    "'v range_table \<Rightarrow> ('v \<Rightarrow> 'v) \<Rightarrow> 'v range_table option \<times> 'v list" where
  "ummu_destroy_seg_tree t cleaner = (None, destroy_loop cleaner t [])"

section \<open>The contract of a segment store\<close>

definition overlaps :: "range \<Rightarrow> range \<Rightarrow> bool" where
  "overlaps a b \<longleftrightarrow> \<not> a < b \<and> \<not> b < a"

text \<open>Ranges below the 48-bit limit, given by their first byte and their size minus one.\<close>

definition range_ok :: "u64 \<Rightarrow> u64 \<Rightarrow> bool" where
  "range_ok l n \<longleftrightarrow> unat l + unat n < 2 ^ 48"

locale seg_store =
  fixes emp :: "'t"
    and wf :: "'t \<Rightarrow> bool"
    and entries :: "'t \<Rightarrow> (range \<times> 'v) set"
    and insert_seg :: "'v \<Rightarrow> 't \<Rightarrow> u64 \<Rightarrow> u64 \<Rightarrow> int \<times> 't"
    and find_seg :: "u64 \<Rightarrow> u64 \<Rightarrow> 't \<Rightarrow> 'v option \<times> range_compare_ret"
    and delete_seg :: "u64 \<Rightarrow> u64 \<Rightarrow> 't \<Rightarrow> int \<times> 't"
  assumes wf_emp: "wf emp" and entries_emp: "entries emp = {}"
    and separate: "wf t \<Longrightarrow> (a, u) \<in> entries t \<Longrightarrow> (b, v) \<in> entries t \<Longrightarrow> overlaps a b \<Longrightarrow>
      a = b \<and> u = v"
    and find_law: "wf t \<Longrightarrow> range_ok l n \<Longrightarrow> find_seg l n t =
      (if \<exists>v. (Range l n, v) \<in> entries t
       then (Some (THE v. (Range l n, v) \<in> entries t), RANGE_MATCH)
       else if \<exists>(r, v) \<in> entries t. overlaps r (Range l n) then (None, RANGE_OVERLAP)
       else (None, RANGE_NOT_EXIST))"
    and insert_law: "wf t \<Longrightarrow> range_ok l n \<Longrightarrow>
      (if \<exists>(r, u) \<in> entries t. overlaps r (Range l n) then insert_seg v t l n = (- EINVAL, t)
       else \<exists>t'. insert_seg v t l n = (0, t') \<and> wf t' \<and>
         entries t' = insert (Range l n, v) (entries t))"
    and delete_law: "wf t \<Longrightarrow> range_ok l n \<Longrightarrow>
      (if \<exists>v. (Range l n, v) \<in> entries t
       then \<exists>t'. delete_seg l n t = (0, t') \<and> wf t' \<and>
         entries t' = {e \<in> entries t. fst e \<noteq> Range l n}
       else delete_seg l n t = (- EINVAL, t))"
begin

lemma self_overlap: "range_ok l n \<Longrightarrow> overlaps (Range l n) (Range l n)"
  by (auto simp: overlaps_def range_less Range_def range_ok_def word_less_nat_alt
      unat_plus_no_wrap)

lemma find_match:
  assumes "wf t" "range_ok l n"
  shows "find_seg l n t = (Some v, RANGE_MATCH) \<longleftrightarrow> (Range l n, v) \<in> entries t"
proof -
  have u: "u = v'" if "(Range l n, u) \<in> entries t" "(Range l n, v') \<in> entries t" for u v'
    using separate [OF assms(1) that] self_overlap [OF assms(2)] by simp
  then have "(THE v. (Range l n, v) \<in> entries t) = v'" if "(Range l n, v') \<in> entries t" for v'
    using that by blast
  then show ?thesis using u by (auto simp: find_law [OF assms] split: if_splits)
qed

lemma find_free:
  assumes "wf t" "range_ok l n"
  shows "snd (find_seg l n t) = RANGE_NOT_EXIST \<longleftrightarrow>
    (\<forall>(r, v) \<in> entries t. \<not> overlaps r (Range l n))"
  using self_overlap [OF assms(2)] by (auto simp: find_law [OF assms] split: if_splits)

text \<open>A free range can be inserted and is then found; other ranges are unaffected.\<close>

lemma insert_free:
  assumes "wf t" "range_ok l n" "snd (find_seg l n t) = RANGE_NOT_EXIST"
  obtains t' where "insert_seg v t l n = (0, t')" "wf t'"
    "entries t' = insert (Range l n, v) (entries t)" "find_seg l n t' = (Some v, RANGE_MATCH)"
proof -
  from assms(3) have "\<not> (\<exists>(r, u) \<in> entries t. overlaps r (Range l n))"
    using find_free [OF assms(1,2)] by auto
  with insert_law [OF assms(1,2), of v] obtain t' where
    t': "insert_seg v t l n = (0, t')" "wf t'" "entries t' = insert (Range l n, v) (entries t)"
    by auto
  moreover have "find_seg l n t' = (Some v, RANGE_MATCH)"
    using find_match [OF t'(2) assms(2)] t'(3) by simp
  ultimately show ?thesis using that by blast
qed

text \<open>Deleting a granted range frees exactly it.\<close>

lemma delete_granted:
  assumes "wf t" "range_ok l n" "find_seg l n t = (Some v, RANGE_MATCH)"
  obtains t' where "delete_seg l n t = (0, t')" "wf t'"
    "entries t' = entries t - {(Range l n, v)}" "snd (find_seg l n t') = RANGE_NOT_EXIST"
proof -
  have mem: "(Range l n, v) \<in> entries t" using assms find_match by blast
  then have ex: "\<exists>v. (Range l n, v) \<in> entries t" by blast
  obtain t' where t': "delete_seg l n t = (0, t')" "wf t'"
    "entries t' = {e \<in> entries t. fst e \<noteq> Range l n}"
    using delete_law [OF assms(1,2), unfolded if_P [OF ex]] by blast
  have "u = v" if "(Range l n, u) \<in> entries t" for u
    using separate [OF assms(1) that mem] self_overlap [OF assms(2)] by simp
  then have "e \<in> entries t \<and> fst e \<noteq> Range l n \<longleftrightarrow> e \<in> entries t \<and> e \<noteq> (Range l n, v)" for e
    by (cases e) auto
  then have eq: "entries t' = entries t - {(Range l n, v)}" unfolding t'(3) by blast
  have "\<not> overlaps r (Range l n)" if "(r, u) \<in> entries t'" for r u
  proof
    assume "overlaps r (Range l n)"
    with that separate [OF assms(1) _ mem, of r u] show False unfolding eq by blast
  qed
  then have "snd (find_seg l n t') = RANGE_NOT_EXIST"
    using find_free [OF t'(2) assms(2)] by auto
  with t'(1,2) eq show ?thesis by (rule that)
qed

end

section \<open>The map meets the contract\<close>

definition seg_wf :: "'v range_table \<Rightarrow> bool" where
  "seg_wf t \<longleftrightarrow> sorted_wrt (<) (map fst t) \<and> (\<forall>e \<in> set t. rleft (fst e) \<le> rright (fst e))"

lemma range_ok_right: "range_ok l n \<Longrightarrow> unat (l + n) = unat l + unat n"
  unfolding range_ok_def by (rule unat_plus_no_wrap) simp

lemma range_ok_le: "range_ok l n \<Longrightarrow> rleft (Range l n) \<le> rright (Range l n)"
  by (simp add: Range_def word_le_nat_alt range_ok_right)

lemma less_range_trans: "a < b \<Longrightarrow> rleft b \<le> rright b \<Longrightarrow> b < c \<Longrightarrow> a < (c :: range)"
  unfolding range_less by (meson le_less_trans less_trans)

lemma seg_wf_split:
  assumes "seg_wf (pre @ e # post)"
  shows "\<And>x. x \<in> set pre \<Longrightarrow> fst x < fst e" "\<And>x. x \<in> set post \<Longrightarrow> fst e < fst x"
    "\<And>x. x \<in> set (pre @ e # post) \<Longrightarrow> rleft (fst x) \<le> rright (fst x)"
  using assms by (auto simp: seg_wf_def sorted_wrt_append)

lemma not_less_self: "rleft r \<le> rright r \<Longrightarrow> rleft k = rleft r \<Longrightarrow> \<not> r < (k :: range)"
  by (simp add: range_less)

lemma find_by_left:
  assumes "seg_wf t" "(r, v) \<in> set t" "rleft k = rleft r"
  shows "\<exists>post. dropWhile (\<lambda>e. fst e < k) t = (r, v) # post"
proof -
  from assms(2) obtain pre post where t: "t = pre @ (r, v) # post" by (meson split_list)
  note s = seg_wf_split [OF assms(1) [unfolded t]]
  have "\<forall>x \<in> set pre. fst x < k" using s(1) assms(3) by (auto simp: range_less)
  moreover have "\<not> r < k" using s(3) [of "(r, v)"] assms(3) by (intro not_less_self) auto
  ultimately show ?thesis by (simp add: t)
qed

lemma map_find_by_left:
  assumes "seg_wf t" "(r, v) \<in> set t" "rleft k = rleft r" "rleft k \<le> rright k"
  shows "map_find t k = Some (r, v)"
proof -
  have "\<not> k < r" using assms(3,4) by (simp add: range_less)
  then show ?thesis using find_by_left [OF assms(1-3)] by (auto simp: map_find_def)
qed

lemma map_find_Some: "map_find t k = Some e \<Longrightarrow> e \<in> set t \<and> overlaps (fst e) k"
proof (cases "dropWhile (\<lambda>e. fst e < k) t")
  case (Cons x xs)
  assume "map_find t k = Some e"
  with Cons have "e = x" "\<not> k < fst x" by (auto simp: map_find_def split: if_splits)
  moreover have "\<not> fst x < k" using hd_dropWhile [of "\<lambda>e. fst e < k" t] Cons by simp
  moreover have "x \<in> set t" using Cons set_dropWhileD [of x "\<lambda>e. fst e < k" t] by simp
  ultimately show ?thesis by (simp add: overlaps_def)
qed (simp add: map_find_def)

lemma map_find_None:
  assumes "seg_wf t"
  shows "map_find t k = None \<longleftrightarrow> (\<forall>e \<in> set t. \<not> overlaps (fst e) k)"
proof (cases "dropWhile (\<lambda>e. fst e < k) t")
  case Nil
  then have "\<forall>e \<in> set t. fst e < k" by (simp add: dropWhile_eq_Nil_conv)
  moreover have "map_find t k = None" unfolding map_find_def Nil by simp
  ultimately show ?thesis by (simp add: overlaps_def)
next
  case (Cons x xs)
  define pre where "pre = takeWhile (\<lambda>e. fst e < k) t"
  have t: "t = pre @ x # xs" unfolding pre_def using Cons takeWhile_dropWhile_id by metis
  note s = seg_wf_split [OF assms [unfolded t]]
  have pre: "\<forall>e \<in> set pre. fst e < k" unfolding pre_def by (auto dest: set_takeWhileD)
  have nx: "\<not> fst x < k" using hd_dropWhile [of "\<lambda>e. fst e < k" t] Cons by simp
  have "k < fst x \<Longrightarrow> e \<in> set xs \<Longrightarrow> k < fst e" for e
    using s(2) s(3) [of x] less_range_trans [of k "fst x" "fst e"] by simp
  then have "k < fst x \<longleftrightarrow> (\<forall>e \<in> set t. \<not> overlaps (fst e) k)"
    using pre nx unfolding t overlaps_def by auto
  then show ?thesis using Cons by (simp add: map_find_def)
qed

lemma map_insert_free:
  assumes wf: "seg_wf t" and k: "rleft k \<le> rright k" and free: "\<forall>e \<in> set t. \<not> overlaps (fst e) k"
  shows "\<exists>t'. map_insert t k v = (t', True) \<and> seg_wf t' \<and> set t' = insert (k, v) (set t)"
proof -
  define pre where "pre = takeWhile (\<lambda>e. \<not> k < fst e) t"
  define post where "post = dropWhile (\<lambda>e. \<not> k < fst e) t"
  have t: "t = pre @ post" by (simp add: pre_def post_def)
  have pre: "\<forall>e \<in> set pre. fst e < k"
    using free unfolding overlaps_def pre_def by (auto dest: set_takeWhileD)
  have post: "k < fst e" if "e \<in> set post" for e
  proof (cases post)
    case (Cons x xs)
    have x: "k < fst x" using hd_dropWhile [of "\<lambda>e. \<not> k < fst e" t] Cons unfolding post_def by auto
    note s = seg_wf_split [OF wf [unfolded t Cons]]
    show ?thesis using that x s(2) [of e] s(3) [of x] less_range_trans [of k "fst x" "fst e"]
      unfolding Cons by auto
  qed (use that in simp)
  have "pre = [] \<or> fst (last pre) < k" using pre by (cases pre rule: rev_cases) auto
  then have "map_insert t k v = (pre @ (k, v) # post, True)"
    by (simp add: map_insert_def pre_def post_def)
  moreover have "seg_wf (pre @ (k, v) # post)"
  proof -
    have "sorted_wrt (<) (map fst pre @ map fst post)" using wf unfolding t seg_wf_def by simp
    with pre post have "sorted_wrt (<) (map fst pre @ k # map fst post)"
      unfolding sorted_wrt_append by simp
    with wf k show ?thesis unfolding t seg_wf_def by auto
  qed
  ultimately show ?thesis by (auto simp: t)
qed

lemma map_insert_clash:
  assumes wf: "seg_wf t" and k: "rleft k \<le> rright k" and e: "e \<in> set t" "overlaps (fst e) k"
  shows "map_insert t k v = (t, False)"
proof -
  define pre where "pre = takeWhile (\<lambda>e. \<not> k < fst e) t"
  define post where "post = dropWhile (\<lambda>e. \<not> k < fst e) t"
  have t: "t = pre @ post" by (simp add: pre_def post_def)
  have post: "e \<notin> set post"
  proof (cases post)
    case (Cons x xs)
    have x: "k < fst x" using hd_dropWhile [of "\<lambda>e. \<not> k < fst e" t] Cons unfolding post_def by auto
    note s = seg_wf_split [OF wf [unfolded t Cons]]
    show ?thesis
      using e(2) x s(2) [of e] s(3) [of x] less_range_trans [of k "fst x" "fst e"]
      unfolding Cons overlaps_def by auto
  qed simp
  then have "e \<in> set pre" using e(1) t by auto
  then obtain ys l where pre: "pre = ys @ [l]" by (cases pre rule: rev_cases) auto
  have "\<not> fst l < k"
  proof (cases "e = l")
    case False
    with \<open>e \<in> set pre\<close> pre have "e \<in> set ys" by auto
    moreover have "seg_wf (ys @ l # post)" using wf unfolding t pre by simp
    ultimately have "fst e < fst l" "rleft (fst l) \<le> rright (fst l)"
      using seg_wf_split(1,3) [of ys l post] by auto
    with e(2) show ?thesis unfolding overlaps_def by (blast intro: less_range_trans)
  qed (use e(2) in \<open>simp add: overlaps_def\<close>)
  then show ?thesis by (simp add: map_insert_def pre flip: pre_def)
qed

lemma overlaps_sym: "overlaps a b = overlaps b a"
  by (auto simp: overlaps_def)

lemma seg_wf_separate:
  assumes "seg_wf t" "(a, u) \<in> set t" "(b, v) \<in> set t" "overlaps a b"
  shows "a = b \<and> u = v"
proof -
  from assms(2) obtain pre post where t: "t = pre @ (a, u) # post" by (meson split_list)
  note s = seg_wf_split [OF assms(1) [unfolded t]]
  have "(b, v) \<notin> set pre" "(b, v) \<notin> set post"
    using s(1,2) [of "(b, v)"] assms(4) by (auto simp: overlaps_def)
  then show ?thesis using assms(3) t by auto
qed

lemma seg_wf_erase: "seg_wf t \<Longrightarrow> seg_wf (map_erase t k)"
  unfolding seg_wf_def map_erase_def
  by (induction t) (auto simp: sorted_wrt_append)

lemma find_seg_spec:
  assumes wf: "seg_wf t" and ok: "range_ok l n"
  shows "ummu_find_seg l n t =
      (if \<exists>v. (Range l n, v) \<in> set t then (Some (THE v. (Range l n, v) \<in> set t), RANGE_MATCH)
       else if \<exists>(r, v) \<in> set t. overlaps r (Range l n) then (None, RANGE_OVERLAP)
       else (None, RANGE_NOT_EXIST))"
proof (cases "\<exists>v. (Range l n, v) \<in> set t")
  case True
  then obtain v where v: "(Range l n, v) \<in> set t" by blast
  have f: "map_find t (Range l n) = Some (Range l n, v)"
    by (rule map_find_by_left [OF wf v refl range_ok_le [OF ok]])
  have "overlaps (Range l n) (Range l n)"
    using range_ok_le [OF ok] by (simp add: overlaps_def range_less)
  with seg_wf_separate [OF wf] v have "(THE v. (Range l n, v) \<in> set t) = v" by blast
  then show ?thesis using True f by (simp add: ummu_find_seg_def) (simp add: Range_def)
next
  case False
  show ?thesis
  proof (cases "map_find t (Range l n)")
    case None
    then show ?thesis using False map_find_None [OF wf, of "Range l n"] by (auto simp: ummu_find_seg_def)
  next
    case (Some e)
    obtain r v where e: "e = (r, v)" by (cases e)
    have m: "(r, v) \<in> set t" "overlaps r (Range l n)" using map_find_Some [OF Some] e by auto
    then have "\<not> (rleft r = l \<and> rright r = l + n)" using False by (cases r) (auto simp: Range_def)
    then show ?thesis using Some e m False by (auto simp: ummu_find_seg_def)
  qed
qed

lemma insert_seg_spec:
  assumes wf: "seg_wf t" and ok: "range_ok l n"
  shows "if \<exists>(r, u) \<in> set t. overlaps r (Range l n) then ummu_insert_seg v t l n = (- EINVAL, t)
    else \<exists>t'. ummu_insert_seg v t l n = (0, t') \<and> seg_wf t' \<and> set t' = insert (Range l n, v) (set t)"
proof (cases "\<exists>(r, u) \<in> set t. overlaps r (Range l n)")
  case True
  then obtain e where "e \<in> set t" "overlaps (fst e) (Range l n)" by auto
  with map_insert_clash [OF wf range_ok_le [OF ok]] True show ?thesis by (simp add: ummu_insert_seg_def)
next
  case False
  then have "\<forall>e \<in> set t. \<not> overlaps (fst e) (Range l n)" by auto
  from map_insert_free [OF wf range_ok_le [OF ok] this, of v] obtain t' where
    "map_insert t (Range l n) v = (t', True)" "seg_wf t'" "set t' = insert (Range l n, v) (set t)"
    by blast
  with False show ?thesis by (simp add: ummu_insert_seg_def)
qed

text \<open>
  The key of the deletion reaches up to \<open>2 * left + size\<close>, but the search only looks at its
  left end, and the found entry is compared with the exact range.
\<close>

lemma delete_seg_spec:
  assumes wf: "seg_wf t" and ok: "range_ok l n"
  shows "if \<exists>v. (Range l n, v) \<in> set t
    then \<exists>v t'. (Range l n, v) \<in> set t \<and> ummu_delete_seg l n t c = (0, t', [c v]) \<and> seg_wf t' \<and>
      set t' = {e \<in> set t. fst e \<noteq> Range l n}
    else ummu_delete_seg l n t c = (- EINVAL, t, [])"
proof (cases "\<exists>v. (Range l n, v) \<in> set t")
  case True
  then obtain v where v: "(Range l n, v) \<in> set t" by blast
  have "unat (l + n) = unat l + unat n" using ok by (rule range_ok_right)
  then have "unat (l + (l + n)) = unat l + (unat l + unat n)"
    using ok by (subst unat_plus_no_wrap) (auto simp: range_ok_def)
  then have "rleft (Range l (l + n)) \<le> rright (Range l (l + n))"
    by (simp add: Range_def word_le_nat_alt)
  then have f: "map_find t (Range l (l + n)) = Some (Range l n, v)"
    by (intro map_find_by_left [OF wf v]) (simp_all add: Range_def)
  then have "ummu_delete_seg l n t c = (0, map_erase t (Range l n), [c v])"
    by (simp add: ummu_delete_seg_def) (simp add: Range_def)
  with True v seg_wf_erase [OF wf] show ?thesis by (auto simp: map_erase_def)
next
  case False
  have "\<not> (rleft r = l \<and> rright r = l + n)" if "map_find t (Range l (l + n)) = Some (r, v)" for r v
    using map_find_Some [OF that] False by (cases r) (auto simp: Range_def)
  then show ?thesis using False by (auto simp: ummu_delete_seg_def split: option.splits)
qed

interpretation seg: seg_store
  "[]" seg_wf set ummu_insert_seg ummu_find_seg
  "\<lambda>l n t. (let (r, t', _) = ummu_delete_seg l n t c in (r, t'))" for c :: "'v \<Rightarrow> 'v"
proof
  fix t :: "'v range_table" and l n :: u64
  assume "seg_wf t" "range_ok l n"
  from delete_seg_spec [OF this, of c]
  show "if \<exists>v. (Range l n, v) \<in> set t
    then \<exists>t'. (let (r, t', _) = ummu_delete_seg l n t c in (r, t')) = (0, t') \<and> seg_wf t' \<and>
      set t' = {e \<in> set t. fst e \<noteq> Range l n}
    else (let (r, t', _) = ummu_delete_seg l n t c in (r, t')) = (- EINVAL, t)"
    by (auto split: if_splits)
qed (simp_all add: find_seg_spec insert_seg_spec, simp add: seg_wf_def, blast dest: seg_wf_separate)

lemma destroy_loop_eq: "destroy_loop c t acc = acc @ map (c \<circ> snd) t"
  by (induction t arbitrary: acc) auto

section \<open>Properties\<close>

text \<open>C27: On a table of disjoint ranges (\<open>seg_wf\<close>) and a range below the 48-bit limit (\<open>range_ok\<close>),
  \<^verbatim>\<open>ummu_find_seg\<close> tells an exact match, an overlap and a free range apart: it returns RANGE_MATCH with the
  recorded value exactly when this very range is in the table, RANGE_OVERLAP when only ranges that
  overlap it are, RANGE_NOT_EXIST when none does.  \<^verbatim>\<open>ummu_insert_seg\<close> accepts exactly the free ranges: it
  keeps the table sorted and disjoint and adds the one entry, or refuses with -EINVAL and changes nothing.\<close>

theorem seg_insert_find:
  assumes "seg_wf t" "range_ok l n"
  shows "(ummu_find_seg l n t = (Some u, RANGE_MATCH) \<longleftrightarrow> (Range l n, u) \<in> set t) \<and>
    (snd (ummu_find_seg l n t) = RANGE_MATCH \<longleftrightarrow> (\<exists>u. (Range l n, u) \<in> set t)) \<and>
    (ummu_find_seg l n t = (None, RANGE_OVERLAP) \<longleftrightarrow>
       (\<nexists>u. (Range l n, u) \<in> set t) \<and> (\<exists>(r, u) \<in> set t. overlaps r (Range l n))) \<and>
    (ummu_find_seg l n t = (None, RANGE_NOT_EXIST) \<longleftrightarrow> (\<forall>(r, u) \<in> set t. \<not> overlaps r (Range l n))) \<and>
    (if snd (ummu_find_seg l n t) = RANGE_NOT_EXIST
     then \<exists>t'. ummu_insert_seg v t l n = (0, t') \<and> seg_wf t' \<and> set t' = insert (Range l n, v) (set t) \<and>
       ummu_find_seg l n t' = (Some v, RANGE_MATCH)
     else ummu_insert_seg v t l n = (- EINVAL, t))"
proof -
  have self: "overlaps (Range l n) (Range l n)" by (rule seg.self_overlap [OF assms(2)])
  have the: "(THE u. (Range l n, u) \<in> set t) = u" if "(Range l n, u) \<in> set t" for u
    using that seg_wf_separate [OF assms(1) _ that self] by blast
  have found: "(ummu_find_seg l n t = (Some u, RANGE_MATCH) \<longleftrightarrow> (Range l n, u) \<in> set t) \<and>
    (snd (ummu_find_seg l n t) = RANGE_MATCH \<longleftrightarrow> (\<exists>u. (Range l n, u) \<in> set t)) \<and>
    (ummu_find_seg l n t = (None, RANGE_OVERLAP) \<longleftrightarrow>
       (\<nexists>u. (Range l n, u) \<in> set t) \<and> (\<exists>(r, u) \<in> set t. overlaps r (Range l n))) \<and>
    (ummu_find_seg l n t = (None, RANGE_NOT_EXIST) \<longleftrightarrow> (\<forall>(r, u) \<in> set t. \<not> overlaps r (Range l n)))"
    unfolding find_seg_spec [OF assms] using the self by auto
  have "if snd (ummu_find_seg l n t) = RANGE_NOT_EXIST
     then \<exists>t'. ummu_insert_seg v t l n = (0, t') \<and> seg_wf t' \<and> set t' = insert (Range l n, v) (set t) \<and>
       ummu_find_seg l n t' = (Some v, RANGE_MATCH)
     else ummu_insert_seg v t l n = (- EINVAL, t)"
  proof (cases "snd (ummu_find_seg l n t) = RANGE_NOT_EXIST")
    case True
    from seg.insert_free [OF assms True, of v] True show ?thesis by metis
  next
    case False
    then have "\<exists>(r, u) \<in> set t. overlaps r (Range l n)" using seg.find_free [OF assms] by blast
    with insert_seg_spec [OF assms, of v] False show ?thesis by auto
  qed
  with found show ?thesis by blast
qed

theorem seg_insert_find_witness:
  "\<exists>t'. ummu_insert_seg (7::nat) [(Range 0x1000 0xFFF, 5)] 0x3000 0xFFF = (0, t') \<and> seg_wf t' \<and>
     set t' = {(Range 0x3000 0xFFF, 7), (Range 0x1000 0xFFF, 5)}"
proof -
  have w: "seg_wf [(Range 0x1000 0xFFF, 5::nat)]" by (simp add: seg_wf_def Range_def)
  have k: "range_ok 0x3000 0xFFF" by (simp add: range_ok_def)
  have f: "snd (ummu_find_seg 0x3000 0xFFF [(Range 0x1000 0xFFF, 5::nat)]) = RANGE_NOT_EXIST" by code_simp
  from seg_insert_find [OF w k, of 5 7] f show ?thesis by (auto simp: insert_commute)
qed

text \<open>C28: \<^verbatim>\<open>ummu_delete_seg\<close> searches with a key whose end is wrong (\<open>left + size\<close> is passed as a
  size), yet below the 48-bit limit it finds and removes exactly the entry with the given
  bounds, hands its contents to the cleaner, and refuses everything else unchanged.\<close>

theorem seg_delete_exact:
  assumes "seg_wf t" "range_ok l n"
  shows "((Range l n, v) \<in> set t \<longrightarrow>
      (\<exists>t'. ummu_delete_seg l n t c = (0, t', [c v]) \<and> seg_wf t' \<and> set t' = set t - {(Range l n, v)} \<and>
        snd (ummu_find_seg l n t') = RANGE_NOT_EXIST)) \<and>
    ((\<nexists>u. (Range l n, u) \<in> set t) \<longrightarrow> ummu_delete_seg l n t c = (- EINVAL, t, []))"
proof (intro conjI impI)
  assume mem: "(Range l n, v) \<in> set t"
  then have ex: "\<exists>u. (Range l n, u) \<in> set t" by blast
  have "ummu_find_seg l n t = (Some v, RANGE_MATCH)" using seg.find_match [OF assms] mem by blast
  from seg.delete_granted [OF assms this, of c] obtain t' where
    t': "(let (r, t', _) = ummu_delete_seg l n t c in (r, t')) = (0, t')" "seg_wf t'"
      "set t' = set t - {(Range l n, v)}" "snd (ummu_find_seg l n t') = RANGE_NOT_EXIST" by metis
  from delete_seg_spec [OF assms, of c, unfolded if_P [OF ex]] obtain u t'' where
    u: "(Range l n, u) \<in> set t" "ummu_delete_seg l n t c = (0, t'', [c u])" by blast
  have "u = v" using seg_wf_separate [OF assms(1) u(1) mem seg.self_overlap [OF assms(2)]] by simp
  with u t' show "\<exists>t'. ummu_delete_seg l n t c = (0, t', [c v]) \<and> seg_wf t' \<and>
      set t' = set t - {(Range l n, v)} \<and> snd (ummu_find_seg l n t') = RANGE_NOT_EXIST" by auto
next
  assume "\<nexists>u. (Range l n, u) \<in> set t"
  with delete_seg_spec [OF assms, of c] show "ummu_delete_seg l n t c = (- EINVAL, t, [])" by simp
qed

theorem seg_delete_exact_witness:
  "\<exists>t'. ummu_delete_seg 0x1000 0xFFF [(Range 0x1000 0xFFF, 5::nat), (Range 0x2000 0xFFF, 6)] Suc = (0, t', [6]) \<and>
     set t' = {(Range 0x2000 0xFFF, 6)}"
proof -
  let ?t = "[(Range 0x1000 0xFFF, 5::nat), (Range 0x2000 0xFFF, 6)]"
  have w: "seg_wf ?t" by (simp add: seg_wf_def Range_def range_less)
  have k: "range_ok 0x1000 0xFFF" by (simp add: range_ok_def)
  have "Range 0x1000 0xFFF \<noteq> Range 0x2000 0xFFF" by (simp add: Range_def)
  with seg_delete_exact [OF w k, of 5 Suc] show ?thesis by auto
qed

end
