(* ===== verification/Ummu_SegMng.thy ===== *)
theory Ummu_SegMng
  imports Ummu_SegTree
begin

text \<open>
  The per-TID control structures of \<^verbatim>\<open>src/ummu_mapt.h\<close> and the segment manager
  \<^verbatim>\<open>src/ummu_seg_mng.c\<close>, which decides for every request whether it is a grant, a token
  addition, a token removal or an ungrant, and which keeps the software copy of the granted
  segments.  Memory owned by a structure is part of the structure: a table block carries the
  nodes of its mapping, \<^verbatim>\<open>mapt_block_array\<close> holds the blocks themselves, the union
  \<^verbatim>\<open>block_base\<close> is a datatype.  Using the wrong member of the union is \<open>None\<close>.
\<close>

section \<open>Structures\<close>

record mapt_block =
  mb_block_addr :: u64
  mb_blk_size :: u64
  mb_block_id :: u32
  mb_level_cnt :: u16
  mb_level_entry_cnt :: "u16 list"
  mb_nodes :: "nat \<Rightarrow> table_node"

record table_ctx =
  tc_expan :: bool
  tc_block_cnt :: u16
  tc_blk_exp_size :: u64
  tc_granted_addr_mng :: "seg_info range_table option"
  tc_level_block_bitmap :: "u64 list"
  tc_mapt_block_base :: "nat option"
  tc_mapt_block_array :: "mapt_block option list"

record queue_ctx =
  qc_ummu_cnt :: u32
  qc_queue_size :: u64
  qc_cmd_que_pi_size :: u16
  qc_cpl_que_size :: u16
  qc_queue :: "queue_args list option"

datatype block_base = NoBase | EntryBase u64 entry_node | TableBase table_ctx

record mapt_info =
  mi_block_base :: block_base
  mi_tid :: u32
  mi_valid :: u16
  mi_double_plbi :: u8
  mi_kcmd_plbi :: u8
  mi_mode :: u32
  mi_queue_ctx :: queue_ctx

section \<open>Classifying a request\<close>

definition ummu_table_param_check :: "seg_info \<Rightarrow> data_info \<Rightarrow> grant_op" where
  "ummu_table_param_check exist di =
     (if (si_token_check exist = 1 \<and> di_token_check di = 1) \<and>
         si_permission exist = di_perm di \<and>
         si_e_bit exist = di_e_bit di \<and>
         si_token_count exist = 1
      then UMMU_ADD_TOKEN else UMMU_OP_END)"

definition ummu_ungrant_param_check :: "seg_info \<Rightarrow> data_info \<Rightarrow> grant_op" where
  "ummu_ungrant_param_check exist di =
     (if \<not> di_bytoken di then UMMU_UNGRANT
      else if si_token_check exist = 0 then UMMU_OP_END
      else if si_token_val_0 exist = di_tokenval di \<or> si_token_val_1 exist = di_tokenval di then
        if si_token_count exist = 1 then UMMU_UNGRANT
        else if si_token_count exist = of_nat UMMU_MAX_TOKEN_NUM then UMMU_REMOVE_TOKEN
        else UMMU_OP_END
      else UMMU_OP_END)"

definition ummu_remove_tokenval :: "u32 \<Rightarrow> seg_info \<Rightarrow> seg_info" where
  "ummu_remove_tokenval tokenval data =
     (let d = (if si_token_val_0 data = tokenval
               then data\<lparr>si_token_val_0 := si_token_val_1 data\<rparr>
               else if si_token_val_1 data = tokenval
               then data\<lparr>si_token_val_1 := si_token_val_0 data\<rparr> else data)
      in d\<lparr>si_token_count := 1\<rparr>)"

definition ummu_entry_param_check :: "entry_node \<Rightarrow> data_info \<Rightarrow> grant_op" where
  "ummu_entry_param_check node di =
     (if en_valid node = 0 then UMMU_GRANT
      else if en_base node = di_data_base di \<and> en_limit node = di_data_limit di \<and>
        (en_token_check node = 1 \<and> di_token_check di = 1) \<and>
        (ucast (en_permission node) :: u64) = ucast (di_perm di) \<and>
        (ucast (en_e_bit node) :: u32) = di_e_bit di \<and>
        en_nonce node = 1
      then UMMU_ADD_TOKEN else UMMU_OP_END)"

definition ummu_grant_check :: "mapt_info \<Rightarrow> data_info \<Rightarrow> grant_op option" where
  "ummu_grant_check mi di =
     (if mi_mode mi = MAPT_MODE_ENTRY then
        (case mi_block_base mi of
           EntryBase _ node \<Rightarrow> Some (ummu_entry_param_check node di) | _ \<Rightarrow> None)
      else (case mi_block_base mi of
        TableBase ctx \<Rightarrow>
          (case tc_granted_addr_mng ctx of
             None \<Rightarrow> Some UMMU_OP_END
           | Some t \<Rightarrow>
               (let (data, comp_ret) = ummu_find_seg (di_data_base di) (di_data_size di - 1) t
                in case comp_ret of
                     RANGE_MATCH \<Rightarrow> map_option (\<lambda>d. ummu_table_param_check d di) data
                   | RANGE_OVERLAP \<Rightarrow> Some UMMU_OP_END
                   | RANGE_NOT_EXIST \<Rightarrow> Some UMMU_GRANT))
      | _ \<Rightarrow> None))"

definition ummu_entry_ungrant_param_check :: "entry_node \<Rightarrow> data_info \<Rightarrow> grant_op" where
  "ummu_entry_ungrant_param_check node di =
     (if en_valid node = 0 then UMMU_OP_END
      else if en_base node \<noteq> di_data_base di \<or> en_limit node \<noteq> di_data_limit di then UMMU_OP_END
      else if \<not> di_bytoken di then UMMU_UNGRANT
      else if en_token_check node = 1 then
        if en_token_val_0 node \<noteq> di_tokenval di \<and> en_token_val_1 node \<noteq> di_tokenval di
        then UMMU_OP_END
        else if en_nonce node = 1 then UMMU_UNGRANT
        else if en_nonce node = of_nat UMMU_MAX_TOKEN_NUM then UMMU_REMOVE_TOKEN
        else UMMU_OP_END
      else UMMU_OP_END)"

definition ummu_ungrant_check :: "mapt_info \<Rightarrow> data_info \<Rightarrow> grant_op option" where
  "ummu_ungrant_check mi di =
     (if mi_mode mi = MAPT_MODE_ENTRY then
        (case mi_block_base mi of
           EntryBase _ node \<Rightarrow> Some (ummu_entry_ungrant_param_check node di) | _ \<Rightarrow> None)
      else (case mi_block_base mi of
        TableBase ctx \<Rightarrow>
          (case tc_granted_addr_mng ctx of
             None \<Rightarrow> Some UMMU_OP_END
           | Some t \<Rightarrow>
               (case ummu_find_seg (di_data_base di) (di_data_size di - 1) t of
                  (Some data, RANGE_MATCH) \<Rightarrow> Some (ummu_ungrant_param_check data di)
                | _ \<Rightarrow> Some UMMU_OP_END))
      | _ \<Rightarrow> None))"

section \<open>Keeping the segment table\<close>

definition ummu_create_seg_mng ::
    "os_env \<Rightarrow> world \<Rightarrow> (int \<times> seg_info range_table option) \<times> world" where
  "ummu_create_seg_mng E w = ummu_create_seg_tree E w"

definition clear_seg_info :: "seg_info \<Rightarrow> seg_info" where
  "clear_seg_info data = data\<lparr>si_token_val_0 := 0, si_token_val_1 := 0\<rparr>"

definition ummu_destroy_seg_mng ::
    "seg_info range_table \<Rightarrow> seg_info range_table option \<times> seg_info list" where
  "ummu_destroy_seg_mng t = ummu_destroy_seg_tree t clear_seg_info"

definition seg_of_grant :: "data_info \<Rightarrow> seg_info" where
  "seg_of_grant di =
     (let s = \<lparr>si_start_addr = di_data_base di, si_grant_size = di_data_size di,
               si_permission = di_perm di, si_e_bit = di_e_bit di,
               si_token_check = ucast (di_token_check di), si_token_count = 0,
               si_token_val_0 = 0, si_token_val_1 = 0\<rparr>
      in if si_token_check s \<noteq> 0
         then s\<lparr>si_token_count := 1, si_token_val_0 := di_tokenval di,
                si_token_val_1 := di_tokenval di\<rparr>
         else s)"

definition ummu_insert_new_addr ::
    "os_env \<Rightarrow> seg_info range_table \<Rightarrow> data_info \<Rightarrow> world \<Rightarrow> (int \<times> seg_info range_table) \<times> world" where
  "ummu_insert_new_addr E t di w =
     (let (ok, w1) = c_malloc E w in
      if \<not> ok then ((- ENOMEM, t), w1)
      else let s = seg_of_grant di in
        (ummu_insert_seg s t (si_start_addr s) (si_grant_size s - 1), w1))"

definition ummu_delete_addr ::
    "seg_info range_table \<Rightarrow> data_info \<Rightarrow> int \<times> seg_info range_table \<times> seg_info list" where
  "ummu_delete_addr t di =
     ummu_delete_seg (di_data_base di) (di_data_size di - 1) t clear_seg_info"

text \<open>The found segment is changed in place, through the pointer kept in the map.\<close>

definition seg_modify :: "range \<Rightarrow> ('v \<Rightarrow> 'v) \<Rightarrow> 'v range_table \<Rightarrow> 'v range_table" where
  "seg_modify r f t = map (\<lambda>e. if fst e = r then (fst e, f (snd e)) else e) t"

definition seg_add_tokenval :: "u32 \<Rightarrow> seg_info \<Rightarrow> seg_info" where
  "seg_add_tokenval tokenval data =
     data\<lparr>si_token_val_1 := tokenval, si_token_count := of_nat UMMU_MAX_TOKEN_NUM\<rparr>"

definition ummu_token_update ::
    "seg_info range_table \<Rightarrow> data_info \<Rightarrow> grant_op \<Rightarrow> int \<times> seg_info range_table" where
  "ummu_token_update t di op =
     (let l = di_data_base di; n = di_data_size di - 1 in
      case fst (ummu_find_seg l n t) of
        None \<Rightarrow> (- EINVAL, t)
      | Some _ \<Rightarrow>
          if op = UMMU_REMOVE_TOKEN
          then (0, seg_modify (Range l n) (ummu_remove_tokenval (di_tokenval di)) t)
          else (0, seg_modify (Range l n) (seg_add_tokenval (di_tokenval di)) t))"

section \<open>Tokens of a segment\<close>

interpretation seg_tok: token_slots
  "\<lambda>s. (si_token_val_0 s, si_token_val_1 s)" "\<lambda>s. unat (si_token_count s)" "\<lambda>s. True"
  "\<lambda>s d. (0, seg_add_tokenval (di_tokenval d) s)"
  "\<lambda>s d. (0, ummu_remove_tokenval (di_tokenval d) s)"
  by unfold_locales
    (auto simp: seg_add_tokenval_def ummu_remove_tokenval_def UMMU_MAX_TOKEN_NUM_def Let_def)

section \<open>The table of granted segments\<close>

lemma seg_modify_keys [simp]: "map fst (seg_modify r f t) = map fst t"
  by (induction t) (auto simp: seg_modify_def)

lemma seg_wf_modify: "seg_wf t \<Longrightarrow> seg_wf (seg_modify r f t)"
  unfolding seg_wf_def by (simp only: seg_modify_keys) (auto simp: seg_modify_def)

lemma set_seg_modify:
  "set (seg_modify r f t) = {(k, if k = r then f v else v) | k v. (k, v) \<in> set t}"
  by (force simp: seg_modify_def)

text \<open>The size field of a request is the number of bytes, one more than the range's length.\<close>

definition request_ok :: "data_info \<Rightarrow> bool" where
  "request_ok di \<longleftrightarrow> 0 < unat (di_data_size di) \<and>
     unat (di_data_base di) + unat (di_data_size di) \<le> 2 ^ 48"

definition request_range :: "data_info \<Rightarrow> range" where
  "request_range di = Range (di_data_base di) (di_data_size di - 1)"

lemma unat_size_minus_1: "0 < unat n \<Longrightarrow> unat (n - 1) = unat n - 1" for n :: u64
  by (metis unat_minus_one unat_0 less_numeral_extra(3))

lemma request_range_ok: "request_ok di \<Longrightarrow> range_ok (di_data_base di) (di_data_size di - 1)"
  by (auto simp: request_ok_def range_ok_def unat_size_minus_1)

lemma map_of_seg: "seg_wf t \<Longrightarrow> map_of t r = Some v \<longleftrightarrow> (r, v) \<in> set t"
proof
  assume wf: "seg_wf t" and m: "(r, v) \<in> set t"
  then obtain u where u: "map_of t r = Some u" by (metis weak_map_of_SomeI)
  have "overlaps r r" using wf m by (auto simp: overlaps_def range_less seg_wf_def)
  with seg_wf_separate [OF wf map_of_SomeD [OF u] m] u show "map_of t r = Some v" by simp
qed (rule map_of_SomeD)

lemma find_seg_map_of:
  assumes "seg_wf t" "range_ok l n"
  shows "ummu_find_seg l n t =
    (case map_of t (Range l n) of
       Some v \<Rightarrow> (Some v, RANGE_MATCH)
     | None \<Rightarrow> if \<exists>(r, s) \<in> set t. overlaps r (Range l n) then (None, RANGE_OVERLAP)
         else (None, RANGE_NOT_EXIST))"
proof (cases "map_of t (Range l n)")
  case None
  then have "\<nexists>v. (Range l n, v) \<in> set t" by (force simp: map_of_eq_None_iff)
  then show ?thesis using None by (simp add: find_seg_spec [OF assms])
next
  case (Some v)
  then have "ummu_find_seg l n t = (Some v, RANGE_MATCH)"
    using seg.find_match [OF assms] map_of_SomeD by fast
  then show ?thesis using Some by simp
qed

lemma map_of_modify:
  "map_of (seg_modify r f t) k = (if k = r then map_option f (map_of t k) else map_of t k)"
  by (induction t) (auto simp: seg_modify_def)

text \<open>A TID in table mode whose segment table is well formed.\<close>

definition table_segs :: "mapt_info \<Rightarrow> seg_info range_table \<Rightarrow> bool" where
  "table_segs mi t \<longleftrightarrow> mi_mode mi \<noteq> MAPT_MODE_ENTRY \<and> seg_wf t \<and>
     (\<exists>ctx. mi_block_base mi = TableBase ctx \<and> tc_granted_addr_mng ctx = Some t)"

lemma grant_check_table:
  assumes "table_segs mi t" "request_ok di"
  shows "ummu_grant_check mi di = Some
    (case map_of t (request_range di) of
       Some s \<Rightarrow> ummu_table_param_check s di
     | None \<Rightarrow> if \<exists>(r, s) \<in> set t. overlaps r (request_range di) then UMMU_OP_END else UMMU_GRANT)"
  using assms request_range_ok [OF assms(2)]
  by (fastforce simp: table_segs_def ummu_grant_check_def find_seg_map_of request_range_def
      split: option.splits)

lemma ungrant_check_table:
  assumes "table_segs mi t" "request_ok di"
  shows "ummu_ungrant_check mi di = Some
    (case map_of t (request_range di) of
       Some s \<Rightarrow> ummu_ungrant_param_check s di | None \<Rightarrow> UMMU_OP_END)"
  using assms request_range_ok [OF assms(2)]
  by (auto simp: table_segs_def ummu_ungrant_check_def find_seg_map_of request_range_def
      split: option.splits)

lemma seg_of_grant_fields [simp]:
  "si_start_addr (seg_of_grant di) = di_data_base di" "si_grant_size (seg_of_grant di) = di_data_size di"
  "si_permission (seg_of_grant di) = di_perm di" "si_e_bit (seg_of_grant di) = di_e_bit di"
  "si_token_check (seg_of_grant di) = ucast (di_token_check di)"
  by (simp_all add: seg_of_grant_def Let_def)

lemma insert_new_addr_free:
  assumes "seg_wf t" "request_ok di" "\<nexists>r s. (r, s) \<in> set t \<and> overlaps r (request_range di)"
    "os_malloc E (clock w)"
  obtains t' where "ummu_insert_new_addr E t di w = ((0, t'), tick w)" "seg_wf t'"
    "map_of t' = (map_of t)(request_range di \<mapsto> seg_of_grant di)"
proof -
  note ok = request_range_ok [OF assms(2)]
  have "snd (ummu_find_seg (di_data_base di) (di_data_size di - 1) t) = RANGE_NOT_EXIST"
    using seg.find_free [OF assms(1) ok] assms(3) by (auto simp: request_range_def)
  from seg.insert_free [OF assms(1) ok this, of "seg_of_grant di"] obtain t' where
    t': "ummu_insert_seg (seg_of_grant di) t (di_data_base di) (di_data_size di - 1) = (0, t')"
    "seg_wf t'" "set t' = insert (request_range di, seg_of_grant di) (set t)"
    by (metis request_range_def)
  have "\<nexists>s. (request_range di, s) \<in> set t"
    using assms(3) seg.self_overlap [OF ok] by (auto simp: request_range_def)
  then have "map_of t' k = Some v \<longleftrightarrow> ((map_of t)(request_range di \<mapsto> seg_of_grant di)) k = Some v" for k v
    using t'(3) by (auto simp: map_of_seg [OF t'(2)] map_of_seg [OF assms(1)])
  then have "map_of t' = (map_of t)(request_range di \<mapsto> seg_of_grant di)"
    by (intro ext) (metis not_Some_eq)
  with t' assms(4) that show ?thesis by (simp add: ummu_insert_new_addr_def c_malloc_def Let_def)
qed

lemma delete_addr_granted:
  assumes "seg_wf t" "request_ok di" "map_of t (request_range di) = Some s"
  obtains t' where "ummu_delete_addr t di = (0, t', [clear_seg_info s])" "seg_wf t'"
    "map_of t' = (map_of t)(request_range di := None)"
proof -
  note ok = request_range_ok [OF assms(2)]
  have mem: "(Range (di_data_base di) (di_data_size di - 1), s) \<in> set t"
    using assms(3) by (simp add: request_range_def map_of_SomeD)
  then have ex: "\<exists>s. (Range (di_data_base di) (di_data_size di - 1), s) \<in> set t" by blast
  from delete_seg_spec [OF assms(1) ok, of clear_seg_info, unfolded if_P [OF ex]]
  obtain v t' where v: "(request_range di, v) \<in> set t"
    and t': "ummu_delete_addr t di = (0, t', [clear_seg_info v])" "seg_wf t'"
      "set t' = {e \<in> set t. fst e \<noteq> request_range di}"
    unfolding ummu_delete_addr_def request_range_def by blast
  have "v = s" using v assms(3) by (simp add: map_of_seg [OF assms(1), symmetric])
  have "map_of t' k = Some u \<longleftrightarrow> ((map_of t)(request_range di := None)) k = Some u" for k u
    using t'(3) by (auto simp: map_of_seg [OF t'(2)] map_of_seg [OF assms(1)])
  then have "map_of t' = (map_of t)(request_range di := None)"
    by (intro ext) (metis not_Some_eq)
  with t' \<open>v = s\<close> that show ?thesis by blast
qed

lemma token_update_granted:
  assumes "seg_wf t" "request_ok di" "map_of t (request_range di) = Some s"
  obtains t' where "ummu_token_update t di op = (0, t')" "seg_wf t'"
    "map_of t' = (map_of t)(request_range di \<mapsto>
       (if op = UMMU_REMOVE_TOKEN then ummu_remove_tokenval (di_tokenval di) s
        else seg_add_tokenval (di_tokenval di) s))"
proof -
  let ?f = "if op = UMMU_REMOVE_TOKEN then ummu_remove_tokenval (di_tokenval di)
    else seg_add_tokenval (di_tokenval di)"
  have "ummu_token_update t di op = (0, seg_modify (request_range di) ?f t)"
    using assms request_range_ok [OF assms(2)]
    by (simp add: ummu_token_update_def find_seg_map_of request_range_def Let_def)
  moreover have "map_of (seg_modify (request_range di) ?f t) = (map_of t)(request_range di \<mapsto> ?f s)"
    using assms(3) by (auto simp: map_of_modify)
  ultimately show ?thesis using that seg_wf_modify [OF assms(1)] by (auto split: if_splits)
qed

section \<open>Properties\<close>

text \<open>C25: In table mode a request is classified by the granted segments alone.  A grant of a free
  range is a grant; a grant of a granted range becomes a token addition exactly when both use
  tokens, permission and e-bit agree and a slot is free; any other overlap is refused.  An
  ungrant needs an exact match, and with a token one of the segment's tokens: the last token
  ungrants the segment, one of two is only removed.\<close>

theorem request_classification:
  assumes "table_segs mi t" "request_ok di"
  shows "ummu_grant_check mi di = Some
      (case map_of t (request_range di) of
         Some s \<Rightarrow> if si_token_check s = 1 \<and> di_token_check di = 1 \<and> si_permission s = di_perm di \<and>
             si_e_bit s = di_e_bit di \<and> si_token_count s = 1 then UMMU_ADD_TOKEN else UMMU_OP_END
       | None \<Rightarrow> if \<exists>(r, s) \<in> set t. overlaps r (request_range di) then UMMU_OP_END else UMMU_GRANT) \<and>
    ummu_ungrant_check mi di = Some
      (case map_of t (request_range di) of
         Some s \<Rightarrow> if \<not> di_bytoken di then UMMU_UNGRANT
           else if si_token_check s \<noteq> 0 \<and> di_tokenval di \<in> {si_token_val_0 s, si_token_val_1 s}
           then (if si_token_count s = 1 then UMMU_UNGRANT
                 else if si_token_count s = 2 then UMMU_REMOVE_TOKEN else UMMU_OP_END)
           else UMMU_OP_END
       | None \<Rightarrow> UMMU_OP_END)"
  unfolding grant_check_table [OF assms] ungrant_check_table [OF assms]
  by (auto simp: ummu_table_param_check_def ummu_ungrant_param_check_def UMMU_MAX_TOKEN_NUM_def
      split: option.splits)

definition sample_table_mapt :: "seg_info range_table \<Rightarrow> mapt_info" where
  "sample_table_mapt t = \<lparr>mi_block_base = TableBase \<lparr>tc_expan = False, tc_block_cnt = 0, tc_blk_exp_size = 0,
       tc_granted_addr_mng = Some t, tc_level_block_bitmap = [], tc_mapt_block_base = None,
       tc_mapt_block_array = []\<rparr>,
     mi_tid = 5, mi_valid = 1, mi_double_plbi = 0, mi_kcmd_plbi = 0, mi_mode = MAPT_MODE_TABLE,
     mi_queue_ctx = \<lparr>qc_ummu_cnt = 0, qc_queue_size = 0, qc_cmd_que_pi_size = 0, qc_cpl_que_size = 0,
       qc_queue = None\<rparr>\<rparr>"

lemma sample_request_ok: "request_ok sample_request"
  by (simp add: request_ok_def sample_request_def)

theorem request_classification_witness:
  "ummu_grant_check (sample_table_mapt [(request_range sample_request, seg_of_grant sample_request)])
     sample_request = Some UMMU_ADD_TOKEN \<and>
   ummu_ungrant_check (sample_table_mapt [(request_range sample_request, seg_of_grant sample_request)])
     sample_request = Some UMMU_UNGRANT"
proof -
  let ?t = "[(request_range sample_request, seg_of_grant sample_request)]"
  have "table_segs (sample_table_mapt ?t) ?t"
    by (simp add: table_segs_def sample_table_mapt_def seg_wf_def request_range_def Range_def
        sample_request_def ummu_consts)
  from request_classification [OF this sample_request_ok] show ?thesis
    by (simp add: sample_request_def seg_of_grant_def Let_def)
qed

text \<open>C26: The software copy follows the requests.  Recording a grant of a free range adds exactly
  that segment with its attributes and its token, or fails with -ENOMEM and changes nothing;
  deleting it again restores the table, and the tokens of the deleted segment are zero when
  its memory is freed.\<close>

theorem segment_record_lifecycle:
  assumes "seg_wf t" "request_ok di" "\<nexists>r s. (r, s) \<in> set t \<and> overlaps r (request_range di)"
  shows "if os_malloc E (clock w)
    then \<exists>t1 t2 s. ummu_insert_new_addr E t di w = ((0, t1), tick w) \<and> seg_wf t1 \<and>
      map_of t1 = (map_of t)(request_range di \<mapsto> seg_of_grant di) \<and>
      ummu_delete_addr t1 di = (0, t2, [s]) \<and> seg_wf t2 \<and> map_of t2 = map_of t \<and>
      si_token_val_0 s = 0 \<and> si_token_val_1 s = 0
    else ummu_insert_new_addr E t di w = ((- ENOMEM, t), tick w)"
proof (cases "os_malloc E (clock w)")
  case True
  from insert_new_addr_free [OF assms True] obtain t1 where
    t1: "ummu_insert_new_addr E t di w = ((0, t1), tick w)" "seg_wf t1"
      "map_of t1 = (map_of t)(request_range di \<mapsto> seg_of_grant di)" .
  from delete_addr_granted [OF t1(2) assms(2), of "seg_of_grant di"] t1(3) obtain t2 where
    t2: "ummu_delete_addr t1 di = (0, t2, [clear_seg_info (seg_of_grant di)])" "seg_wf t2"
      "map_of t2 = (map_of t1)(request_range di := None)" by auto
  have "map_of t (request_range di) = None"
    using assms(3) seg.self_overlap [OF request_range_ok [OF assms(2)]]
    by (fastforce simp: request_range_def map_of_eq_None_iff)
  then have "map_of t2 = map_of t" using t2(3) t1(3) by (auto simp: fun_eq_iff)
  with t1 t2 True show ?thesis by (auto simp: clear_seg_info_def)
qed (simp add: ummu_insert_new_addr_def c_malloc_def)

theorem segment_record_lifecycle_witness:
  "\<exists>t1 t2 s. ummu_insert_new_addr quiet_env [] sample_request world0 = ((0, t1), tick world0) \<and>
     map_of t1 (request_range sample_request) = Some (seg_of_grant sample_request) \<and>
     ummu_delete_addr t1 sample_request = (0, t2, [s]) \<and> map_of t2 (request_range sample_request) = None \<and>
     si_token_val_0 s = 0 \<and> si_token_val_1 s = 0"
proof -
  have m: "os_malloc quiet_env (clock world0)" by (simp add: quiet_env_def)
  have w: "seg_wf []" by (simp add: seg_wf_def)
  from segment_record_lifecycle [OF w sample_request_ok, of quiet_env world0, simplified m]
  show ?thesis by fastforce
qed

text \<open>C38: Destroying the segment manager frees every segment once, and the tokens of all of them are
  zero at that moment.\<close>

theorem destroy_scrubs_tokens:
  "\<exists>freed. ummu_destroy_seg_mng t = (None, freed) \<and> length freed = length t \<and>
     (\<forall>i < length t. freed ! i = (snd (t ! i))\<lparr>si_token_val_0 := 0, si_token_val_1 := 0\<rparr>)"
  by (simp add: ummu_destroy_seg_mng_def ummu_destroy_seg_tree_def destroy_loop_eq clear_seg_info_def)

theorem destroy_scrubs_tokens_witness:
  "\<exists>freed. ummu_destroy_seg_mng [(request_range sample_request, seg_of_grant sample_request)] = (None, freed) \<and>
     freed ! 0 = (seg_of_grant sample_request)\<lparr>si_token_val_0 := 0, si_token_val_1 := 0\<rparr>"
  using destroy_scrubs_tokens [of "[(request_range sample_request, seg_of_grant sample_request)]"] by auto

end
