(* ===== verification/Ummu_Queue.thy ===== *)
theory Ummu_Queue
  imports Ummu_SegMng
begin

text \<open>
  \<^verbatim>\<open>src/ummu_queue.c\<close>: the user-mode command and completion queues.  An index carries a wrap
  bit above the slot number.  The device is \<open>dev_poll\<close> of \<open>Ummu_Os\<close>: each time the library
  looks at a control page it sees values the device may have changed.  The locale
  \<open>ring_index\<close> states what a ring needs from the index function; the lemmas on both queues
  are proved from it.
\<close>

section \<open>Index arithmetic\<close>

definition MAX_CMD_QUE_INDEX :: "u16 \<Rightarrow> u64" where
  "MAX_CMD_QUE_INDEX sz = push_bit (unat sz) 1 - 1"

text \<open>The operands of \<^verbatim>\<open>Q_WRAP\<close> and \<^verbatim>\<open>Q_IDX\<close> are promoted to \<^verbatim>\<open>int\<close>.\<close>

definition Q_WRAP :: "u16 \<Rightarrow> u16 \<Rightarrow> int" where
  "Q_WRAP idx sz = uint idx AND push_bit (unat sz) 1"

definition Q_IDX :: "u16 \<Rightarrow> u16 \<Rightarrow> int" where
  "Q_IDX idx sz = uint idx AND (push_bit (unat sz) 1 - 1)"

definition queue_has_space :: "u16 \<Rightarrow> u16 \<Rightarrow> u16 \<Rightarrow> u16 \<Rightarrow> bool" where
  "queue_has_space pi ci sz n =
     (let ci_rd = word_of_int (Q_IDX ci sz) :: u16;
          pi_wr = word_of_int (Q_IDX pi sz) :: u16;
          space = (if Q_WRAP pi sz = Q_WRAP ci sz
                   then word_of_int (push_bit (unat sz) 1 - (uint pi_wr - uint ci_rd)) :: u16
                   else word_of_int (uint ci_rd - uint pi_wr))
      in n \<le> space)"

definition ummu_update_queue_index :: "u16 \<Rightarrow> u16 \<Rightarrow> u16" where
  "ummu_update_queue_index index sz =
     (let max_que = ucast (MAX_CMD_QUE_INDEX sz) :: u16;
          idx = index AND max_que;
          idx_wrap = drop_bit (unat sz) index;
          (idx_wrap', idx') = (if idx = max_que then (idx_wrap XOR 1, 0) else (idx_wrap, idx + 1))
      in push_bit (unat sz) idx_wrap' OR idx')"

section \<open>Creation\<close>

definition CMD_ENTRY_SHIFT :: u8 where "CMD_ENTRY_SHIFT = 4"
definition CPL_ENTRY_SHIFT :: u8 where "CPL_ENTRY_SHIFT = 2"

fun queue_init_loop :: "os_env \<Rightarrow> tid_info \<Rightarrow> nat \<Rightarrow> u64 \<Rightarrow> nat \<Rightarrow> nat \<Rightarrow> u64 \<Rightarrow> queue_args list" where
  "queue_init_loop E info c sz i 0 start = []"
| "queue_init_loop E info c sz i (Suc k) start =
     (let (cmds, cpls, ctrl) = os_queue_mem E c i in
      \<lparr>qa_cmd_entry = start,
       qa_cpl_entry = start + os_getpagesize E * push_bit (unat (tf_pcmdq_order info)) 1,
       qa_ctrl_page = start + os_getpagesize E *
         (push_bit (unat (tf_pcmdq_order info)) 1 +
          ucast (push_bit (unat (tf_pcplq_order info)) 1 :: u32)),
       qm_cmd = cmds, qm_cpl = cpls, qm_ctrl = ctrl\<rparr>
      # queue_init_loop E info c sz (Suc i) k (start + sz))"

text \<open>
  \<open>None\<close>: a shift by more than its width, which is undefined: \<^verbatim>\<open>1UL << order\<close> from 64 on,
  \<^verbatim>\<open>1U << info->pcplq_order\<close> in the loop over the queues from 32 on.
\<close>

definition ummu_queue_create ::
    "os_env \<Rightarrow> mapt_info \<Rightarrow> tid_info \<Rightarrow> int \<Rightarrow> world \<Rightarrow> ((int \<times> mapt_info) \<times> world) option" where
  "ummu_queue_create E mi info fd w =
     (if mi_kcmd_plbi mi \<noteq> 0 then Some ((0, mi), w)
      else
        let ummu_cnt = tf_ummu_cnt info; (ok, w1) = c_malloc E w in
        if \<not> ok then Some ((- ENOMEM, mi), w1)
        else if 64 \<le> unat (tf_pcmdq_order info) \<or> 64 \<le> unat (tf_pcplq_order info) then None
        else
          let sz = os_getpagesize E *
                (1 + push_bit (unat (tf_pcmdq_order info)) 1 + push_bit (unat (tf_pcplq_order info)) 1);
              queue_size = sz * ucast ummu_cnt;
              (start_addr, w2) = ummu_get_core_buf E (mi_tid mi) BASE_MODE_QUEUE queue_size fd 0 w1
          in if CORE_BUF_CHECK_INVALID start_addr then Some ((- ENOMEM, mi), w2)
             else if 0 < ummu_cnt \<and> 32 \<le> unat (tf_pcplq_order info) then None
             else
               let queue = queue_init_loop E info (clock w1) sz 0 (unat ummu_cnt) start_addr;
                   qc = \<lparr>qc_ummu_cnt = ummu_cnt, qc_queue_size = queue_size,
                         qc_cmd_que_pi_size = ucast (tf_pcmdq_order info) +
                           ucast (of_nat (PAGE_SHIFT E) :: u8) - ucast CMD_ENTRY_SHIFT,
                         qc_cpl_que_size = ucast (tf_pcplq_order info) +
                           ucast (of_nat (PAGE_SHIFT E) :: u8) - ucast CPL_ENTRY_SHIFT,
                         qc_queue = Some queue\<rparr>
               in Some ((0, mi\<lparr>mi_queue_ctx := qc\<rparr>), w2))"

section \<open>Sending commands\<close>

definition MAX_WAIT_NOT_FULL_TIMES :: nat where "MAX_WAIT_NOT_FULL_TIMES = 300"
definition WAIT_NOT_FULL_INTERVAL_US :: nat where "WAIT_NOT_FULL_INTERVAL_US = 25"
definition WAIT_NOT_FULL_DIVIDEND :: nat where "WAIT_NOT_FULL_DIVIDEND = 5"
definition WAIT_CPLQ_TIMES :: nat where "WAIT_CPLQ_TIMES = 4"
definition WAIT_CPLQ_INTERVAL_US :: nat where "WAIT_CPLQ_INTERVAL_US = 2"
definition CMD_NUM_PER_PLBI :: nat where "CMD_NUM_PER_PLBI = 2"
definition PSYNC_OP :: u8 where "PSYNC_OP = 1"

text \<open>The loop that waits for space; \<open>False\<close> is the timeout.\<close>

fun wait_not_full ::
    "os_env \<Rightarrow> queue_args \<Rightarrow> u16 \<Rightarrow> u16 \<Rightarrow> nat \<Rightarrow> nat \<Rightarrow> world \<Rightarrow> bool \<times> queue_args \<times> world" where
  "wait_not_full E q sz n tms wait_interval w =
     (let (q1, w1) = dev_poll E q w in
      if queue_has_space (ct_ucmdq_pi (qm_ctrl q1)) (ct_ucmdq_ci (qm_ctrl q1)) sz n
      then (True, q1, w1)
      else
        let w2 = sys_usleep wait_interval w1 in
        case tms of
          0 \<Rightarrow> (False, q1, w2)
        | Suc t \<Rightarrow> wait_not_full E q1 sz n t
            (WAIT_NOT_FULL_INTERVAL_US * ((MAX_WAIT_NOT_FULL_TIMES - t) mod WAIT_NOT_FULL_DIVIDEND)) w2)"

text \<open>The loop over \<^verbatim>\<open>plbi_num\<close>: the command memory, \<^verbatim>\<open>pi_wr\<close> and \<^verbatim>\<open>pi_sync\<close>.\<close>

fun write_pairs ::
    "cmd_entry \<Rightarrow> cmd_entry \<Rightarrow> u16 \<Rightarrow> nat \<Rightarrow> (nat \<Rightarrow> cmd_entry) \<times> u16 \<times> u16 \<Rightarrow>
     (nat \<Rightarrow> cmd_entry) \<times> u16 \<times> u16" where
  "write_pairs cmd_plbi cmd_psync sz 0 s = s"
| "write_pairs cmd_plbi cmd_psync sz (Suc k) (mem, pi_wr, pi_sync) =
     (let mem1 = mem(nat (Q_IDX pi_wr sz) := cmd_plbi);
          pi1 = ummu_update_queue_index pi_wr sz;
          mem2 = mem1(nat (Q_IDX pi1 sz) := cmd_psync);
          pi2 = ummu_update_queue_index pi1 sz
      in write_pairs cmd_plbi cmd_psync sz k (mem2, pi2, pi1))"

partial_function (option) cpl_loop ::
    "(nat \<Rightarrow> cpl_entry) \<Rightarrow> u16 \<Rightarrow> u16 \<Rightarrow> u16 \<Rightarrow> u16 \<Rightarrow> u16 \<Rightarrow> (int \<times> u16) option" where
  "cpl_loop cpl sz idx_mask pi_sync pi ci =
     (if pi \<noteq> ci then
        (let cur = cpl (unat (ci AND idx_mask)); ci' = ummu_update_queue_index ci sz in
         if cp_cmdq_ci cur = pi_sync then Some (0, ci')
         else cpl_loop cpl sz idx_mask pi_sync pi ci')
      else Some (- EAGAIN, ci))"

text \<open>
  The completion entries between consumer and producer index are stable while the library
  reads them, so one poll at the start suffices.  \<open>None\<close>: the loop does not end.
\<close>

definition ummu_get_cpl_psync ::
    "os_env \<Rightarrow> u16 \<Rightarrow> queue_args \<Rightarrow> u16 \<Rightarrow> world \<Rightarrow> (int \<times> queue_args \<times> world) option" where
  "ummu_get_cpl_psync E cpl_que_size q pi_sync w =
     (let (q1, w1) = dev_poll E q w;
          pi = ct_ucplq_pi (qm_ctrl q1);
          ci = ct_ucplq_ci (qm_ctrl q1);
          idx_mask = ucast (MAX_CMD_QUE_INDEX cpl_que_size) :: u16
      in if pi = ci then Some (- EINVAL, q1, w1)
         else do {
           (ret, ci') \<leftarrow> cpl_loop (qm_cpl q1) cpl_que_size idx_mask pi_sync pi ci;
           Some (ret, q1\<lparr>qm_ctrl := (qm_ctrl q1)\<lparr>ct_ucplq_ci := ci'\<rparr>\<rparr>, w1)
         })"

fun wait_cpl :: "os_env \<Rightarrow> u16 \<Rightarrow> queue_args \<Rightarrow> u16 \<Rightarrow> nat \<Rightarrow> world \<Rightarrow> (queue_args \<times> world) option" where
  "wait_cpl E sz q pi_sync 0 w = Some (q, w)"
| "wait_cpl E sz q pi_sync (Suc t) w = do {
     (ret, q1, w1) \<leftarrow> ummu_get_cpl_psync E sz q pi_sync w;
     if ret = 0 then Some (q1, w1)
     else if t = 0 then Some (q1, w1)
     else wait_cpl E sz q1 pi_sync t (sys_usleep (WAIT_CPLQ_INTERVAL_US * (WAIT_CPLQ_TIMES - t)) w1)
   }"

definition plbi_num :: "mapt_info \<Rightarrow> nat" where
  "plbi_num mi = (if mi_double_plbi mi \<noteq> 0 then 2 else 1)"

definition cmd_psync :: cmd_entry where
  "cmd_psync = \<lparr>ce_opcode = PSYNC_OP, ce_cqe_en = 1, ce_range = 0, ce_addr = 0\<rparr>"

definition send_on_queue ::
    "os_env \<Rightarrow> cmd_entry \<Rightarrow> queue_ctx \<Rightarrow> nat \<Rightarrow> queue_args \<Rightarrow> world \<Rightarrow>
     (int \<times> queue_args \<times> world) option" where
  "send_on_queue E cmd qc num q w =
     (let (ok, q1, w1) = wait_not_full E q (qc_cmd_que_pi_size qc) (of_nat (CMD_NUM_PER_PLBI * num))
            MAX_WAIT_NOT_FULL_TIMES WAIT_NOT_FULL_INTERVAL_US w
      in if \<not> ok then Some (- ETIMEDOUT, q1, w1)
         else
           let (mem, pi_wr, pi_sync) = write_pairs cmd cmd_psync (qc_cmd_que_pi_size qc) num
                 (qm_cmd q1, ct_ucmdq_pi (qm_ctrl q1), 0);
               q2 = q1\<lparr>qm_cmd := mem, qm_ctrl := (qm_ctrl q1)\<lparr>ct_ucmdq_pi := pi_wr\<rparr>\<rparr>
           in do {
             (q3, w2) \<leftarrow> wait_cpl E (qc_cpl_que_size qc) q2 pi_sync WAIT_CPLQ_TIMES w1;
             Some (0, q3, w2)
           })"

definition ummu_send_cmd ::
    "os_env \<Rightarrow> cmd_entry \<Rightarrow> mapt_info \<Rightarrow> nat \<Rightarrow> world \<Rightarrow> (int \<times> mapt_info \<times> world) option" where
  "ummu_send_cmd E cmd mi i w = do {
     qs \<leftarrow> qc_queue (mi_queue_ctx mi);
     q \<leftarrow> arr_rd qs i;
     (ret, q', w') \<leftarrow> send_on_queue E cmd (mi_queue_ctx mi) (plbi_num mi) q w;
     Some (ret, mi\<lparr>mi_queue_ctx := (mi_queue_ctx mi)\<lparr>qc_queue := Some (qs[i := q'])\<rparr>\<rparr>, w')
   }"

function log2_loop :: "u64 \<Rightarrow> u32 \<Rightarrow> u32" where
  "log2_loop temp idx = (if temp > 0 then log2_loop (drop_bit 1 temp) (idx + 1) else idx)"
  by pat_completeness auto
termination
proof (relation "measure (\<lambda>(temp, idx). unat temp)")
  fix temp :: u64 and idx :: u32
  assume "temp > 0"
  then show "((drop_bit 1 temp, idx + 1), temp, idx) \<in> measure (\<lambda>(temp, idx). unat temp)"
    by (simp only: in_measure prod.case unat_drop_bit) (simp add: unat_gt_0 word_neq_0_conv)
qed simp

definition get_minist_log2size_range :: "u64 \<Rightarrow> u32" where
  "get_minist_log2size_range sz = log2_loop (if sz > 0 then sz - 1 else 0) 0"

definition ummu_send_plbi ::
    "os_env \<Rightarrow> int \<Rightarrow> cmd_entry \<Rightarrow> mapt_info \<Rightarrow> tid_info \<Rightarrow> world \<Rightarrow> (mapt_info \<times> world) option" where
  "ummu_send_plbi E fd cmd mi info w =
     (if mi_kcmd_plbi mi = 0
      then fold_opt (\<lambda>i (m, w). do { (_, m', w') \<leftarrow> ummu_send_cmd E cmd m i w; Some (m', w') })
             [0..<unat (qc_ummu_cnt (mi_queue_ctx mi))] (mi, w)
      else Some (mi, ummu_kcmd_plbi E fd info (ce_opcode cmd) w))"

definition ummu_plbi_va_cmd ::
    "os_env \<Rightarrow> int \<Rightarrow> mapt_info \<Rightarrow> data_info \<Rightarrow> world \<Rightarrow> (mapt_info \<times> world) option" where
  "ummu_plbi_va_cmd E fd mi di w =
     ummu_send_plbi E fd
       \<lparr>ce_opcode = PLBI_VA_OP, ce_cqe_en = 0,
        ce_range = ucast (get_minist_log2size_range (di_data_size di)), ce_addr = di_data_base di\<rparr>
       mi (zero_tid_info\<lparr>tf_tid := mi_tid mi, tf_va := di_data_base di, tf_size := di_data_size di\<rparr>) w"

definition ummu_send_user_all ::
    "os_env \<Rightarrow> int \<Rightarrow> mapt_info \<Rightarrow> world \<Rightarrow> (mapt_info \<times> world) option" where
  "ummu_send_user_all E fd mi w =
     ummu_send_plbi E fd \<lparr>ce_opcode = PLBI_ALL_OP, ce_cqe_en = 0, ce_range = 0, ce_addr = 0\<rparr>
       mi (zero_tid_info\<lparr>tf_tid := mi_tid mi\<rparr>) w"

definition ummu_queue_destroy ::
    "os_env \<Rightarrow> int \<Rightarrow> mapt_info \<Rightarrow> world \<Rightarrow> (mapt_info \<times> world) option" where
  "ummu_queue_destroy E fd mi w = do {
     (mi1, w1) \<leftarrow> ummu_send_user_all E fd mi w;
     if mi_kcmd_plbi mi1 \<noteq> 0 then Some (mi1, w1)
     else do {
       qs \<leftarrow> qc_queue (mi_queue_ctx mi1);
       q0 \<leftarrow> arr_rd qs 0;
       Some (mi1\<lparr>mi_queue_ctx := (mi_queue_ctx mi1)\<lparr>qc_queue := None\<rparr>\<rparr>,
         ummu_free_core_buf BASE_MODE_QUEUE (qa_cmd_entry q0) (qc_queue_size (mi_queue_ctx mi1)) w1)
     }
   }"

text \<open>Code equations, so that a run of the whole library can be evaluated.\<close>

declare cpl_loop.simps [code]

lemma write_pairs_code [code]:
  "write_pairs cmd_plbi psync sz n s =
     (if n = 0 then s
      else case s of (mem, pi_wr, pi_sync) \<Rightarrow>
        let mem1 = mem(nat (Q_IDX pi_wr sz) := cmd_plbi);
            pi1 = ummu_update_queue_index pi_wr sz;
            mem2 = mem1(nat (Q_IDX pi1 sz) := psync);
            pi2 = ummu_update_queue_index pi1 sz
        in write_pairs cmd_plbi psync sz (n - 1) (mem2, pi2, pi1))"
  by (cases n) (auto split: prod.split)

declare wait_not_full.simps [simp del] log2_loop.simps [simp del]

section \<open>Index arithmetic as numbers modulo \<open>2 ^ Suc s\<close>\<close>

lemma unat_push_bit: "2 ^ s * unat w < 2 ^ LENGTH('a) \<Longrightarrow> unat (push_bit s (w::'a::len word)) = 2 ^ s * unat w"
  by (simp only: unsigned_push_bit_eq) (simp add: push_bit_eq_mult take_bit_eq_mod mult.commute)

lemma unat_push_or:
  fixes w x :: "'a::len word"
  assumes "2 ^ s * unat w < 2 ^ LENGTH('a)" "unat x < 2 ^ s" "s < LENGTH('a)"
  shows "unat (push_bit s w OR x) = 2 ^ s * unat w + unat x"
proof -
  have "push_bit s w AND x = 0"
    by (rule bit_word_eqI) (auto simp: bit_and_iff bit_push_bit_iff dest: bit_less_exp [OF assms(2)])
  then have "push_bit s w OR x = push_bit s w + x" by (rule disjunctive_add_eq_or [symmetric])
  moreover have "2 ^ LENGTH('a) = 2 ^ s * (2 ^ (LENGTH('a) - s) :: nat)"
    using assms(3) by (simp flip: power_add)
  with assms(1) have "unat w + 1 \<le> 2 ^ (LENGTH('a) - s)" by simp
  then have "2 ^ s * (unat w + 1) \<le> 2 ^ LENGTH('a)"
    unfolding \<open>2 ^ LENGTH('a) = 2 ^ s * (2 ^ (LENGTH('a) - s) :: nat)\<close> by (rule mult_le_mono2)
  then have "2 ^ s * unat w + unat x < 2 ^ LENGTH('a)" using assms(2) by simp
  ultimately show ?thesis by (simp add: unat_push_bit [OF assms(1)] unat_plus_no_wrap)
qed

lemma Q_IDX_eq: "Q_IDX i sz = int (unat i mod 2 ^ unat sz)"
proof -
  have "Q_IDX i sz = take_bit (unat sz) (uint i)"
    by (simp add: Q_IDX_def take_bit_eq_mask mask_eq_exp_minus_1)
  then show ?thesis by (simp add: take_bit_eq_mod zmod_int)
qed

lemma cpl_index_mask: "int (unat (i AND (ucast (MAX_CMD_QUE_INDEX sz) :: u16))) = Q_IDX i sz"
proof -
  have m: "(ucast (MAX_CMD_QUE_INDEX sz) :: u16) = mask (unat sz)"
    unfolding MAX_CMD_QUE_INDEX_def push_bit_minus_1_eq_mask
    by (rule bit_word_eqI) (auto simp: bit_ucast_iff bit_mask_iff)
  show ?thesis unfolding m Q_IDX_eq unat_and_mask by simp
qed

lemma legal_div: "n < 2 ^ Suc s \<Longrightarrow> n div 2 ^ s = 0 \<or> n div 2 ^ s = (1::nat)"
proof -
  assume "n < 2 ^ Suc s"
  then have "n div 2 ^ s < 2" by (simp add: less_mult_imp_div_less)
  then show ?thesis by linarith
qed

lemma update_queue_index_nat:
  assumes s: "unat sz \<le> 15" and i: "unat i < 2 ^ Suc (unat sz)"
  shows "unat (ummu_update_queue_index i sz) = (unat i + 1) mod 2 ^ Suc (unat sz)"
proof -
  let ?s = "unat sz"
  have m: "(ucast (MAX_CMD_QUE_INDEX sz) :: u16) = mask ?s"
    unfolding MAX_CMD_QUE_INDEX_def push_bit_minus_1_eq_mask
    by (rule bit_word_eqI) (auto simp: bit_ucast_iff bit_mask_iff)
  have um: "unat (mask ?s :: u16) = 2 ^ ?s - 1" using s by (intro unat_mask_less) simp
  have idx: "unat (i AND mask ?s) = unat i mod 2 ^ ?s" by (rule unat_and_mask)
  have wrap: "unat (drop_bit ?s i) = unat i div 2 ^ ?s" by (rule unat_drop_bit)
  have dm: "unat i = 2 ^ ?s * (unat i div 2 ^ ?s) + unat i mod 2 ^ ?s" by simp
  have s16: "2 ^ ?s * 2 \<le> (2 ^ 16 :: nat)"
    using s power_increasing [of "Suc ?s" 16 "2::nat"] by simp
  show ?thesis
  proof (cases "i AND mask ?s = mask ?s")
    case True
    then have top: "unat i mod 2 ^ ?s = 2 ^ ?s - 1" using idx um by simp
    have "ummu_update_queue_index i sz = push_bit ?s (drop_bit ?s i XOR 1)"
      using True by (simp add: ummu_update_queue_index_def m)
    moreover from legal_div [OF i] have "drop_bit ?s i = 0 \<or> drop_bit ?s i = 1"
      using wrap by (metis unat_0 unat_1 word_unat_eq_iff)
    ultimately show ?thesis
    proof (elim disjE)
      assume z: "drop_bit ?s i = 0" and u: "ummu_update_queue_index i sz = push_bit ?s (drop_bit ?s i XOR 1)"
      from z wrap have "unat i div 2 ^ ?s = 0" by simp
      then have "unat i + 1 = 2 ^ ?s" using dm top by simp
      moreover have "unat (push_bit ?s 1 :: u16) = 2 ^ ?s" using s16 by (subst unat_push_bit) auto
      ultimately show ?thesis using u z by simp
    next
      assume z: "drop_bit ?s i = 1" and u: "ummu_update_queue_index i sz = push_bit ?s (drop_bit ?s i XOR 1)"
      from z wrap have "unat i div 2 ^ ?s = 1" by simp
      then have "unat i + 1 = 2 ^ Suc ?s" using dm top by simp
      then show ?thesis using u z by simp
    qed
  next
    case False
    then have "unat (i AND mask ?s) \<noteq> unat (mask ?s :: u16)" by (simp add: word_unat_eq_iff)
    moreover have "unat i mod 2 ^ ?s < 2 ^ ?s" by simp
    ultimately have low: "unat i mod 2 ^ ?s + 1 < 2 ^ ?s" using idx um by linarith
    then have x: "unat ((i AND mask ?s) + 1) = unat i mod 2 ^ ?s + 1"
      using idx s16 by (subst unat_plus_no_wrap) auto
    have "2 ^ ?s * unat (drop_bit ?s i) \<le> unat i" unfolding wrap by simp
    also have "\<dots> < 2 ^ LENGTH(16)" using i s16 by simp
    finally have w: "2 ^ ?s * unat (drop_bit ?s i) < 2 ^ LENGTH(16)" .
    have "ummu_update_queue_index i sz = push_bit ?s (drop_bit ?s i) OR ((i AND mask ?s) + 1)"
      using False by (simp only: ummu_update_queue_index_def m Let_def if_False prod.case)
    then have "unat (ummu_update_queue_index i sz) = unat i + 1"
      using unat_push_or [OF w, of "(i AND mask ?s) + 1"] x low s wrap dm by simp
    moreover have "2 ^ ?s * (unat i div 2 ^ ?s) \<le> 2 ^ ?s" using legal_div [OF i] by auto
    then have "unat i + 1 < 2 ^ Suc ?s" unfolding power_Suc using dm low by linarith
    ultimately show ?thesis by simp
  qed
qed

definition queue_used :: "nat \<Rightarrow> u16 \<Rightarrow> u16 \<Rightarrow> nat" where
  "queue_used s pi ci = (unat pi + 2 ^ Suc s - unat ci) mod 2 ^ Suc s"

lemma Q_WRAP_eq:
  assumes "unat i < 2 ^ Suc (unat sz)"
  shows "Q_WRAP i sz = int (2 ^ unat sz * (unat i div 2 ^ unat sz))"
proof -
  have "Q_WRAP i sz = (if bit (uint i) (unat sz) then 2 ^ unat sz else 0)"
    by (rule bit_eqI) (auto simp: Q_WRAP_def bit_and_iff bit_exp_iff)
  also have "bit (uint i) (unat sz) \<longleftrightarrow> bit (unat i) (unat sz)"
    by (simp add: bit_unsigned_iff)
  also have "\<dots> \<longleftrightarrow> odd (unat i div 2 ^ unat sz)" by (rule bit_iff_odd)
  finally show ?thesis using legal_div [OF assms] by auto
qed

lemma queue_has_space_iff:
  assumes s: "unat sz \<le> 15" and p: "unat pi < 2 ^ Suc (unat sz)" and c: "unat ci < 2 ^ Suc (unat sz)"
    and used: "queue_used (unat sz) pi ci \<le> 2 ^ unat sz"
  shows "queue_has_space pi ci sz n \<longleftrightarrow> queue_used (unat sz) pi ci + unat n \<le> 2 ^ unat sz"
proof -
  define N where "N = (2 ^ unat sz :: nat)"
  define a b wp wc where ab: "a = unat pi mod N" "b = unat ci mod N" "wp = unat pi div N" "wc = unat ci div N"
  have N: "2 ^ Suc (unat sz) = 2 * N" "0 < N" "N \<le> 2 ^ 15"
    using s power_increasing [of "unat sz" 15 "2::nat"] by (simp_all add: N_def)
  have lt: "a < N" "b < N" using N(2) by (simp_all add: ab)
  have pc: "unat pi = N * wp + a" "unat ci = N * wc + b" by (simp_all add: ab)
  have w: "wp = 0 \<or> wp = 1" "wc = 0 \<or> wc = 1"
    using legal_div [OF p] legal_div [OF c] by (simp_all add: ab N_def)
  have "Q_IDX pi sz = int a" "Q_IDX ci sz = int b" by (simp_all add: Q_IDX_eq ab N_def)
  then have idx: "uint (word_of_int (Q_IDX pi sz) :: u16) = int a"
      "uint (word_of_int (Q_IDX ci sz) :: u16) = int b"
    using lt N by (simp_all only: uint_word_of_int) simp_all
  have wr: "Q_WRAP pi sz = Q_WRAP ci sz \<longleftrightarrow> wp = wc"
    using N(2) by (simp add: Q_WRAP_eq [OF p] Q_WRAP_eq [OF c] ab N_def)
  have pw: "push_bit (unat sz) 1 = int N" by (simp add: N_def)
  show ?thesis
  proof (cases "wp = wc")
    case True
    have u: "queue_used (unat sz) pi ci = (2 * N + a - b) mod (2 * N)"
      using True lt unfolding queue_used_def N(1) pc by (simp add: add.commute)
    have ba: "b \<le> a"
    proof (rule ccontr)
      assume "\<not> b \<le> a"
      then have "(2 * N + a - b) mod (2 * N) = 2 * N + a - b" using lt by simp
      moreover have "queue_used (unat sz) pi ci \<le> N" using used unfolding N_def .
      ultimately show False using u lt by linarith
    qed
    then have "2 * N + a - b = 2 * N + (a - b)" by simp
    with u have "queue_used (unat sz) pi ci = (2 * N + (a - b)) mod (2 * N)" by (simp only:)
    also have "\<dots> = a - b" using lt by simp
    finally have u': "queue_used (unat sz) pi ci = a - b" .
    have "int N - (int a - int b) = int (N - (a - b))" using ba lt by simp
    then have "queue_has_space pi ci sz n \<longleftrightarrow> n \<le> word_of_int (int (N - (a - b)))"
      using True by (simp only: queue_has_space_def Let_def idx wr pw if_True refl)
    also have "\<dots> \<longleftrightarrow> unat n \<le> N - (a - b)"
      using N(3) by (simp only: word_le_nat_alt of_int_of_nat_eq unat_of_nat) simp
    finally show ?thesis using u' lt unfolding N_def [symmetric] by linarith
  next
    case False
    have u: "queue_used (unat sz) pi ci = (N + a - b) mod (2 * N)"
    proof -
      have "unat pi + 2 * N - unat ci = N + a - b + (if wp = 1 then 2 * N else 0)"
        using w False lt pc by auto
      then show ?thesis unfolding queue_used_def N(1) by simp
    qed
    have "(N + a - b) mod (2 * N) = N + a - b" using lt by simp
    moreover have "queue_used (unat sz) pi ci \<le> N" using used unfolding N_def .
    ultimately have ba: "a \<le> b" using u by linarith
    have "int b - int a = int (b - a)" using ba by simp
    then have "queue_has_space pi ci sz n \<longleftrightarrow> n \<le> word_of_int (int (b - a))"
      using False by (simp only: queue_has_space_def Let_def idx wr pw if_False)
    also have "\<dots> \<longleftrightarrow> unat n \<le> b - a"
      using N(3) lt by (simp only: word_le_nat_alt of_int_of_nat_eq unat_of_nat) simp
    finally show ?thesis using u \<open>(N + a - b) mod (2 * N) = N + a - b\<close> ba lt
      unfolding N_def [symmetric] by linarith
  qed
qed

lemma mod_add_inj: "x \<le> y \<Longrightarrow> y < N \<Longrightarrow> (u + x) mod N = (u + y) mod N \<Longrightarrow> x = (y::nat)"
  using mod_eq_dvd_iff_nat [of "u + x" "u + y" N] by (metis add_diff_cancel_left diff_is_0_eq
    dvd_imp_le le_antisym less_imp_diff_less not_less zero_less_diff nat_add_left_cancel_le)

section \<open>The contract of a ring index\<close>

definition ring_legal :: "nat \<Rightarrow> u16 \<Rightarrow> bool" where
  "ring_legal s i \<longleftrightarrow> s \<le> 15 \<and> unat i < 2 ^ Suc s"

locale ring_index =
  fixes s :: nat and nxt :: "u16 \<Rightarrow> u16"
  assumes nxt_law: "ring_legal s i \<Longrightarrow> unat (nxt i) = (unat i + 1) mod 2 ^ Suc s"
begin

lemma legal_nxt: "ring_legal s i \<Longrightarrow> ring_legal s (nxt i)"
  by (simp add: ring_legal_def nxt_law)

lemma unat_nxt_pow: "ring_legal s i \<Longrightarrow> unat ((nxt ^^ k) i) = (unat i + k) mod 2 ^ Suc s"
proof (induction k)
  case 0
  then show ?case by (simp add: ring_legal_def)
next
  case (Suc k)
  then have "unat ((nxt ^^ Suc k) i) = ((unat i + k) mod 2 ^ Suc s + 1) mod 2 ^ Suc s"
    using nxt_law [of "(nxt ^^ k) i"] by (simp add: ring_legal_def)
  then show ?case by (simp add: mod_Suc_eq)
qed

lemma legal_nxt_pow: "ring_legal s i \<Longrightarrow> ring_legal s ((nxt ^^ k) i)"
  using unat_nxt_pow [of i k] by (simp add: ring_legal_def)

text \<open>Every ring_legal s index is reached from every other in fewer than \<open>2 ^ Suc s\<close> steps.\<close>

lemma reach:
  assumes "ring_legal s i" "ring_legal s j"
  shows "(nxt ^^ queue_used s j i) i = j"
proof -
  let ?M = "2 ^ Suc s :: nat"
  have lt: "unat i < ?M" "unat j < ?M" using assms by (simp_all add: ring_legal_def)
  have "unat ((nxt ^^ queue_used s j i) i) = (unat i + (unat j + ?M - unat i) mod ?M) mod ?M"
    unfolding unat_nxt_pow [OF assms(1)] queue_used_def ..
  also have "\<dots> = (unat i + (unat j + ?M - unat i)) mod ?M" by (rule mod_add_right_eq)
  also have "unat i + (unat j + ?M - unat i) = unat j + ?M" using lt by simp
  also have "(unat j + ?M) mod ?M = unat j" using lt by simp
  finally show ?thesis by (simp add: word_unat_eq_iff)
qed

lemma used_nxt_pow:
  assumes "ring_legal s ci" "k < 2 ^ Suc s"
  shows "queue_used s ((nxt ^^ k) ci) ci = k"
proof -
  let ?M = "2 ^ Suc s :: nat"
  have lt: "unat ci < ?M" using assms by (simp add: ring_legal_def)
  have "queue_used s ((nxt ^^ k) ci) ci = ((unat ci + k) mod ?M + (?M - unat ci)) mod ?M"
    unfolding queue_used_def unat_nxt_pow [OF assms(1)] using lt by simp
  also have "\<dots> = (unat ci + k + (?M - unat ci)) mod ?M" by (rule mod_add_left_eq)
  also have "unat ci + k + (?M - unat ci) = k + ?M" using lt by simp
  finally show ?thesis using assms(2) by simp
qed

text \<open>The slots of an outstanding window of at most \<open>2 ^ s\<close> entries are distinct.\<close>

lemma slots_distinct:
  assumes "ring_legal s i" "a < 2 ^ s" "b < 2 ^ s"
    "unat ((nxt ^^ a) i) mod 2 ^ s = unat ((nxt ^^ b) i) mod 2 ^ s"
  shows "a = b"
proof -
  have m: "n mod 2 ^ Suc s mod 2 ^ s = n mod 2 ^ s" for n :: nat
    by (simp add: mod_mod_cancel)
  have "(unat i + a) mod 2 ^ s = (unat i + b) mod 2 ^ s"
    using assms(4) by (simp only: unat_nxt_pow [OF assms(1)] m)
  then show ?thesis using mod_add_inj [OF _ assms(3), of a] mod_add_inj [OF _ assms(2), of b]
    by (metis nat_le_linear)
qed

end

interpretation ring: ring_index "unat sz" "\<lambda>i. ummu_update_queue_index i sz" for sz
  by unfold_locales (simp add: ring_legal_def update_queue_index_nat del: power_Suc)

section \<open>The queue as a list of outstanding commands\<close>

definition pending :: "(nat \<Rightarrow> cmd_entry) \<Rightarrow> nat \<Rightarrow> u16 \<Rightarrow> u16 \<Rightarrow> cmd_entry list" where
  "pending mem s ci pi = map (\<lambda>k. mem ((unat ci + k) mod 2 ^ s)) [0..<queue_used s pi ci]"

lemma used_zero: fixes sz :: u16 shows "ring_legal (unat sz) i \<Longrightarrow> ring_legal (unat sz) j \<Longrightarrow> queue_used (unat sz) j i = 0 \<longleftrightarrow> i = j"
proof
  assume l: "ring_legal (unat sz) i" "ring_legal (unat sz) j" and z: "queue_used (unat sz) j i = 0"
  from ring.reach [OF l] z show "i = j" by simp
qed (simp add: queue_used_def)

lemma used_nxt:
  fixes sz :: u16
  assumes l: "ring_legal (unat sz) ci" "ring_legal (unat sz) pi" and lt: "queue_used (unat sz) pi ci < 2 ^ unat sz"
  shows "queue_used (unat sz) (ummu_update_queue_index pi sz) ci = Suc (queue_used (unat sz) pi ci)"
proof -
  let ?n = "\<lambda>i. ummu_update_queue_index i sz" and ?k = "queue_used (unat sz) pi ci"
  have "?n pi = (?n ^^ Suc ?k) ci" using ring.reach [OF l] by simp
  moreover have "Suc ?k < 2 ^ Suc (unat sz)" using lt by simp
  ultimately show ?thesis using ring.used_nxt_pow [OF l(1)] by metis
qed

lemma used_consume:
  fixes sz :: u16
  assumes l: "ring_legal (unat sz) ci" "ring_legal (unat sz) pi" and ne: "pi \<noteq> ci"
  shows "queue_used (unat sz) pi (ummu_update_queue_index ci sz) < queue_used (unat sz) pi ci"
proof -
  let ?n = "\<lambda>i. ummu_update_queue_index i sz" and ?k = "queue_used (unat sz) pi ci"
  have "?k \<noteq> 0" using used_zero [OF l] ne by auto
  then obtain m where m: "?k = Suc m" by (cases ?k) auto
  have "pi = (?n ^^ m) (?n ci)" using ring.reach [OF l] m by (simp only: funpow_Suc_right o_apply)
  moreover have "m < 2 ^ Suc (unat sz)" using m by (metis Suc_lessD mod_less_divisor queue_used_def zero_less_power zero_less_numeral)
  ultimately have "queue_used (unat sz) pi (?n ci) = m"
    using ring.used_nxt_pow [OF ring.legal_nxt [OF l(1)]] by metis
  then show ?thesis using m by simp
qed

lemma slot_eq: fixes sz :: u16 shows "ring_legal (unat sz) ci \<Longrightarrow> ring_legal (unat sz) pi \<Longrightarrow>
  unat pi mod 2 ^ unat sz = (unat ci + queue_used (unat sz) pi ci) mod 2 ^ unat sz"
proof -
  assume l: "ring_legal (unat sz) ci" "ring_legal (unat sz) pi"
  from ring.reach [OF l] ring.unat_nxt_pow [OF l(1)] 
  have "unat pi = (unat ci + queue_used (unat sz) pi ci) mod 2 ^ Suc (unat sz)" by metis
  then show ?thesis by (simp add: mod_mod_cancel)
qed

lemma enqueue_pending:
  fixes sz :: u16
  assumes l: "ring_legal (unat sz) ci" "ring_legal (unat sz) pi" and lt: "queue_used (unat sz) pi ci < 2 ^ unat sz"
  shows "pending (mem(nat (Q_IDX pi sz) := c)) (unat sz) ci (ummu_update_queue_index pi sz) =
    pending mem (unat sz) ci pi @ [c]"
proof -
  let ?s = "unat sz" and ?k = "queue_used (unat sz) pi ci"
  have slot: "nat (Q_IDX pi sz) = (unat ci + ?k) mod 2 ^ ?s" by (simp add: Q_IDX_eq slot_eq [OF l])
  have "(unat ci + j) mod 2 ^ ?s \<noteq> (unat ci + ?k) mod 2 ^ ?s" if "j < ?k" for j
    using mod_add_inj [of j ?k "2 ^ ?s" "unat ci"] that lt by auto
  then show ?thesis using used_nxt [OF l lt] by (simp add: pending_def slot)
qed

lemma write_pairs_pending:
  fixes sz :: u16
  assumes "ring_legal (unat sz) ci" "ring_legal (unat sz) pi" "queue_used (unat sz) pi ci + 2 * num \<le> 2 ^ unat sz"
    "write_pairs c d sz num (mem, pi, y) = (mem', pi', y')"
  shows "ring_legal (unat sz) pi' \<and> queue_used (unat sz) pi' ci = queue_used (unat sz) pi ci + 2 * num \<and>
    pending mem' (unat sz) ci pi' = pending mem (unat sz) ci pi @ concat (replicate num [c, d])"
  using assms
proof (induction num arbitrary: mem pi y)
  case (Suc num)
  let ?p1 = "ummu_update_queue_index pi sz"
  let ?p2 = "ummu_update_queue_index ?p1 sz"
  let ?m1 = "mem(nat (Q_IDX pi sz) := c)"
  let ?m2 = "?m1(nat (Q_IDX ?p1 sz) := d)"
  have l1: "ring_legal (unat sz) ?p1" and l2: "ring_legal (unat sz) ?p2" using Suc.prems(2) by (simp_all add: ring.legal_nxt)
  have lt: "queue_used (unat sz) pi ci < 2 ^ unat sz" using Suc.prems(3) by simp
  have u1: "queue_used (unat sz) ?p1 ci = Suc (queue_used (unat sz) pi ci)"
    by (rule used_nxt [OF Suc.prems(1,2) lt])
  have lt1: "queue_used (unat sz) ?p1 ci < 2 ^ unat sz" using Suc.prems(3) u1 by simp
  have u2: "queue_used (unat sz) ?p2 ci = Suc (Suc (queue_used (unat sz) pi ci))"
    using used_nxt [OF Suc.prems(1) l1 lt1] u1 by simp
  have "pending ?m2 (unat sz) ci ?p2 = pending mem (unat sz) ci pi @ [c, d]"
    using enqueue_pending [OF Suc.prems(1,2) lt, of mem c] enqueue_pending [OF Suc.prems(1) l1 lt1, of ?m1 d] by simp
  moreover have "write_pairs c d sz num (?m2, ?p2, ?p1) = (mem', pi', y')"
    using Suc.prems(4) by (simp add: Let_def)
  moreover have "queue_used (unat sz) ?p2 ci + 2 * num \<le> 2 ^ unat sz" using Suc.prems(3) u2 by simp
  ultimately show ?case using Suc.IH [where mem = ?m2, OF Suc.prems(1) l2] u2 by (simp del: fun_upd_apply)
qed simp

lemma consume_pending:
  fixes sz :: u16
  assumes l: "ring_legal (unat sz) ci" "ring_legal (unat sz) pi" and k: "k \<le> queue_used (unat sz) pi ci"
    and ci': "unat ci' = (unat ci + k) mod 2 ^ Suc (unat sz)"
  shows "ring_legal (unat sz) ci' \<and> queue_used (unat sz) pi ci' = queue_used (unat sz) pi ci - k \<and>
    pending mem (unat sz) ci' pi = drop k (pending mem (unat sz) ci pi)"
proof -
  let ?n = "\<lambda>i. ummu_update_queue_index i sz" and ?u = "queue_used (unat sz) pi ci"
  have c: "ci' = (?n ^^ k) ci" using ring.unat_nxt_pow [OF l(1), of k] ci' by (simp add: word_unat_eq_iff)
  have lc: "ring_legal (unat sz) ci'" unfolding c by (rule ring.legal_nxt_pow [OF l(1)])
  have "(?n ^^ ?u) ci = (?n ^^ (?u - k)) ci'" unfolding c using k by (simp flip: funpow_add [unfolded o_def, THEN fun_cong])
  then have "pi = (?n ^^ (?u - k)) ci'" using ring.reach [OF l] by simp
  moreover have "?u - k < 2 ^ Suc (unat sz)" by (rule le_less_trans [OF diff_le_self]) (simp add: queue_used_def)
  ultimately have u: "queue_used (unat sz) pi ci' = ?u - k" using ring.used_nxt_pow [OF lc] by metis
  have m: "((unat ci + k) mod 2 ^ Suc (unat sz) + j) mod 2 ^ unat sz = (unat ci + (k + j)) mod 2 ^ unat sz" for j
    using mod_add_left_eq [of "(unat ci + k) mod 2 ^ Suc (unat sz)" "2 ^ unat sz" j]
      mod_add_left_eq [of "unat ci + k" "2 ^ unat sz" j] by (simp add: mod_mod_cancel add.assoc)
  have "pending mem (unat sz) ci' pi = drop k (pending mem (unat sz) ci pi)"
    unfolding pending_def u ci' m by (rule nth_equalityI) (auto simp: add.commute)
  with lc u show ?thesis by simp
qed

text \<open>
  A queue is in order when its indices are legal and no more than a queue full of commands is
  outstanding.  \<open>device_ok\<close> is what the library relies on the hardware for: the consumer index
  only advances over published commands, and the completion producer index stays legal.
\<close>

definition queue_ok :: "u16 \<Rightarrow> u16 \<Rightarrow> queue_args \<Rightarrow> bool" where
  "queue_ok sz csz q \<longleftrightarrow> (let c = qm_ctrl q in
     ring_legal (unat sz) (ct_ucmdq_pi c) \<and> ring_legal (unat sz) (ct_ucmdq_ci c) \<and>
     queue_used (unat sz) (ct_ucmdq_pi c) (ct_ucmdq_ci c) \<le> 2 ^ unat sz \<and>
     ring_legal (unat csz) (ct_ucplq_pi c) \<and> ring_legal (unat csz) (ct_ucplq_ci c))"

definition outstanding :: "u16 \<Rightarrow> queue_args \<Rightarrow> cmd_entry list" where
  "outstanding sz q = pending (qm_cmd q) (unat sz) (ct_ucmdq_ci (qm_ctrl q)) (ct_ucmdq_pi (qm_ctrl q))"

definition device_ok :: "os_env \<Rightarrow> u16 \<Rightarrow> u16 \<Rightarrow> bool" where
  "device_ok E sz csz \<longleftrightarrow> (\<forall>c q ci pi cpl. os_device E c q = (ci, pi, cpl) \<longrightarrow> queue_ok sz csz q \<longrightarrow>
     ring_legal (unat csz) pi \<and>
     (\<exists>k \<le> queue_used (unat sz) (ct_ucmdq_pi (qm_ctrl q)) (ct_ucmdq_ci (qm_ctrl q)).
        unat ci = (unat (ct_ucmdq_ci (qm_ctrl q)) + k) mod 2 ^ Suc (unat sz)))"

lemma length_outstanding:
  "length (outstanding sz q) = queue_used (unat sz) (ct_ucmdq_pi (qm_ctrl q)) (ct_ucmdq_ci (qm_ctrl q))"
  by (simp add: outstanding_def pending_def)

lemma dev_poll_ok:
  assumes "device_ok E sz csz" "queue_ok sz csz q" "dev_poll E q w = (q1, w1)"
  shows "queue_ok sz csz q1 \<and> (\<exists>k. outstanding sz q1 = drop k (outstanding sz q))"
proof -
  obtain ci pi cpl where d: "os_device E (clock w) q = (ci, pi, cpl)" by (metis prod_cases3)
  with assms(3) have q1: "q1 = q\<lparr>qm_ctrl := (qm_ctrl q)\<lparr>ct_ucmdq_ci := ci, ct_ucplq_pi := pi\<rparr>, qm_cpl := cpl\<rparr>"
    by (simp add: dev_poll_def)
  from assms(1,2) d obtain k where k: "k \<le> queue_used (unat sz) (ct_ucmdq_pi (qm_ctrl q)) (ct_ucmdq_ci (qm_ctrl q))"
     "unat ci = (unat (ct_ucmdq_ci (qm_ctrl q)) + k) mod 2 ^ Suc (unat sz)" and p: "ring_legal (unat csz) pi"
    unfolding device_ok_def by blast
  note c = consume_pending [OF _ _ k, of "qm_cmd q"]
  from assms(2) c p have "queue_ok sz csz q1" by (auto simp: queue_ok_def q1 Let_def)
  moreover from assms(2) c have "outstanding sz q1 = drop k (outstanding sz q)"
    by (simp add: queue_ok_def q1 Let_def outstanding_def)
  ultimately show ?thesis by blast
qed

lemma wait_not_full_ok:
  assumes d: "device_ok E sz csz"
  shows "queue_ok sz csz q \<Longrightarrow> wait_not_full E q sz n t iv w = (b, q', w') \<Longrightarrow>
   queue_ok sz csz q' \<and> (\<exists>k. outstanding sz q' = drop k (outstanding sz q)) \<and>
   (b \<longleftrightarrow> length (outstanding sz q') + unat n \<le> 2 ^ unat sz) \<and> ct_ucmdq_pi (qm_ctrl q') = ct_ucmdq_pi (qm_ctrl q)"
proof (induction t arbitrary: q iv w)
  case 0
  obtain q1 w1 where p: "dev_poll E q w = (q1, w1)" by (cases "dev_poll E q w")
  note ok = dev_poll_ok [OF d 0(1) p]
  from 0(2) p have "q' = q1" "b = queue_has_space (ct_ucmdq_pi (qm_ctrl q1)) (ct_ucmdq_ci (qm_ctrl q1)) sz n"
    by (subst (asm) wait_not_full.simps; auto split: if_splits)+
  with ok dev_poll_fields(2) [OF p] show ?case
    by (auto simp: queue_ok_def Let_def ring_legal_def length_outstanding queue_has_space_iff simp del: power_Suc)
next
  case (Suc t)
  obtain q1 w1 where p: "dev_poll E q w = (q1, w1)" by (cases "dev_poll E q w")
  note ok = dev_poll_ok [OF d Suc.prems(1) p]
  show ?case
  proof (cases "queue_has_space (ct_ucmdq_pi (qm_ctrl q1)) (ct_ucmdq_ci (qm_ctrl q1)) sz n")
    case True
    with Suc.prems p have "b" "q' = q1" by (subst (asm) wait_not_full.simps; simp)+
    with ok True dev_poll_fields(2) [OF p] show ?thesis
      by (auto simp: queue_ok_def Let_def ring_legal_def length_outstanding queue_has_space_iff simp del: power_Suc)
  next
    case False
    with Suc.prems p have "wait_not_full E q1 sz n t (WAIT_NOT_FULL_INTERVAL_US *
      ((MAX_WAIT_NOT_FULL_TIMES - t) mod WAIT_NOT_FULL_DIVIDEND)) (sys_usleep iv w1) = (b, q', w')"
      by (subst (asm) wait_not_full.simps) (simp add: Let_def)
    from Suc.IH [OF _ this] ok dev_poll_fields(2) [OF p] show ?thesis by (metis drop_drop)
  qed
qed

lemma wait_not_full_sleeps:
  "wait_not_full E q sz n t iv w = (b, q', w') \<Longrightarrow>
   (if b then length (trace w') \<le> length (trace w) + t + 1 else length (trace w') = length (trace w) + t + 1)"
proof (induction t arbitrary: q iv w)
  case 0
  then show ?case
    by (subst (asm) wait_not_full.simps) (auto simp: dev_poll_def sys_usleep_def Let_def split: prod.splits if_splits)
next
  case (Suc t)
  obtain q1 w1 where p: "dev_poll E q w = (q1, w1)" by (cases "dev_poll E q w")
  then have w1: "w1 = tick w" by (rule dev_poll_fields)
  show ?case
  proof (cases "queue_has_space (ct_ucmdq_pi (qm_ctrl q1)) (ct_ucmdq_ci (qm_ctrl q1)) sz n")
    case True
    with Suc.prems p w1 show ?thesis by (subst (asm) wait_not_full.simps) auto
  next
    case False
    with Suc.prems p have "wait_not_full E q1 sz n t (WAIT_NOT_FULL_INTERVAL_US *
      ((MAX_WAIT_NOT_FULL_TIMES - t) mod WAIT_NOT_FULL_DIVIDEND)) (sys_usleep iv w1) = (b, q', w')"
      by (subst (asm) wait_not_full.simps) (simp add: Let_def)
    from Suc.IH [OF this] show ?thesis by (auto simp: sys_usleep_def w1 split: if_splits)
  qed
qed

text \<open>
  The scan of the completions looks at the window from the consumer to the producer index, in order, for
  the first one that names \<^verbatim>\<open>pi_sync\<close>.
\<close>

abbreviation que_next :: "u16 \<Rightarrow> nat \<Rightarrow> u16 \<Rightarrow> u16" where
  "que_next sz k \<equiv> (\<lambda>i. ummu_update_queue_index i sz) ^^ k"

lemma que_next_swap: "que_next sz k (ummu_update_queue_index i sz) = ummu_update_queue_index (que_next sz k i) sz"
  by (rule funpow_swap1 [symmetric])

lemma find_upt_Suc: "find P [0..<Suc n] = (if P 0 then Some 0 else map_option Suc (find (\<lambda>k. P (Suc k)) [0..<n]))"
proof -
  have "find P (map Suc xs) = map_option Suc (find (\<lambda>k. P (Suc k)) xs)" for xs by (induction xs) simp_all
  moreover have "[0..<Suc n] = 0 # map Suc [0..<n]" by (simp add: upt_conv_Cons map_Suc_upt del: upt_Suc)
  ultimately show ?thesis by simp
qed

lemma used_step:
  fixes sz :: u16
  assumes "ring_legal (unat sz) ci" "ring_legal (unat sz) pi" "ci \<noteq> pi"
  shows "queue_used (unat sz) pi ci = Suc (queue_used (unat sz) pi (ummu_update_queue_index ci sz))"
proof -
  let ?n = "\<lambda>i. ummu_update_queue_index i sz" and ?u = "queue_used (unat sz) pi ci"
  have "?u \<noteq> 0" using assms(3) used_zero [OF assms(1,2)] by simp
  then obtain k where k: "?u = Suc k" by (cases ?u) simp_all
  have "(?n ^^ k) (?n ci) = pi" using ring.reach [OF assms(1,2)] unfolding k by (simp add: que_next_swap)
  moreover have "k < 2 ^ Suc (unat sz)" using k by (metis Suc_lessD mod_less_divisor queue_used_def zero_less_numeral zero_less_power)
  ultimately have "queue_used (unat sz) pi (?n ci) = k" using ring.used_nxt_pow [OF ring.legal_nxt [OF assms(1)]] by metis
  with k show ?thesis by simp
qed

lemma cpl_loop_find:
  fixes sz :: u16
  assumes "ring_legal (unat sz) pi" "ring_legal (unat sz) ci"
  shows "cpl_loop cpl sz m ps pi ci =
    (case find (\<lambda>k. cp_cmdq_ci (cpl (unat (que_next sz k ci AND m))) = ps) [0..<queue_used (unat sz) pi ci] of
       Some k \<Rightarrow> Some (0, que_next sz (Suc k) ci) | None \<Rightarrow> Some (- EAGAIN, pi))"
  using assms(2)
proof (induction "queue_used (unat sz) pi ci" arbitrary: ci)
  case 0
  then have "ci = pi" using used_zero [OF 0(2) assms(1)] by simp
  then show ?case using 0(1) by (subst cpl_loop.simps) simp
next
  case (Suc n)
  then have ne: "pi \<noteq> ci" using used_zero [OF Suc.prems assms(1)] by auto
  let ?c = "ummu_update_queue_index ci sz"
  have n: "n = queue_used (unat sz) pi ?c" using used_step [OF Suc.prems assms(1) ne [symmetric]] Suc.hyps(2) by simp
  from Suc.hyps(1) [OF n ring.legal_nxt [OF Suc.prems]] ne show ?case
    unfolding Suc.hyps(2) [symmetric] find_upt_Suc n [symmetric]
    by (subst cpl_loop.simps) (simp add: Let_def que_next_swap split: option.split)
qed

lemma cpl_loop_returns:
  fixes sz :: u16
  assumes "ring_legal (unat sz) pi" "ring_legal (unat sz) ci"
  shows "\<exists>r ci'. cpl_loop cpl sz m ps pi ci = Some (r, ci') \<and> ring_legal (unat sz) ci'"
  unfolding cpl_loop_find [OF assms] using assms ring.legal_nxt_pow [OF assms(2)] ring.legal_nxt [OF ring.legal_nxt_pow [OF assms(2)]]
  by (simp split: option.split)


lemma get_cpl_psync_ok:
  assumes d: "device_ok E sz csz" and q: "queue_ok sz csz q"
  shows "\<exists>r q' w'. ummu_get_cpl_psync E csz q ps w = Some (r, q', w') \<and> queue_ok sz csz q' \<and>
    (\<exists>k. outstanding sz q' = drop k (outstanding sz q)) \<and> ct_ucmdq_pi (qm_ctrl q') = ct_ucmdq_pi (qm_ctrl q)"
proof -
  obtain q1 w1 where p: "dev_poll E q w = (q1, w1)" by (cases "dev_poll E q w")
  note ok = dev_poll_ok [OF d q p]
  then have l: "ring_legal (unat csz) (ct_ucplq_pi (qm_ctrl q1))" "ring_legal (unat csz) (ct_ucplq_ci (qm_ctrl q1))"
    by (simp_all add: queue_ok_def Let_def)
  from ok obtain k where k: "outstanding sz q1 = drop k (outstanding sz q)" by blast
  obtain r ci where c: "cpl_loop (qm_cpl q1) csz (ucast (MAX_CMD_QUE_INDEX csz)) ps (ct_ucplq_pi (qm_ctrl q1))
      (ct_ucplq_ci (qm_ctrl q1)) = Some (r, ci)" and lc: "ring_legal (unat csz) ci"
    using cpl_loop_returns [OF l] by blast
  let ?q2 = "q1\<lparr>qm_ctrl := (qm_ctrl q1)\<lparr>ct_ucplq_ci := ci\<rparr>\<rparr>"
  have "queue_ok sz csz ?q2" "outstanding sz ?q2 = drop k (outstanding sz q)"
    using ok lc k by (simp_all add: queue_ok_def outstanding_def Let_def)
  with c p ok dev_poll_fields(2) [OF p] show ?thesis
    by (cases "ct_ucplq_pi (qm_ctrl q1) = ct_ucplq_ci (qm_ctrl q1)") (auto simp: ummu_get_cpl_psync_def)
qed

lemma wait_cpl_ok:
  assumes d: "device_ok E sz csz"
  shows "queue_ok sz csz q \<Longrightarrow> \<exists>q' w'. wait_cpl E csz q ps t w = Some (q', w') \<and> queue_ok sz csz q' \<and>
    (\<exists>k. outstanding sz q' = drop k (outstanding sz q)) \<and> ct_ucmdq_pi (qm_ctrl q') = ct_ucmdq_pi (qm_ctrl q)"
proof (induction t arbitrary: q w)
  case 0
  then show ?case by (auto intro: exI [of _ 0])
next
  case (Suc t)
  from get_cpl_psync_ok [OF d Suc.prems] obtain r q1 w1 k where
    g: "ummu_get_cpl_psync E csz q ps w = Some (r, q1, w1)" "queue_ok sz csz q1"
      "outstanding sz q1 = drop k (outstanding sz q)" "ct_ucmdq_pi (qm_ctrl q1) = ct_ucmdq_pi (qm_ctrl q)" by blast
  show ?case
  proof (cases "r = 0 \<or> t = 0")
    case True
    with g show ?thesis by auto
  next
    case False
    obtain q2 w2 k2 where "wait_cpl E csz q1 ps t (sys_usleep (WAIT_CPLQ_INTERVAL_US * (WAIT_CPLQ_TIMES - t)) w1) = Some (q2, w2)"
      "queue_ok sz csz q2" "outstanding sz q2 = drop k2 (outstanding sz q1)" "ct_ucmdq_pi (qm_ctrl q2) = ct_ucmdq_pi (qm_ctrl q1)" using Suc.IH [OF g(2)] by blast
    with g False show ?thesis by (simp add: drop_drop) blast
  qed
qed

lemma drop_append_drop: "\<exists>n. drop k' (drop k xs @ ys) = drop n (xs @ ys)"
proof (cases "k \<le> length xs")
  case True
  then have "drop k' (drop k xs @ ys) = drop (k' + k) (xs @ ys)" by (simp flip: drop_drop)
  then show ?thesis ..
next
  case False
  then have "drop k' (drop k xs @ ys) = drop (k' + length xs) (xs @ ys)" by (simp flip: drop_drop)
  then show ?thesis ..
qed

lemma write_pairs_index: "write_pairs c d sz num (mem, pi, y) = (mem', pi', y') \<Longrightarrow> pi' = que_next sz (2 * num) pi"
proof (induction num arbitrary: mem pi y)
  case (Suc num)
  let ?p1 = "ummu_update_queue_index pi sz"
  have "write_pairs c d sz num (mem(nat (Q_IDX pi sz) := c, nat (Q_IDX ?p1 sz) := d), ummu_update_queue_index ?p1 sz, ?p1) = (mem', pi', y')"
    using Suc.prems by (simp add: Let_def)
  from Suc.IH [OF this] show ?case by (simp add: que_next_swap)
qed simp

lemma send_on_queue_ok:
  assumes d: "device_ok E (qc_cmd_que_pi_size qc) (qc_cpl_que_size qc)"
    and q: "queue_ok (qc_cmd_que_pi_size qc) (qc_cpl_que_size qc) q" and num: "num < 2 ^ 15"
  shows "\<exists>r q' w'. send_on_queue E cmd qc num q w = Some (r, q', w') \<and>
    queue_ok (qc_cmd_que_pi_size qc) (qc_cpl_que_size qc) q' \<and>
    (\<exists>k. r = - ETIMEDOUT \<and> outstanding (qc_cmd_que_pi_size qc) q' = drop k (outstanding (qc_cmd_que_pi_size qc) q) \<and>
           2 ^ unat (qc_cmd_que_pi_size qc) < length (outstanding (qc_cmd_que_pi_size qc) q') + 2 * num \<and>
           ct_ucmdq_pi (qm_ctrl q') = ct_ucmdq_pi (qm_ctrl q) \<or>
         r = 0 \<and> outstanding (qc_cmd_que_pi_size qc) q' =
           drop k (outstanding (qc_cmd_que_pi_size qc) q @ concat (replicate num [cmd, cmd_psync])) \<and>
           ct_ucmdq_pi (qm_ctrl q') = que_next (qc_cmd_que_pi_size qc) (2 * num) (ct_ucmdq_pi (qm_ctrl q)))"
proof -
  let ?s = "qc_cmd_que_pi_size qc" and ?cs = "qc_cpl_que_size qc"
  let ?wt = "wait_not_full E q ?s (of_nat (CMD_NUM_PER_PLBI * num)) MAX_WAIT_NOT_FULL_TIMES WAIT_NOT_FULL_INTERVAL_US w"
  obtain b q1 w1 where wt: "?wt = (b, q1, w1)" by (cases ?wt)
  from wait_not_full_ok [OF d q wt] obtain k where ok1: "queue_ok ?s ?cs q1"
    and o1: "outstanding ?s q1 = drop k (outstanding ?s q)"
    and sp: "b \<longleftrightarrow> length (outstanding ?s q1) + unat (of_nat (CMD_NUM_PER_PLBI * num) :: u16) \<le> 2 ^ unat ?s"
    and pi1: "ct_ucmdq_pi (qm_ctrl q1) = ct_ucmdq_pi (qm_ctrl q)" by blast
  have n: "unat (of_nat (CMD_NUM_PER_PLBI * num) :: u16) = 2 * num"
    using num by (simp only: unat_of_nat) (simp add: CMD_NUM_PER_PLBI_def)
  show ?thesis
  proof (cases b)
    case False
    then have "send_on_queue E cmd qc num q w = Some (- ETIMEDOUT, q1, w1)" by (simp add: send_on_queue_def wt del: of_nat_mult)
    moreover have "2 ^ unat ?s < length (outstanding ?s q1) + 2 * num" using False sp unfolding n by simp
    ultimately show ?thesis using ok1 o1 pi1 by blast
  next
    case True
    let ?wr = "write_pairs cmd cmd_psync ?s num (qm_cmd q1, ct_ucmdq_pi (qm_ctrl q1), 0)"
    obtain mem pi ps where wr: "?wr = (mem, pi, ps)" by (cases ?wr)
    let ?q2 = "q1\<lparr>qm_cmd := mem, qm_ctrl := (qm_ctrl q1)\<lparr>ct_ucmdq_pi := pi\<rparr>\<rparr>"
    have room: "queue_used (unat ?s) (ct_ucmdq_pi (qm_ctrl q1)) (ct_ucmdq_ci (qm_ctrl q1)) + 2 * num \<le> 2 ^ unat ?s"
      using sp True unfolding n by (simp add: length_outstanding)
    have lg: "ring_legal (unat ?s) (ct_ucmdq_ci (qm_ctrl q1))" "ring_legal (unat ?s) (ct_ucmdq_pi (qm_ctrl q1))"
      using ok1 by (simp_all add: queue_ok_def Let_def)
    note wp = write_pairs_pending [OF lg room wr]
    have ok2: "queue_ok ?s ?cs ?q2" using wp ok1 room by (simp add: queue_ok_def Let_def)
    have o2: "outstanding ?s ?q2 = outstanding ?s q1 @ concat (replicate num [cmd, cmd_psync])"
      using wp by (simp add: outstanding_def)
    from wait_cpl_ok [OF d ok2] obtain q3 w3 k' where
      c: "wait_cpl E ?cs ?q2 ps WAIT_CPLQ_TIMES w1 = Some (q3, w3)" "queue_ok ?s ?cs q3"
         "outstanding ?s q3 = drop k' (outstanding ?s ?q2)" "ct_ucmdq_pi (qm_ctrl q3) = ct_ucmdq_pi (qm_ctrl ?q2)" by blast
    have "ct_ucmdq_pi (qm_ctrl q3) = que_next ?s (2 * num) (ct_ucmdq_pi (qm_ctrl q))"
      using write_pairs_index [OF wr] c(4) pi1 by simp
    moreover have "\<exists>k. outstanding ?s q3 = drop k (outstanding ?s q @ concat (replicate num [cmd, cmd_psync]))"
      unfolding c(3) o2 o1 by (rule drop_append_drop)
    moreover have "send_on_queue E cmd qc num q w = Some (0, q3, w3)"
      using True by (simp add: send_on_queue_def wt wr c(1) del: of_nat_mult)
    ultimately show ?thesis using c(2) by blast
  qed
qed


lemma log2_loop_spec:
  "\<exists>k. log2_loop t i = i + of_nat k \<and> unat t < 2 ^ k \<and> (0 < k \<longrightarrow> 2 ^ (k - 1) \<le> unat t)"
proof (induction t i rule: log2_loop.induct)
  case (1 t i)
  show ?case
  proof (cases "t > 0")
    case False
    then have "t = 0" by (simp add: word_gt_0)
    then show ?thesis by (intro exI [of _ 0]) (simp add: log2_loop.simps)
  next
    case True
    have d: "unat (drop_bit 1 t) = unat t div 2" by (simp only: unat_drop_bit) simp
    from 1 [OF True] obtain k where k: "log2_loop (drop_bit 1 t) (i + 1) = i + 1 + of_nat k"
      "unat t div 2 < 2 ^ k" "0 < k \<longrightarrow> 2 ^ (k - 1) \<le> unat t div 2" unfolding d by blast
    have "log2_loop t i = i + of_nat (Suc k)" using True k(1) by (subst log2_loop.simps) simp
    moreover have "unat t < 2 ^ Suc k" using k(2) by (simp add: div_less_iff_less_mult)
    moreover have "2 ^ k \<le> unat t"
    proof (cases k)
      case 0
      with True show ?thesis by (simp add: unat_gt_0 word_gt_0 Suc_le_eq)
    next
      case (Suc m)
      with k(3) show ?thesis by simp
    qed
    ultimately show ?thesis by (intro exI [of _ "Suc k"]) simp
  qed
qed

lemma minist_log2size_range_least:
  fixes sz :: u64
  assumes "sz > 0"
  shows "unat (get_minist_log2size_range sz) = (LEAST k. unat sz \<le> 2 ^ k)"
proof -
  have s0: "0 < unat sz" using assms by (simp add: unat_gt_0 word_gt_0)
  then have m: "unat (sz - 1) = unat sz - 1" by (simp add: unat_sub word_le_nat_alt)
  obtain k where k: "log2_loop (sz - 1) 0 = of_nat k" "unat sz - 1 < 2 ^ k"
    "0 < k \<longrightarrow> 2 ^ (k - 1) \<le> unat sz - 1"
    using log2_loop_spec [of "sz - 1" 0] unfolding m by auto
  have "k \<le> 64"
  proof (rule ccontr)
    assume "\<not> k \<le> 64"
    then have "2 ^ 64 \<le> (2::nat) ^ (k - 1)" by (intro power_increasing) auto
    then show False using k(3) \<open>\<not> k \<le> 64\<close> unsigned_less [of sz, where 'a = nat] by simp
  qed
  then have "unat (get_minist_log2size_range sz) = k"
    using assms k(1) by (simp only: get_minist_log2size_range_def if_True unat_of_nat) simp
  moreover have "(LEAST k. unat sz \<le> 2 ^ k) = k"
  proof (rule Least_equality)
    show "unat sz \<le> 2 ^ k" using k(2) by simp
    fix j assume j: "unat sz \<le> 2 ^ j"
    show "k \<le> j"
    proof (rule ccontr)
      assume "\<not> k \<le> j"
      then have "(2::nat) ^ j \<le> 2 ^ (k - 1)" "0 < k" by (auto intro: power_increasing)
      then show False using k(3) j s0 by linarith
    qed
  qed
  ultimately show ?thesis by simp
qed

definition queues_ok :: "mapt_info \<Rightarrow> bool" where
  "queues_ok mi \<longleftrightarrow> (let qc = mi_queue_ctx mi in
     case qc_queue qc of None \<Rightarrow> False
     | Some qs \<Rightarrow> length qs = unat (qc_ummu_cnt qc) \<and>
         list_all (queue_ok (qc_cmd_que_pi_size qc) (qc_cpl_que_size qc)) qs)"

definition mi_device_ok :: "os_env \<Rightarrow> mapt_info \<Rightarrow> bool" where
  "mi_device_ok E mi \<longleftrightarrow>
     device_ok E (qc_cmd_que_pi_size (mi_queue_ctx mi)) (qc_cpl_que_size (mi_queue_ctx mi))"

definition queue_frame :: "mapt_info \<Rightarrow> mapt_info \<Rightarrow> bool" where
  "queue_frame mi mi' \<longleftrightarrow> (\<exists>qs. mi' = mi\<lparr>mi_queue_ctx := (mi_queue_ctx mi)\<lparr>qc_queue := qs\<rparr>\<rparr>)"

lemma queue_frame_refl [simp]: "queue_frame mi mi"
  unfolding queue_frame_def by (rule exI [of _ "qc_queue (mi_queue_ctx mi)"]) simp

lemma queue_frame_trans: "queue_frame a b \<Longrightarrow> queue_frame b c \<Longrightarrow> queue_frame a c"
  unfolding queue_frame_def by auto

lemma queue_frame_device: "queue_frame a b \<Longrightarrow> mi_device_ok E b = mi_device_ok E a"
  by (auto simp: queue_frame_def mi_device_ok_def)

lemma send_cmd_ok:
  assumes d: "mi_device_ok E mi" and q: "queues_ok mi" and i: "i < unat (qc_ummu_cnt (mi_queue_ctx mi))"
  shows "\<exists>r mi' w'. ummu_send_cmd E cmd mi i w = Some (r, mi', w') \<and> queues_ok mi' \<and> queue_frame mi mi'"
proof -
  let ?qc = "mi_queue_ctx mi"
  obtain qs where qs: "qc_queue ?qc = Some qs" "length qs = unat (qc_ummu_cnt ?qc)"
    "list_all (queue_ok (qc_cmd_que_pi_size ?qc) (qc_cpl_que_size ?qc)) qs"
    using q by (auto simp: queues_ok_def Let_def split: option.splits)
  have n: "plbi_num mi < 2 ^ 15" by (simp add: plbi_num_def)
  from i qs have "queue_ok (qc_cmd_que_pi_size ?qc) (qc_cpl_que_size ?qc) (qs ! i)"
    by (simp add: list_all_length)
  from send_on_queue_ok [OF d [unfolded mi_device_ok_def] this n] obtain r q' w' where
    s: "send_on_queue E cmd ?qc (plbi_num mi) (qs ! i) w = Some (r, q', w')"
      "queue_ok (qc_cmd_que_pi_size ?qc) (qc_cpl_que_size ?qc) q'" by blast
  let ?mi = "mi\<lparr>mi_queue_ctx := ?qc\<lparr>qc_queue := Some (qs[i := q'])\<rparr>\<rparr>"
  have "list_all (queue_ok (qc_cmd_que_pi_size ?qc) (qc_cpl_que_size ?qc)) (qs[i := q'])"
    using qs(3) s(2) by (auto simp: list_all_iff dest!: set_update_subset_insert [THEN subsetD])
  then have "queues_ok ?mi" using qs(2) by (simp add: queues_ok_def)
  moreover have "ummu_send_cmd E cmd mi i w = Some (r, ?mi, w')"
    using i qs(1,2) s(1) by (simp add: ummu_send_cmd_def arr_rd_def)
  moreover have "queue_frame mi ?mi" unfolding queue_frame_def by blast
  ultimately show ?thesis by blast
qed

lemma send_all_ok:
  assumes "mi_device_ok E mi" "queues_ok mi" "\<forall>i \<in> set is. i < unat (qc_ummu_cnt (mi_queue_ctx mi))"
  shows "\<exists>mi' w'. fold_opt (\<lambda>i (m, w). do { (_, m', w') \<leftarrow> ummu_send_cmd E cmd m i w; Some (m', w') }) is (mi, w)
    = Some (mi', w') \<and> queues_ok mi' \<and> queue_frame mi mi'"
  using assms
proof (induction "is" arbitrary: mi w)
  case (Cons i "is")
  then obtain r m1 w1 where s: "ummu_send_cmd E cmd mi i w = Some (r, m1, w1)" "queues_ok m1" "queue_frame mi m1"
    using send_cmd_ok [OF Cons.prems(1,2), of i cmd w] by auto
  have "mi_device_ok E m1" "qc_ummu_cnt (mi_queue_ctx m1) = qc_ummu_cnt (mi_queue_ctx mi)"
    using Cons.prems(1) s(3) queue_frame_device by (auto simp: queue_frame_def mi_device_ok_def)
  then obtain m2 w2 where r: "fold_opt (\<lambda>i (m, w). do { (_, m', w') \<leftarrow> ummu_send_cmd E cmd m i w; Some (m', w') }) is (m1, w1)
    = Some (m2, w2)" "queues_ok m2" "queue_frame m1 m2"
    using Cons.IH [of m1 w1] s(2) Cons.prems(3) by auto
  show ?case using s(1) r(1,2) queue_frame_trans [OF s(3) r(3)] by simp
qed simp

text \<open>The queues are in order, unless the kernel sends the commands.\<close>

definition plbi_ready :: "os_env \<Rightarrow> mapt_info \<Rightarrow> bool" where
  "plbi_ready E mi \<longleftrightarrow> mi_kcmd_plbi mi \<noteq> 0 \<or> queues_ok mi \<and> mi_device_ok E mi"

lemma send_plbi_ok:
  assumes "plbi_ready E mi"
  shows "\<exists>mi' w'. ummu_send_plbi E fd cmd mi info w = Some (mi', w') \<and> plbi_ready E mi' \<and> queue_frame mi mi'"
proof (cases "mi_kcmd_plbi mi = 0")
  case True
  with assms have r: "queues_ok mi" "mi_device_ok E mi" by (auto simp: plbi_ready_def)
  from send_all_ok [OF r(2,1), of "[0..<unat (qc_ummu_cnt (mi_queue_ctx mi))]" cmd w] True r
  show ?thesis unfolding ummu_send_plbi_def plbi_ready_def using queue_frame_device by fastforce
qed (simp add: ummu_send_plbi_def plbi_ready_def)

section \<open>Creating and releasing the queues of a TID\<close>

text \<open>What the library relies on when a TID gets its queues: the fresh queue memory of every
  device holds legal indices for the queue sizes the driver reports, and the device keeps them.\<close>

definition cmd_que_size :: "os_env \<Rightarrow> tid_info \<Rightarrow> u16" where
  "cmd_que_size E info = ucast (tf_pcmdq_order info) + ucast (of_nat (PAGE_SHIFT E) :: u8) - ucast CMD_ENTRY_SHIFT"

definition cpl_que_size :: "os_env \<Rightarrow> tid_info \<Rightarrow> u16" where
  "cpl_que_size E info = ucast (tf_pcplq_order info) + ucast (of_nat (PAGE_SHIFT E) :: u8) - ucast CPL_ENTRY_SHIFT"

definition fresh_queues_ok :: "os_env \<Rightarrow> tid_info \<Rightarrow> bool" where
  "fresh_queues_ok E info \<longleftrightarrow> device_ok E (cmd_que_size E info) (cpl_que_size E info) \<and>
     (\<forall>c i a b d. queue_ok (cmd_que_size E info) (cpl_que_size E info)
        (case os_queue_mem E c i of (cmds, cpls, ctrl) \<Rightarrow>
          \<lparr>qa_cmd_entry = a, qa_cpl_entry = b, qa_ctrl_page = d, qm_cmd = cmds, qm_cpl = cpls, qm_ctrl = ctrl\<rparr>))"

lemma queue_init_loop_ok:
  "fresh_queues_ok E info \<Longrightarrow>
   length (queue_init_loop E info c sz i k start) = k \<and>
   list_all (queue_ok (cmd_que_size E info) (cpl_que_size E info)) (queue_init_loop E info c sz i k start)"
proof (induction k arbitrary: i start)
  case (Suc k)
  obtain cmds cpls ctrl where m: "os_queue_mem E c i = (cmds, cpls, ctrl)" by (rule prod_cases3)
  then have "queue_ok (cmd_que_size E info) (cpl_que_size E info)
      \<lparr>qa_cmd_entry = a, qa_cpl_entry = b, qa_ctrl_page = d, qm_cmd = cmds, qm_cpl = cpls, qm_ctrl = ctrl\<rparr>" for a b d
    using Suc.prems unfolding fresh_queues_ok_def by (metis (no_types, lifting) case_prod_conv)
  then show ?case using Suc.IH [OF Suc.prems] by (simp add: m)
qed simp

text \<open>The queues of a TID can be used and released.\<close>

definition queues_ready :: "os_env \<Rightarrow> mapt_info \<Rightarrow> bool" where
  "queues_ready E mi \<longleftrightarrow> plbi_ready E mi \<and> (mi_kcmd_plbi mi = 0 \<longrightarrow> 0 < unat (qc_ummu_cnt (mi_queue_ctx mi)))"

lemma queues_ready_base [simp]:
  "queues_ready E (mi\<lparr>mi_block_base := x\<rparr>) = queues_ready E mi"
  by (simp add: queues_ready_def plbi_ready_def queues_ok_def mi_device_ok_def)

lemma queues_ready_frame: "queue_frame mi mi' \<Longrightarrow> queues_ready E mi \<Longrightarrow> plbi_ready E mi' \<Longrightarrow> queues_ready E mi'"
  by (auto simp: queues_ready_def queue_frame_def)

text \<open>Legal indices bound the sizes of the queues, so no shift goes wrong.\<close>

lemma que_size_order:
  fixes k :: nat
  assumes "unat (ucast (order :: u8) + ucast (of_nat p :: u8) - of_nat k :: u16) \<le> 15" "k \<le> 4"
  shows "unat order + unat (of_nat p :: u8) = unat (ucast order + ucast (of_nat p :: u8) - of_nat k :: u16) + k"
proof -
  let ?a = "ucast order + ucast (of_nat p :: u8) :: u16"
  have u: "unat (ucast (x :: u8) :: u16) = unat x" "unat (x :: u8) < 256" for x
  proof -
    show lt: "unat x < 256" using unsigned_less [of x] by simp
    show "unat (ucast x :: u16) = unat x" using lt by (simp add: unsigned_ucast_eq take_bit_nat_eq_self)
  qed
  have a: "unat ?a = unat order + unat (of_nat p :: u8)"
    using u(1) [of order] u(1) [of "of_nat p"] u(2) [of order] u(2) [of "of_nat p"] unat_plus_simple [of "ucast order :: u16" "ucast (of_nat p :: u8)"]
    by (simp only: unat_word_ariths) simp
  have k: "unat (of_nat k :: u16) = k" using assms(2) by (simp add: unat_of_nat)
  have "unat ((?a - of_nat k) + of_nat k) = unat (?a - of_nat k) + k" using assms k by (simp only: unat_word_ariths(1)) simp
  with a show ?thesis by simp
qed

lemma fresh_queues_legal:
  assumes "fresh_queues_ok E info"
  shows "unat (cmd_que_size E info) \<le> 15" "unat (cpl_que_size E info) \<le> 15"
proof -
  obtain cmds cpls ctrl where "os_queue_mem E 0 0 = (cmds, cpls, ctrl)" by (rule prod_cases3)
  with assms show "unat (cmd_que_size E info) \<le> 15" "unat (cpl_que_size E info) \<le> 15"
    by (fastforce simp: fresh_queues_ok_def queue_ok_def Let_def ring_legal_def)+
qed

lemma fresh_orders:
  assumes "fresh_queues_ok E info"
  shows "unat (tf_pcmdq_order info) + unat (of_nat (PAGE_SHIFT E) :: u8) = unat (cmd_que_size E info) + 4"
    "unat (tf_pcplq_order info) + unat (of_nat (PAGE_SHIFT E) :: u8) = unat (cpl_que_size E info) + 2"
    "unat (tf_pcmdq_order info) \<le> 19" "unat (tf_pcplq_order info) \<le> 17"
proof -
  note l = fresh_queues_legal [OF assms]
  have k: "ucast CMD_ENTRY_SHIFT = (of_nat 4 :: u16)" "ucast CPL_ENTRY_SHIFT = (of_nat 2 :: u16)"
    by (simp_all add: CMD_ENTRY_SHIFT_def CPL_ENTRY_SHIFT_def)
  show c: "unat (tf_pcmdq_order info) + unat (of_nat (PAGE_SHIFT E) :: u8) = unat (cmd_que_size E info) + 4"
    using l(1) unfolding cmd_que_size_def k by (rule que_size_order) simp
  show d: "unat (tf_pcplq_order info) + unat (of_nat (PAGE_SHIFT E) :: u8) = unat (cpl_que_size E info) + 2"
    using l(2) unfolding cpl_que_size_def k by (rule que_size_order) simp
  show "unat (tf_pcmdq_order info) \<le> 19" "unat (tf_pcplq_order info) \<le> 17" using c d l by simp_all
qed

lemma queue_create_ok:
  assumes f: "fresh_queues_ok E info"
  obtains (fail) w' where "ummu_queue_create E mi info fd w = Some ((- ENOMEM, mi), w')"
  | (ok) qc w' where "ummu_queue_create E mi info fd w = Some ((0, mi\<lparr>mi_queue_ctx := qc\<rparr>), w')" "queues_ready E (mi\<lparr>mi_queue_ctx := qc\<rparr>)"
proof (cases "mi_kcmd_plbi mi \<noteq> 0")
  case True
  then show thesis using ok [of "mi_queue_ctx mi" w] by (simp add: ummu_queue_create_def queues_ready_def plbi_ready_def)
next
  case k: False
  define cnt where "cnt = tf_ummu_cnt info"
  define sz where "sz = os_getpagesize E * (1 + push_bit (unat (tf_pcmdq_order info)) 1 + push_bit (unat (tf_pcplq_order info)) 1)"
  obtain mem w1 where m: "c_malloc E w = (mem, w1)" by (rule prod.exhaust)
  obtain a w2 where g: "ummu_get_core_buf E (mi_tid mi) BASE_MODE_QUEUE (sz * ucast cnt) fd 0 w1 = (a, w2)" by (rule prod.exhaust)
  define q where "q = queue_init_loop E info (clock w1) sz 0 (unat cnt) a"
  let ?qc = "\<lparr>qc_ummu_cnt = cnt, qc_queue_size = sz * ucast cnt, qc_cmd_que_pi_size = cmd_que_size E info,
        qc_cpl_que_size = cpl_que_size E info, qc_queue = Some q\<rparr>"
  have ord: "\<not> 64 \<le> unat (tf_pcmdq_order info)" "\<not> 64 \<le> unat (tf_pcplq_order info)" "\<not> 32 \<le> unat (tf_pcplq_order info)"
    using fresh_orders(3,4) [OF f] by simp_all
  have run: "ummu_queue_create E mi info fd w = (if \<not> mem then Some ((- ENOMEM, mi), w1)
      else if CORE_BUF_CHECK_INVALID a then Some ((- ENOMEM, mi), w2) else Some ((0, mi\<lparr>mi_queue_ctx := ?qc\<rparr>), w2))"
    using k m g ord unfolding ummu_queue_create_def Let_def cnt_def [symmetric] sz_def [symmetric] q_def
    by (simp add: cmd_que_size_def cpl_que_size_def)
  show thesis
  proof (cases "mem \<and> \<not> CORE_BUF_CHECK_INVALID a")
    case False
    then show thesis using run by (intro fail [of "if mem then w2 else w1"]) auto
  next
    case True
    have "cnt \<noteq> 0"
    proof
      assume "cnt = 0"
      then have "a = 0" using g by (simp add: ummu_get_core_buf_def)
      with True show False by (simp add: CORE_BUF_CHECK_INVALID_def)
    qed
    moreover have "length q = unat cnt" "list_all (queue_ok (cmd_que_size E info) (cpl_que_size E info)) q"
      using queue_init_loop_ok [OF f] unfolding q_def by blast+
    moreover have "device_ok E (cmd_que_size E info) (cpl_que_size E info)" using f by (simp add: fresh_queues_ok_def)
    ultimately have "queues_ready E (mi\<lparr>mi_queue_ctx := ?qc\<rparr>)"
      by (simp add: queues_ready_def plbi_ready_def queues_ok_def mi_device_ok_def unat_gt_0)
    with run True show thesis by (intro ok [of ?qc w2]) simp_all
  qed
qed

lemma queue_destroy_ok:
  assumes "queues_ready E mi"
  shows "\<exists>mi' w'. ummu_queue_destroy E fd mi w = Some (mi', w')"
proof -
  have p: "plbi_ready E mi" using assms by (simp add: queues_ready_def)
  from send_plbi_ok [OF p, of fd] obtain mi1 w1 where
    s: "ummu_send_user_all E fd mi w = Some (mi1, w1)" "plbi_ready E mi1" "queue_frame mi mi1"
    unfolding ummu_send_user_all_def by blast
  have k: "mi_kcmd_plbi mi1 = mi_kcmd_plbi mi" "qc_ummu_cnt (mi_queue_ctx mi1) = qc_ummu_cnt (mi_queue_ctx mi)"
    using s(3) by (auto simp: queue_frame_def)
  show ?thesis
  proof (cases "mi_kcmd_plbi mi = 0")
    case True
    then obtain qs where qs: "qc_queue (mi_queue_ctx mi1) = Some qs" "length qs = unat (qc_ummu_cnt (mi_queue_ctx mi1))"
      using s(2) k by (auto simp: plbi_ready_def queues_ok_def Let_def split: option.splits)
    with True k assms have "0 < length qs" by (simp add: queues_ready_def)
    with s(1) k qs(1) True show ?thesis by (simp add: ummu_queue_destroy_def)
  next
    case False
    with s(1) k show ?thesis by (simp add: ummu_queue_destroy_def)
  qed
qed

section \<open>Every queue gets the command\<close>

text \<open>
  Promptness: between two polls, a device whose queue has no room for \<open>n\<close> commands consumes at least one.
  \<open>posted\<close>: the commands \<open>cs\<close> were appended to what was outstanding, of which the device may have
  consumed a prefix.
\<close>

definition device_prompt :: "os_env \<Rightarrow> u16 \<Rightarrow> u16 \<Rightarrow> nat \<Rightarrow> bool" where
  "device_prompt E sz csz n \<longleftrightarrow> (\<forall>c q ci pi cpl. os_device E c q = (ci, pi, cpl) \<longrightarrow> queue_ok sz csz q \<longrightarrow>
     (let used = queue_used (unat sz) (ct_ucmdq_pi (qm_ctrl q)) in
      used ci + n \<le> 2 ^ unat sz \<or> used ci < used (ct_ucmdq_ci (qm_ctrl q))))"

definition posted :: "u16 \<Rightarrow> cmd_entry list \<Rightarrow> queue_args \<Rightarrow> queue_args \<Rightarrow> bool" where
  "posted sz cs q q' \<longleftrightarrow> (\<exists>k. outstanding sz q' = drop k (outstanding sz q @ cs))"

lemma dev_poll_prompt:
  assumes "device_prompt E sz csz n" "queue_ok sz csz q" "dev_poll E q w = (q1, w1)"
  shows "length (outstanding sz q1) + n \<le> 2 ^ unat sz \<or> length (outstanding sz q1) < length (outstanding sz q)"
proof -
  obtain ci pi cpl where d: "os_device E (clock w) q = (ci, pi, cpl)" by (metis prod_cases3)
  with assms(3) have "q1 = q\<lparr>qm_ctrl := (qm_ctrl q)\<lparr>ct_ucmdq_ci := ci, ct_ucplq_pi := pi\<rparr>, qm_cpl := cpl\<rparr>"
    by (simp add: dev_poll_def)
  with assms(1,2) d show ?thesis unfolding device_prompt_def length_outstanding Let_def by fastforce
qed

lemma has_space_outstanding:
  "queue_ok sz csz q \<Longrightarrow> queue_has_space (ct_ucmdq_pi (qm_ctrl q)) (ct_ucmdq_ci (qm_ctrl q)) sz n \<longleftrightarrow>
     length (outstanding sz q) + unat n \<le> 2 ^ unat sz"
  by (auto simp: queue_ok_def Let_def ring_legal_def length_outstanding queue_has_space_iff simp del: power_Suc)

lemma wait_not_full_prompt:
  assumes d: "device_ok E sz csz" "device_prompt E sz csz (unat n)"
  shows "queue_ok sz csz q \<Longrightarrow> length (outstanding sz q) + unat n \<le> 2 ^ unat sz + Suc t \<Longrightarrow>
    fst (wait_not_full E q sz n t iv w)"
proof (induction t arbitrary: q iv w)
  case 0
  obtain q1 w1 where p: "dev_poll E q w = (q1, w1)" by (rule prod.exhaust)
  from dev_poll_ok [OF d(1) 0(1) p] dev_poll_prompt [OF d(2) 0(1) p] 0(2)
  show ?case using p by (subst wait_not_full.simps) (auto simp: has_space_outstanding)
next
  case (Suc t)
  obtain q1 w1 where p: "dev_poll E q w = (q1, w1)" by (rule prod.exhaust)
  have ok: "queue_ok sz csz q1" using dev_poll_ok [OF d(1) Suc.prems(1) p] by blast
  show ?case
  proof (cases "length (outstanding sz q1) + unat n \<le> 2 ^ unat sz")
    case True
    with p ok show ?thesis by (subst wait_not_full.simps) (simp add: has_space_outstanding)
  next
    case False
    with dev_poll_prompt [OF d(2) Suc.prems(1) p] Suc.prems(2)
    have "length (outstanding sz q1) + unat n \<le> 2 ^ unat sz + Suc t" by simp
    with Suc.IH [OF ok this] False p ok show ?thesis by (subst wait_not_full.simps) (simp add: has_space_outstanding Let_def)
  qed
qed

lemma plbi_cmds_fit: "unat (of_nat (CMD_NUM_PER_PLBI * plbi_num mi) :: u16) = 2 * plbi_num mi" "plbi_num mi \<le> 2"
  by (simp_all add: CMD_NUM_PER_PLBI_def plbi_num_def unat_of_nat)

definition plbi_pairs :: "mapt_info \<Rightarrow> cmd_entry \<Rightarrow> cmd_entry list" where
  "plbi_pairs mi cmd = concat (replicate (plbi_num mi) [cmd, cmd_psync])"

definition mi_prompt :: "os_env \<Rightarrow> mapt_info \<Rightarrow> bool" where
  "mi_prompt E mi \<longleftrightarrow> device_prompt E (qc_cmd_que_pi_size (mi_queue_ctx mi)) (qc_cpl_que_size (mi_queue_ctx mi)) (2 * plbi_num mi)"

lemma send_on_queue_prompt:
  assumes d: "mi_device_ok E mi" "mi_prompt E mi"
    and q: "queue_ok (qc_cmd_que_pi_size (mi_queue_ctx mi)) (qc_cpl_que_size (mi_queue_ctx mi)) q"
  shows "\<exists>q' w'. send_on_queue E cmd (mi_queue_ctx mi) (plbi_num mi) q w = Some (0, q', w') \<and>
    posted (qc_cmd_que_pi_size (mi_queue_ctx mi)) (plbi_pairs mi cmd) q q'"
proof -
  let ?qc = "mi_queue_ctx mi" and ?n = "of_nat (CMD_NUM_PER_PLBI * plbi_num mi) :: u16"
  have "length (outstanding (qc_cmd_que_pi_size ?qc) q) + unat ?n \<le> 2 ^ unat (qc_cmd_que_pi_size ?qc) + Suc MAX_WAIT_NOT_FULL_TIMES"
    using q plbi_cmds_fit [of mi] by (simp add: length_outstanding queue_ok_def Let_def MAX_WAIT_NOT_FULL_TIMES_def)
  from wait_not_full_prompt [OF _ _ q this, of E WAIT_NOT_FULL_INTERVAL_US w] d
  have "fst (wait_not_full E q (qc_cmd_que_pi_size ?qc) ?n MAX_WAIT_NOT_FULL_TIMES WAIT_NOT_FULL_INTERVAL_US w)"
    unfolding plbi_cmds_fit by (simp add: mi_device_ok_def mi_prompt_def)
  then have ok: "r = 0" if "send_on_queue E cmd ?qc (plbi_num mi) q w = Some (r, q', w')" for r q' w'
    using that unfolding send_on_queue_def by (auto split: prod.splits if_splits elim!: bind_SomeE)
  have "plbi_num mi < 2 ^ 15" by (simp add: plbi_num_def)
  from send_on_queue_ok [OF d(1) [unfolded mi_device_ok_def] q this, of cmd w] obtain r q' w' k where
    s: "send_on_queue E cmd ?qc (plbi_num mi) q w = Some (r, q', w')"
    "r = - ETIMEDOUT \<or> outstanding (qc_cmd_que_pi_size ?qc) q' = drop k (outstanding (qc_cmd_que_pi_size ?qc) q @ plbi_pairs mi cmd)"
    unfolding plbi_pairs_def by blast
  have "r = 0" by (rule ok [OF s(1)])
  with s show ?thesis by (auto simp: posted_def errno_defs)
qed

text \<open>
  What one invalidation does to one queue: either its commands are posted and the producer index moved past
  them, or the queue had no room for them at the last poll and is left to the device.
\<close>

definition sent_or_full :: "u16 \<Rightarrow> cmd_entry list \<Rightarrow> queue_args \<Rightarrow> queue_args \<Rightarrow> bool" where
  "sent_or_full sz cs q q' \<longleftrightarrow>
     posted sz cs q q' \<and> ct_ucmdq_pi (qm_ctrl q') = que_next sz (length cs) (ct_ucmdq_pi (qm_ctrl q)) \<or>
     (\<exists>k. outstanding sz q' = drop k (outstanding sz q)) \<and> 2 ^ unat sz < length (outstanding sz q') + length cs \<and>
       ct_ucmdq_pi (qm_ctrl q') = ct_ucmdq_pi (qm_ctrl q)"

lemma length_pairs [simp]: "length (plbi_pairs mi cmd) = 2 * plbi_num mi"
  by (simp add: plbi_pairs_def plbi_num_def numeral_2_eq_2)

lemma send_on_queue_sent:
  assumes "mi_device_ok E mi" "queue_ok (qc_cmd_que_pi_size (mi_queue_ctx mi)) (qc_cpl_que_size (mi_queue_ctx mi)) q"
    "send_on_queue E cmd (mi_queue_ctx mi) (plbi_num mi) q w = Some (r, q', w')"
  shows "sent_or_full (qc_cmd_que_pi_size (mi_queue_ctx mi)) (plbi_pairs mi cmd) q q'"
proof -
  have "plbi_num mi < 2 ^ 15" by (simp add: plbi_num_def)
  from send_on_queue_ok [OF assms(1) [unfolded mi_device_ok_def] assms(2) this, of cmd w] assms(3)
  show ?thesis unfolding sent_or_full_def posted_def plbi_pairs_def [symmetric] length_pairs by auto
qed

lemma queues_okE:
  assumes "queues_ok mi"
  obtains qs where "qc_queue (mi_queue_ctx mi) = Some qs" "length qs = unat (qc_ummu_cnt (mi_queue_ctx mi))"
    "\<And>i. i < length qs \<Longrightarrow> queue_ok (qc_cmd_que_pi_size (mi_queue_ctx mi)) (qc_cpl_que_size (mi_queue_ctx mi)) (qs ! i)"
  using assms by (auto simp: queues_ok_def Let_def list_all_length split: option.splits)

lemma queue_frame_sizes:
  assumes "queue_frame mi mi'"
  shows "plbi_num mi' = plbi_num mi" "qc_cmd_que_pi_size (mi_queue_ctx mi') = qc_cmd_que_pi_size (mi_queue_ctx mi)"
    "qc_cpl_que_size (mi_queue_ctx mi') = qc_cpl_que_size (mi_queue_ctx mi)" "qc_ummu_cnt (mi_queue_ctx mi') = qc_ummu_cnt (mi_queue_ctx mi)"
    "plbi_pairs mi' cmd = plbi_pairs mi cmd" "mi_prompt E mi' = mi_prompt E mi"
  using assms by (auto simp: queue_frame_def plbi_num_def plbi_pairs_def mi_prompt_def)

text \<open>The loop over the queues runs \<^verbatim>\<open>ummu_send_cmd\<close> once on each of them.\<close>

lemma send_all_each:
  assumes "mi_device_ok E mi" "queues_ok mi" "\<forall>i \<in> set is. i < unat (qc_ummu_cnt (mi_queue_ctx mi))" "distinct is"
    "fold_opt (\<lambda>i (m, w). do { (_, m', w') \<leftarrow> ummu_send_cmd E cmd m i w; Some (m', w') }) is (mi, w) = Some (mi', w')"
    "qc_queue (mi_queue_ctx mi) = Some qs"
  shows "\<exists>qs'. qc_queue (mi_queue_ctx mi') = Some qs' \<and> length qs' = length qs \<and>
    (\<forall>i < length qs. if i \<in> set is then \<exists>r w1 w2. send_on_queue E cmd (mi_queue_ctx mi) (plbi_num mi) (qs ! i) w1 = Some (r, qs' ! i, w2)
       else qs' ! i = qs ! i)"
  using assms
proof (induction "is" arbitrary: mi w qs)
  case (Cons i "is")
  let ?qc = "mi_queue_ctx mi"
  obtain r m1 w1 where s: "ummu_send_cmd E cmd mi i w = Some (r, m1, w1)" "queues_ok m1" "queue_frame mi m1"
    using send_cmd_ok [OF Cons.prems(1,2), of i cmd w] Cons.prems(3) by auto
  note f = queue_frame_sizes [OF s(3)]
  have same: "send_on_queue E cmd (mi_queue_ctx m1) n = send_on_queue E cmd ?qc n" for n
    unfolding send_on_queue_def f by (rule refl)
  have i: "i < length qs" using Cons.prems(2,3,6) by (auto elim: queues_okE)
  obtain q' where p: "send_on_queue E cmd ?qc (plbi_num mi) (qs ! i) w = Some (r, q', w1)"
    and m1: "qc_queue (mi_queue_ctx m1) = Some (qs[i := q'])"
    using s(1) Cons.prems(6) i by (auto simp: ummu_send_cmd_def arr_rd_def elim!: bind_SomeE)
  have d: "mi_device_ok E m1" using Cons.prems(1) queue_frame_device [OF s(3)] by simp
  have tl: "fold_opt (\<lambda>i (m, w). do { (_, m', w') \<leftarrow> ummu_send_cmd E cmd m i w; Some (m', w') }) is (m1, w1) = Some (mi', w')"
    using Cons.prems(5) s(1) by simp
  have "\<forall>j \<in> set is. j < unat (qc_ummu_cnt (mi_queue_ctx m1))" "distinct is" "i \<notin> set is" using Cons.prems(3,4) f by auto
  with Cons.IH [OF d s(2) _ _ tl m1] obtain qs' where r: "qc_queue (mi_queue_ctx mi') = Some qs'" "length qs' = length qs"
    "\<forall>j < length qs. if j \<in> set is then \<exists>r w1 w2. send_on_queue E cmd ?qc (plbi_num mi) (qs[i := q'] ! j) w1 = Some (r, qs' ! j, w2)
       else qs' ! j = qs[i := q'] ! j"
    unfolding f same by auto
  from r(3) p i \<open>i \<notin> set is\<close> have "\<forall>j < length qs. if j \<in> set (i # is)
      then \<exists>r w1 w2. send_on_queue E cmd ?qc (plbi_num mi) (qs ! j) w1 = Some (r, qs' ! j, w2) else qs' ! j = qs ! j"
    by (auto simp: nth_list_update split: if_splits)
  with r(1,2) show ?case by blast
qed simp

lemma send_plbi_each:
  assumes "plbi_ready E mi" "mi_kcmd_plbi mi = 0" "qc_queue (mi_queue_ctx mi) = Some qs"
    "ummu_send_plbi E fd cmd mi info w = Some (mi', w')"
  obtains qs' where "qc_queue (mi_queue_ctx mi') = Some qs'" "length qs' = length qs"
    "\<forall>i < length qs. queue_ok (qc_cmd_que_pi_size (mi_queue_ctx mi)) (qc_cpl_que_size (mi_queue_ctx mi)) (qs ! i) \<and>
       (\<exists>r w1 w2. send_on_queue E cmd (mi_queue_ctx mi) (plbi_num mi) (qs ! i) w1 = Some (r, qs' ! i, w2))"
proof -
  have r: "queues_ok mi" "mi_device_ok E mi" using assms(1,2) by (auto simp: plbi_ready_def)
  have n: "length qs = unat (qc_ummu_cnt (mi_queue_ctx mi))"
    and q: "\<And>i. i < length qs \<Longrightarrow> queue_ok (qc_cmd_que_pi_size (mi_queue_ctx mi)) (qc_cpl_que_size (mi_queue_ctx mi)) (qs ! i)"
    using r(1) assms(3) by (auto elim: queues_okE)
  have "\<exists>qs'. qc_queue (mi_queue_ctx mi') = Some qs' \<and> length qs' = length qs \<and>
    (\<forall>i < length qs. if i \<in> set [0..<unat (qc_ummu_cnt (mi_queue_ctx mi))]
       then \<exists>r w1 w2. send_on_queue E cmd (mi_queue_ctx mi) (plbi_num mi) (qs ! i) w1 = Some (r, qs' ! i, w2) else qs' ! i = qs ! i)"
    using assms(2,4) by (intro send_all_each [OF r(2,1) _ _ _ assms(3)]) (auto simp: ummu_send_plbi_def)
  then show thesis using n q that by auto
qed

text \<open>With prompt devices, an invalidation through the queues reaches every one of them.\<close>

lemma send_plbi_posted:
  assumes "plbi_ready E mi" "mi_kcmd_plbi mi = 0" "mi_prompt E mi" "qc_queue (mi_queue_ctx mi) = Some qs"
    "ummu_send_plbi E fd cmd mi info w = Some (mi', w')"
  shows "\<exists>qs'. qc_queue (mi_queue_ctx mi') = Some qs' \<and> length qs' = length qs \<and>
    (\<forall>i < length qs. posted (qc_cmd_que_pi_size (mi_queue_ctx mi)) (plbi_pairs mi cmd) (qs ! i) (qs' ! i))"
proof -
  have d: "mi_device_ok E mi" using assms(1,2) by (auto simp: plbi_ready_def)
  obtain qs' where q: "qc_queue (mi_queue_ctx mi') = Some qs'" "length qs' = length qs"
    "\<forall>i < length qs. queue_ok (qc_cmd_que_pi_size (mi_queue_ctx mi)) (qc_cpl_que_size (mi_queue_ctx mi)) (qs ! i) \<and>
       (\<exists>r w1 w2. send_on_queue E cmd (mi_queue_ctx mi) (plbi_num mi) (qs ! i) w1 = Some (r, qs' ! i, w2))"
    by (rule send_plbi_each [OF assms(1,2,4,5)])
  have "posted (qc_cmd_que_pi_size (mi_queue_ctx mi)) (plbi_pairs mi cmd) (qs ! i) (qs' ! i)" if "i < length qs" for i
  proof -
    obtain r w1 w2 where o: "queue_ok (qc_cmd_que_pi_size (mi_queue_ctx mi)) (qc_cpl_que_size (mi_queue_ctx mi)) (qs ! i)"
      "send_on_queue E cmd (mi_queue_ctx mi) (plbi_num mi) (qs ! i) w1 = Some (r, qs' ! i, w2)" using q(3) \<open>i < length qs\<close> by blast
    from send_on_queue_prompt [OF d assms(3) o(1), of cmd w1] o(2) show ?thesis by auto
  qed
  with q(1,2) show ?thesis by blast
qed

section \<open>A device that does not answer\<close>

text \<open>A device that has stopped moves none of its indices.\<close>

definition device_stopped :: "os_env \<Rightarrow> bool" where
  "device_stopped E \<longleftrightarrow> (\<forall>c q. os_device E c q = (ct_ucmdq_ci (qm_ctrl q), ct_ucplq_pi (qm_ctrl q), qm_cpl q))"

lemma wait_not_full_stopped:
  assumes "device_stopped E" "\<not> queue_has_space (ct_ucmdq_pi (qm_ctrl q)) (ct_ucmdq_ci (qm_ctrl q)) sz n"
  shows "\<exists>w'. wait_not_full E q sz n t iv w = (False, q, w')"
proof (induction t arbitrary: iv w)
  case 0
  have "dev_poll E q w = (q, tick w)" using assms(1) by (simp add: dev_poll_def device_stopped_def)
  with assms(2) show ?case by (subst wait_not_full.simps) simp
next
  case (Suc t)
  have "dev_poll E q w = (q, tick w)" using assms(1) by (simp add: dev_poll_def device_stopped_def)
  with assms(2) Suc show ?case by (subst wait_not_full.simps) (simp add: Let_def)
qed

definition queues_full :: "mapt_info \<Rightarrow> bool" where
  "queues_full mi \<longleftrightarrow> (case qc_queue (mi_queue_ctx mi) of None \<Rightarrow> False | Some qs \<Rightarrow>
     list_all (\<lambda>q. \<not> queue_has_space (ct_ucmdq_pi (qm_ctrl q)) (ct_ucmdq_ci (qm_ctrl q)) (qc_cmd_que_pi_size (mi_queue_ctx mi))
       (of_nat (CMD_NUM_PER_PLBI * plbi_num mi))) qs)"

lemma send_cmd_stopped:
  assumes "device_stopped E" "queues_full mi" "qc_queue (mi_queue_ctx mi) = Some qs" "i < length qs"
  shows "\<exists>w'. ummu_send_cmd E cmd mi i w = Some (- ETIMEDOUT, mi, w')"
proof -
  let ?q = "qs ! i"
  have "\<not> queue_has_space (ct_ucmdq_pi (qm_ctrl ?q)) (ct_ucmdq_ci (qm_ctrl ?q)) (qc_cmd_que_pi_size (mi_queue_ctx mi))
       (of_nat (CMD_NUM_PER_PLBI * plbi_num mi))" using assms(2-4) by (simp add: queues_full_def list_all_length)
  from wait_not_full_stopped [OF assms(1) this, of MAX_WAIT_NOT_FULL_TIMES WAIT_NOT_FULL_INTERVAL_US w]
  show ?thesis using assms(3,4) by (auto simp: ummu_send_cmd_def send_on_queue_def arr_rd_def Let_def simp del: of_nat_mult)
qed

text \<open>Behind full queues of stopped devices an invalidation is dropped, and no caller learns of it:
  \<^verbatim>\<open>ummu_send_plbi\<close> has no result.\<close>

lemma send_plbi_stopped:
  assumes "device_stopped E" "queues_ok mi" "queues_full mi" "mi_kcmd_plbi mi = 0"
  shows "\<exists>w'. ummu_send_plbi E fd cmd mi info w = Some (mi, w')"
proof -
  obtain qs where qs: "qc_queue (mi_queue_ctx mi) = Some qs" "length qs = unat (qc_ummu_cnt (mi_queue_ctx mi))"
    by (rule queues_okE [OF assms(2)])
  have "\<exists>w'. fold_opt (\<lambda>i (m, w). do { (_, m', w') \<leftarrow> ummu_send_cmd E cmd m i w; Some (m', w') }) is (mi, w) = Some (mi, w')"
    if "\<forall>i \<in> set is. i < length qs" for "is" w
    using that
  proof (induction "is" arbitrary: w)
    case (Cons i "is")
    obtain w1 where "ummu_send_cmd E cmd mi i w = Some (- ETIMEDOUT, mi, w1)"
      using send_cmd_stopped [OF assms(1,3) qs(1), of i cmd w] Cons.prems by auto
    with Cons show ?case by simp
  qed simp
  then show ?thesis using assms(4) qs(2) by (simp add: ummu_send_plbi_def)
qed

section \<open>Layout of the queues\<close>

text \<open>With pages of \<open>2 ^ p\<close> bytes the shift is \<open>p\<close>, and no size computed from it wraps.\<close>

lemma ffsl_pow:
  assumes "q < 64"
  shows "builtin_ffsl (2 ^ q) = Suc q"
proof -
  have "bit (2 ^ q :: u64) i \<longleftrightarrow> i = q" for i using assms by (auto simp: bit_exp_iff)
  then have "find (bit (2 ^ q :: u64)) [0..<64] = find (\<lambda>i. i = q) [0..<64]" by (intro find_cong) simp_all
  also have "\<dots> = Some q" unfolding find_Some_iff using assms by (intro exI [of _ q]) auto
  finally show ?thesis by (simp add: builtin_ffsl_def)
qed

lemma unat_pow64:
  assumes "q \<le> 40"
  shows "unat (2 ^ q :: u64) = 2 ^ q"
proof -
  have "(2 :: nat) ^ q \<le> 2 ^ 40" by (rule power_increasing [OF assms]) simp
  then have "(2 :: nat) ^ q < 2 ^ 64" by simp
  then have "unat (of_nat (2 ^ q) :: u64) = 2 ^ q" by (simp only: unat_of_nat mod_less len_of_numeral_defs) simp
  then show ?thesis by simp
qed

lemma page_shift:
  assumes "unat (os_getpagesize E) = 2 ^ p" "12 \<le> p" "p \<le> 17"
  shows "os_getpagesize E = 2 ^ p" "PAGE_SHIFT E = p"
proof -
  have "of_nat (unat (os_getpagesize E)) = (of_nat (2 ^ p) :: u64)" by (simp only: assms(1))
  then show e: "os_getpagesize E = 2 ^ p" by simp
  note u = unat_pow64
  have "unat (2 ^ p div 0x1000 :: u64) = 2 ^ p div 2 ^ 12" using u [of p] assms by (simp add: unat_div)
  also have "\<dots> = unat (2 ^ (p - 12) :: u64)" using assms u [of "p - 12"] by (simp add: power_diff)
  finally have d: "2 ^ p div 0x1000 = (2 ^ (p - 12) :: u64)" by (simp only: word_unat_eq_iff)
  have "0 < unat (2 ^ (p - 12) :: u64)" using u [of "p - 12"] assms by simp
  then have "0 < (2 ^ (p - 12) :: u64)" by (simp only: word_less_nat_alt unat_0)
  then show "PAGE_SHIFT E = p" using assms ffsl_pow [of "p - 12"] by (simp add: PAGE_SHIFT_def e d builtin_ctz_def)
qed

lemma unat_u8: "unat (ucast (x :: u8) :: u16) = unat x"
proof -
  have "unat x < 256" using unsigned_less [of x] by simp
  then show ?thesis by (simp add: unsigned_ucast_eq take_bit_nat_eq_self)
qed

lemma que_size_value:
  assumes "k \<le> 4" "12 \<le> p" "unat (order :: u8) + p \<le> 19"
  shows "unat (ucast order + ucast (of_nat p :: u8) - of_nat k :: u16) = unat order + p - k"
proof -
  have "unat (of_nat p :: u8) = p" using assms(3) by (simp add: unat_of_nat)
  then have a: "unat (ucast order + ucast (of_nat p :: u8) :: u16) = unat order + p"
    using assms(3) by (simp add: unat_word_ariths unat_u8)
  have k: "unat (of_nat k :: u16) = k" using assms(1) by (simp add: unat_of_nat)
  have "(of_nat k :: u16) \<le> ucast order + ucast (of_nat p :: u8)" unfolding word_le_nat_alt a k using assms(1,2) by simp
  then show ?thesis by (simp only: unat_sub a k)
qed

lemma queue_init_loop_length: "length (queue_init_loop E info c sz i k start) = k"
  by (induction k arbitrary: i start) (simp_all split: prod.split)

lemma unat_sum:
  fixes a b :: u64
  assumes "unat a + unat b < 2 ^ 64"
  shows "unat (a + b) = unat a + unat b"
  using assms by (simp add: unat_word_ariths)

text \<open>What a masked index selects: a slot of the ring.\<close>

lemma slot_end: "2 ^ s * k = A \<Longrightarrow> k * (x mod 2 ^ s) + k \<le> (A :: nat)"
proof -
  assume A: "2 ^ s * k = A"
  have "x mod 2 ^ s + 1 \<le> 2 ^ s" by (simp add: Suc_leI)
  then have "k * (x mod 2 ^ s + 1) \<le> k * 2 ^ s" by (rule mult_le_mono2)
  with A show ?thesis by (simp add: mult.commute)
qed

lemma queue_init_loop_nth:
  "j < k \<Longrightarrow> queue_init_loop E info c sz i k start ! j =
     (case os_queue_mem E c (i + j) of (cmds, cpls, ctrl) \<Rightarrow>
        \<lparr>qa_cmd_entry = start + of_nat j * sz,
         qa_cpl_entry = start + of_nat j * sz + os_getpagesize E * push_bit (unat (tf_pcmdq_order info)) 1,
         qa_ctrl_page = start + of_nat j * sz + os_getpagesize E *
           (push_bit (unat (tf_pcmdq_order info)) 1 + ucast (push_bit (unat (tf_pcplq_order info)) 1 :: u32)),
         qm_cmd = cmds, qm_cpl = cpls, qm_ctrl = ctrl\<rparr>)"
proof (induction k arbitrary: i start j)
  case (Suc k)
  obtain cmds cpls ctrl where m: "os_queue_mem E c i = (cmds, cpls, ctrl)" by (rule prod_cases3)
  show ?case
  proof (cases j)
    case 0
    then show ?thesis by (simp add: m)
  next
    case (Suc j')
    with Suc.prems have "j' < k" by simp
    from Suc.IH [OF this, of "Suc i" "start + sz"] show ?thesis by (simp add: m Suc algebra_simps)
  qed
qed simp


text \<open>The words in the layout of one queue, as numbers.\<close>

lemma queue_layout:
  fixes E :: os_env and info :: tid_info
  assumes P: "unat (os_getpagesize E) = 2 ^ p" "12 \<le> p" and o: "unat (tf_pcmdq_order info) + p \<le> 19" "unat (tf_pcplq_order info) + p \<le> 17"
  defines "sz \<equiv> os_getpagesize E * (1 + push_bit (unat (tf_pcmdq_order info)) 1 + push_bit (unat (tf_pcplq_order info)) 1)"
    and "n \<equiv> 2 ^ (unat (tf_pcmdq_order info) + p) + 2 ^ (unat (tf_pcplq_order info) + p) + 2 ^ p"
  shows "unat sz = n" "n \<le> 2 ^ 20"
    "unat (os_getpagesize E * push_bit (unat (tf_pcmdq_order info)) 1) = 2 ^ (unat (tf_pcmdq_order info) + p)"
    "unat (os_getpagesize E * (push_bit (unat (tf_pcmdq_order info)) 1 + ucast (push_bit (unat (tf_pcplq_order info)) 1 :: u32)))
       = 2 ^ (unat (tf_pcmdq_order info) + p) + 2 ^ (unat (tf_pcplq_order info) + p)"
proof -
  let ?o = "unat (tf_pcmdq_order info)" and ?c = "unat (tf_pcplq_order info)"
  have p: "p \<le> 17" "?o \<le> 7" "?c \<le> 5" using assms(2-4) by simp_all
  note e = page_shift(1) [OF P p(1)]
  have c5: "ucast (push_bit ?c 1 :: u32) = (2 ^ ?c :: u64)"
  proof -
    have "?c \<in> {0, 1, 2, 3, 4, 5}" using p(3) by auto
    then show ?thesis by auto
  qed
  have le: "(2::nat) ^ (?o + p) \<le> 2 ^ 19" "(2::nat) ^ (?c + p) \<le> 2 ^ 17" "(2::nat) ^ p \<le> 2 ^ 17"
    by (rule power_increasing; use o p in simp)+
  have w: "push_bit k (1 :: u64) = 2 ^ k" for k by (simp add: push_bit_eq_mult)
  have u: "unat (2 ^ (?o + p) :: u64) = 2 ^ (?o + p)" "unat (2 ^ (?c + p) :: u64) = 2 ^ (?c + p)" "unat (2 ^ p :: u64) = 2 ^ p"
    by (rule unat_pow64; use o p in simp)+
  have s: "sz = 2 ^ (?o + p) + 2 ^ (?c + p) + 2 ^ p"
    unfolding sz_def e w by (simp add: algebra_simps power_add)
  show "n \<le> 2 ^ 20" using le unfolding n_def by simp
  show "unat sz = n" using le unfolding s n_def by (simp add: unat_word_ariths u)
  show "unat (os_getpagesize E * push_bit ?o 1) = 2 ^ (?o + p)"
    unfolding e w by (metis u(1) add.commute power_add)
  have "os_getpagesize E * (push_bit ?o 1 + ucast (push_bit ?c 1 :: u32)) = 2 ^ (?o + p) + 2 ^ (?c + p)"
    unfolding e w c5 by (simp add: algebra_simps power_add)
  then show "unat (os_getpagesize E * (push_bit ?o 1 + ucast (push_bit ?c 1 :: u32))) = 2 ^ (?o + p) + 2 ^ (?c + p)"
    using le by (simp add: unat_word_ariths u)
qed

lemma queue_create_layout:
  assumes k: "mi_kcmd_plbi mi = 0" and P: "unat (os_getpagesize E) = 2 ^ p" "12 \<le> p"
    and o: "unat (tf_pcmdq_order info) + p \<le> 19" "unat (tf_pcplq_order info) + p \<le> 17"
    and c: "ummu_queue_create E mi info fd w = Some ((0, mi'), w')" "qc_queue (mi_queue_ctx mi') = Some qs"
  defines "sz \<equiv> os_getpagesize E * (1 + push_bit (unat (tf_pcmdq_order info)) 1 + push_bit (unat (tf_pcplq_order info)) 1)"
  obtains a c1 where "qs = queue_init_loop E info c1 sz 0 (unat (tf_ummu_cnt info)) a"
    "qc_queue_size (mi_queue_ctx mi') = sz * ucast (tf_ummu_cnt info)"
    "unat (qc_cmd_que_pi_size (mi_queue_ctx mi')) = unat (tf_pcmdq_order info) + p - 4"
    "unat (qc_cpl_que_size (mi_queue_ctx mi')) = unat (tf_pcplq_order info) + p - 2"
    "last (trace w') = SysMmap (sz * ucast (tf_ummu_cnt info)) fd (UMMU_OFFSET_QUE E (mi_tid mi)) a"
proof -
  have p17: "p \<le> 17" using o by simp
  note sh = page_shift(2) [OF P p17]
  have v: "unat (ucast (tf_pcmdq_order info) + ucast (of_nat (PAGE_SHIFT E) :: u8) - ucast CMD_ENTRY_SHIFT :: u16) = unat (tf_pcmdq_order info) + p - 4"
    "unat (ucast (tf_pcplq_order info) + ucast (of_nat (PAGE_SHIFT E) :: u8) - ucast CPL_ENTRY_SHIFT :: u16) = unat (tf_pcplq_order info) + p - 2"
    using que_size_value [of 4 p "tf_pcmdq_order info"] que_size_value [of 2 p "tf_pcplq_order info"] P(2) o
    by (simp_all add: sh CMD_ENTRY_SHIFT_def CPL_ENTRY_SHIFT_def)
  obtain mem w1 where m: "c_malloc E w = (mem, w1)" by (rule prod.exhaust)
  obtain a w2 where g: "ummu_get_core_buf E (mi_tid mi) BASE_MODE_QUEUE (sz * ucast (tf_ummu_cnt info)) fd 0 w1 = (a, w2)" by (rule prod.exhaust)
  have ord: "\<not> 64 \<le> unat (tf_pcmdq_order info)" "\<not> 64 \<le> unat (tf_pcplq_order info)" "\<not> 32 \<le> unat (tf_pcplq_order info)"
    using o P(2) by simp_all
  have mem: mem and a: "\<not> CORE_BUF_CHECK_INVALID a"
    using c(1) k m g ord unfolding ummu_queue_create_def Let_def sz_def [symmetric] by (auto simp: errno_defs split: if_splits)
  have run: "mi' = mi\<lparr>mi_queue_ctx := \<lparr>qc_ummu_cnt = tf_ummu_cnt info, qc_queue_size = sz * ucast (tf_ummu_cnt info),
      qc_cmd_que_pi_size = ucast (tf_pcmdq_order info) + ucast (of_nat (PAGE_SHIFT E) :: u8) - ucast CMD_ENTRY_SHIFT,
      qc_cpl_que_size = ucast (tf_pcplq_order info) + ucast (of_nat (PAGE_SHIFT E) :: u8) - ucast CPL_ENTRY_SHIFT,
      qc_queue = Some (queue_init_loop E info (clock w1) sz 0 (unat (tf_ummu_cnt info)) a)\<rparr>\<rparr> \<and> w' = w2"
    using c(1) k m g ord mem a unfolding ummu_queue_create_def Let_def sz_def [symmetric] by simp
  have "a \<noteq> 0" using a by (simp add: CORE_BUF_CHECK_INVALID_def)
  with g have "last (trace w2) = SysMmap (sz * ucast (tf_ummu_cnt info)) fd (UMMU_OFFSET_QUE E (mi_tid mi)) a"
    by (auto simp: ummu_get_core_buf_def sys_mmap_def Let_def split: if_splits)
  then show thesis using run c(2) v by (intro that [of "clock w1" a]) simp_all
qed

text \<open>Where queue \<open>i\<close> lies, and the slots that an index selects.\<close>

lemma queue_place:
  fixes E :: os_env and info :: tid_info and base :: u64
  assumes P: "unat (os_getpagesize E) = 2 ^ p" "12 \<le> p" and o: "unat (tf_pcmdq_order info) + p \<le> 19" "unat (tf_pcplq_order info) + p \<le> 17"
    and i: "i < k" "k < 2 ^ 32"
    and sz: "sz = os_getpagesize E * (1 + push_bit (unat (tf_pcmdq_order info)) 1 + push_bit (unat (tf_pcplq_order info)) 1)"
    and n: "n = 2 ^ (unat (tf_pcmdq_order info) + p) + 2 ^ (unat (tf_pcplq_order info) + p) + 2 ^ p"
    and q: "q = queue_init_loop E info c sz 0 k base ! i"
    and fin: "unat base + (i + 1) * n \<le> 2 ^ 64"
  shows "unat (qa_cmd_entry q) = unat base + i * n"
    "unat (qa_cpl_entry q) = unat base + i * n + 2 ^ (unat (tf_pcmdq_order info) + p)"
    "unat (qa_ctrl_page q) = unat base + i * n + (2 ^ (unat (tf_pcmdq_order info) + p) + 2 ^ (unat (tf_pcplq_order info) + p))"
proof -
  let ?o = "unat (tf_pcmdq_order info)" and ?c = "unat (tf_pcplq_order info)"
  note l = queue_layout [OF P o, folded sz n]
  have room: "unat base + i * n + (2 ^ (?o + p) + 2 ^ (?c + p) + 2 ^ p) \<le> 2 ^ 64" using fin by (simp add: n algebra_simps)
  have pos: "(0::nat) < 2 ^ p" by simp
  with room have lt: "unat base + i * n < 2 ^ 64" by linarith
  have "unat (of_nat i :: u64) = i" using i by (simp add: unat_of_nat)
  with lt have "unat (of_nat i * sz) = i * n" by (simp add: unat_word_ariths l(1))
  with lt have start: "unat (base + of_nat i * sz) = unat base + i * n" using unat_sum [of base "of_nat i * sz"] by simp
  obtain cmds cpls ctrl where m: "os_queue_mem E c i = (cmds, cpls, ctrl)" by (rule prod_cases3)
  define X Y where XY: "X = os_getpagesize E * push_bit ?o 1"
    "Y = os_getpagesize E * (push_bit ?o 1 + ucast (push_bit ?c 1 :: u32))"
  note xy = l(3,4) [folded XY]
  from room pos have sums: "unat (base + of_nat i * sz + X) = unat base + i * n + 2 ^ (?o + p)"
    "unat (base + of_nat i * sz + Y) = unat base + i * n + (2 ^ (?o + p) + 2 ^ (?c + p))"
    using unat_sum [of "base + of_nat i * sz" X] unat_sum [of "base + of_nat i * sz" Y] unfolding start xy by linarith+
  show "unat (qa_cmd_entry q) = unat base + i * n" "unat (qa_cpl_entry q) = unat base + i * n + 2 ^ (?o + p)"
    "unat (qa_ctrl_page q) = unat base + i * n + (2 ^ (?o + p) + 2 ^ (?c + p))"
    using start sums by (simp_all add: q queue_init_loop_nth [OF i(1)] m XY)
qed

lemma cmd_slot_end:
  assumes "unat sz = o' + p - 4" "12 \<le> p"
  shows "16 * nat (Q_IDX x sz) + 16 \<le> 2 ^ (o' + p)"
proof -
  have "o' + p = o' + p - 4 + 4" using assms(2) by simp
  then have "2 ^ (o' + p - 4) * 16 = (2 ^ (o' + p) :: nat)" using power_add [of "2::nat" "o' + p - 4" 4] by simp
  then show ?thesis unfolding Q_IDX_eq assms(1) nat_int by (rule slot_end)
qed

lemma cpl_slot_end:
  assumes "unat sz = c + p - 2" "12 \<le> p"
  shows "4 * unat (x AND ucast (MAX_CMD_QUE_INDEX sz) :: u16) + 4 \<le> 2 ^ (c + p)"
proof -
  have "int (unat (x AND ucast (MAX_CMD_QUE_INDEX sz) :: u16)) = int (unat x mod 2 ^ (c + p - 2))"
    unfolding cpl_index_mask Q_IDX_eq assms(1) by (rule refl)
  then have m: "unat (x AND ucast (MAX_CMD_QUE_INDEX sz) :: u16) = unat x mod 2 ^ (c + p - 2)" by (simp only: of_nat_eq_iff)
  have "c + p = c + p - 2 + 2" using assms(2) by simp
  then have "2 ^ (c + p - 2) * 4 = (2 ^ (c + p) :: nat)" using power_add [of "2::nat" "c + p - 2" 2] by simp
  then show ?thesis unfolding m by (rule slot_end)
qed

section \<open>Properties\<close>

text \<open>C29: For a queue of \<open>2 ^ s\<close> slots (\<open>s \<le> 15\<close>), an index with its wrap bit is a number modulo
  \<open>2 ^ (s + 1)\<close>: \<^verbatim>\<open>ummu_update_queue_index\<close> adds one, and \<^verbatim>\<open>queue_has_space\<close> holds exactly when
  the outstanding entries and \<open>n\<close> more fit into the queue, with no 16-bit wrap-around in between.\<close>

theorem queue_index_arithmetic:
  assumes "unat s \<le> 15" "unat pi < 2 ^ Suc (unat s)" "unat ci < 2 ^ Suc (unat s)"
    "(unat pi + 2 ^ Suc (unat s) - unat ci) mod 2 ^ Suc (unat s) \<le> 2 ^ unat s"
  shows "unat (ummu_update_queue_index pi s) = (unat pi + 1) mod 2 ^ Suc (unat s) \<and>
    (queue_has_space pi ci s n \<longleftrightarrow>
       (unat pi + 2 ^ Suc (unat s) - unat ci) mod 2 ^ Suc (unat s) + unat n \<le> 2 ^ unat s)"
  using update_queue_index_nat [OF assms(1,2)] queue_has_space_iff [OF assms(1-3), of n] assms(4)
  by (simp only: queue_used_def)

theorem queue_index_arithmetic_witness:
  "unat (ummu_update_queue_index 7 2) = 0 \<and> queue_has_space 7 4 2 1 \<and> \<not> queue_has_space 7 4 2 2"
  using queue_index_arithmetic [of 2 7 4 1] queue_index_arithmetic [of 2 7 4 2] by simp

text \<open>C20: Sending a command on one hardware queue always returns.  Whatever the device does within
  its rights, the queue behaves as a FIFO list: either the call times out and the outstanding
  commands are the old ones less what the device consumed, or it succeeds and exactly the
  pairs (command, PSYNC) are appended, nothing is overwritten or reordered.\<close>

theorem send_is_fifo_append:
  assumes "device_ok E (qc_cmd_que_pi_size qc) (qc_cpl_que_size qc)"
    "queue_ok (qc_cmd_que_pi_size qc) (qc_cpl_que_size qc) q"
  shows "\<exists>r q' w' k. send_on_queue E cmd qc (plbi_num mi) q w = Some (r, q', w') \<and>
    queue_ok (qc_cmd_que_pi_size qc) (qc_cpl_que_size qc) q' \<and>
    (r = - ETIMEDOUT \<and>
       outstanding (qc_cmd_que_pi_size qc) q' = drop k (outstanding (qc_cmd_que_pi_size qc) q) \<or>
     r = 0 \<and> outstanding (qc_cmd_que_pi_size qc) q' =
       drop k (outstanding (qc_cmd_que_pi_size qc) q @ concat (replicate (plbi_num mi) [cmd, cmd_psync])))"
proof -
  have "plbi_num mi < 2 ^ 15" by (simp add: plbi_num_def)
  from send_on_queue_ok [OF assms this] show ?thesis by blast
qed

definition sample_queue :: queue_args where
  "sample_queue = \<lparr>qa_cmd_entry = 0x10000, qa_cpl_entry = 0x11000, qa_ctrl_page = 0x12000,
     qm_cmd = (\<lambda>_. cmd_psync), qm_cpl = (\<lambda>_. \<lparr>cp_status = 1, cp_cmdq_ci = 7\<rparr>),
     qm_ctrl = \<lparr>ct_ucmdq_pi = 7, ct_ucmdq_ci = 5, ct_ucplq_pi = 1, ct_ucplq_ci = 0\<rparr>\<rparr>"

definition sample_queue_ctx :: queue_ctx where
  "sample_queue_ctx = \<lparr>qc_ummu_cnt = 1, qc_queue_size = 0x3000, qc_cmd_que_pi_size = 2, qc_cpl_que_size = 2,
     qc_queue = Some [sample_queue]\<rparr>"

lemma quiet_device_ok: "device_ok quiet_env sz csz"
  unfolding device_ok_def
proof (intro allI impI)
  fix c q ci pi cpl
  assume d: "os_device quiet_env c q = (ci, pi, cpl)" and q: "queue_ok sz csz q"
  let ?pi = "ct_ucmdq_pi (qm_ctrl q)" and ?ci = "ct_ucmdq_ci (qm_ctrl q)"
  have l: "ring_legal (unat sz) ?ci" "ring_legal (unat sz) ?pi" and p: "ring_legal (unat csz) (ct_ucplq_pi (qm_ctrl q))"
    using q by (simp_all add: queue_ok_def Let_def)
  have "unat ?pi = (unat ?ci + queue_used (unat sz) ?pi ?ci) mod 2 ^ Suc (unat sz)"
    using ring.unat_nxt_pow [OF l(1)] ring.reach [OF l] by metis
  moreover have "ci = ?pi" "pi = ct_ucplq_pi (qm_ctrl q)" using d by (auto simp: quiet_env_def)
  ultimately show "ring_legal (unat csz) pi \<and> (\<exists>k \<le> queue_used (unat sz) ?pi ?ci.
      unat ci = (unat ?ci + k) mod 2 ^ Suc (unat sz))" using p by blast
qed

lemma sample_queue_ok: "queue_ok 2 2 sample_queue"
  by (simp add: queue_ok_def sample_queue_def ring_legal_def queue_used_def)

lemma sample_plbi_ready: "mi_queue_ctx mi = sample_queue_ctx \<Longrightarrow> plbi_ready quiet_env mi"
  using sample_queue_ok by (simp add: plbi_ready_def queues_ok_def mi_device_ok_def quiet_device_ok sample_queue_ctx_def)

theorem send_is_fifo_append_witness:
  "\<exists>r q' w'. send_on_queue quiet_env cmd_psync sample_queue_ctx (plbi_num (sample_table_mapt [])) sample_queue world0 =
     Some (r, q', w') \<and> queue_ok 2 2 q'"
proof -
  have "qc_cmd_que_pi_size sample_queue_ctx = 2" "qc_cpl_que_size sample_queue_ctx = 2"
    by (simp_all add: sample_queue_ctx_def)
  then show ?thesis
    using send_is_fifo_append [of quiet_env sample_queue_ctx sample_queue cmd_psync "sample_table_mapt []" world0]
      quiet_device_ok sample_queue_ok by (simp only:) blast
qed

text \<open>The wait for queue space is bounded for every device: it sleeps at most 301 times, and a
  timeout is reported only after exactly 301 sleeps.\<close>

theorem wait_for_space_bounded:
  assumes "wait_not_full E q sz n MAX_WAIT_NOT_FULL_TIMES WAIT_NOT_FULL_INTERVAL_US w = (b, q', w')"
  shows "length (trace w') \<le> length (trace w) + 301 \<and> (b \<or> length (trace w') = length (trace w) + 301)"
  using wait_not_full_sleeps [OF assms] by (auto simp: MAX_WAIT_NOT_FULL_TIMES_def split: if_splits)

theorem wait_for_space_bounded_witness:
  "length (trace (snd (snd (wait_not_full quiet_env sample_queue 2 2 MAX_WAIT_NOT_FULL_TIMES
     WAIT_NOT_FULL_INTERVAL_US world0)))) \<le> 301"
proof -
  obtain b q w where "wait_not_full quiet_env sample_queue 2 2 MAX_WAIT_NOT_FULL_TIMES
     WAIT_NOT_FULL_INTERVAL_US world0 = (b, q, w)" by (rule prod_cases3)
  from wait_for_space_bounded [OF this] this show ?thesis by (simp add: world0_def)
qed

text \<open>C34: Reading completions always ends, for any contents of the completion entries, when both indices of
  the completion queue are legal for its size.  It returns -EINVAL exactly for an empty queue, which it
  leaves alone.  Otherwise it looks at the entries from the consumer to the producer index in their
  order, for the first that names the awaited producer index: it returns 0 with the consumer index just
  past that entry, or -EAGAIN with every completion consumed when there is none.\<close>

theorem completion_scan_ends:
  assumes "dev_poll E q w = (q1, w1)" "ring_legal (unat csz) (ct_ucplq_pi (qm_ctrl q1))"
    "ring_legal (unat csz) (ct_ucplq_ci (qm_ctrl q1))"
  shows "let pi = ct_ucplq_pi (qm_ctrl q1); ci = ct_ucplq_ci (qm_ctrl q1);
      (r, ci') = (if pi = ci then (- EINVAL, ci)
        else case find (\<lambda>k. cp_cmdq_ci (qm_cpl q1 (unat (que_next csz k ci) mod 2 ^ unat csz)) = ps) [0..<queue_used (unat csz) pi ci] of
          Some k \<Rightarrow> (0, que_next csz (Suc k) ci) | None \<Rightarrow> (- EAGAIN, pi)) in
    ummu_get_cpl_psync E csz q ps w = Some (r, q1\<lparr>qm_ctrl := (qm_ctrl q1)\<lparr>ct_ucplq_ci := ci'\<rparr>\<rparr>, w1) \<and>
    ring_legal (unat csz) ci' \<and> (r = - EINVAL \<longleftrightarrow> pi = ci)"
proof -
  let ?pi = "ct_ucplq_pi (qm_ctrl q1)" and ?ci = "ct_ucplq_ci (qm_ctrl q1)" and ?m = "ucast (MAX_CMD_QUE_INDEX csz) :: u16"
  have m: "unat (i AND ?m) = unat i mod 2 ^ unat csz" for i
  proof -
    have "int (unat (i AND ?m)) = int (unat i mod 2 ^ unat csz)" by (simp only: cpl_index_mask Q_IDX_eq)
    then show ?thesis by (simp only: of_nat_eq_iff)
  qed
  have keep: "q1\<lparr>qm_ctrl := (qm_ctrl q1)\<lparr>ct_ucplq_ci := ?ci\<rparr>\<rparr> = q1" by simp
  show ?thesis
  proof (cases "?pi = ?ci")
    case True
    have "ummu_get_cpl_psync E csz q ps w = Some (- EINVAL, q1, w1)"
      unfolding ummu_get_cpl_psync_def assms(1) Let_def prod.case if_P [OF True] by (rule refl)
    then show ?thesis unfolding Let_def if_P [OF True] prod.case keep using assms(3) True by (intro conjI) simp_all
  next
    case False
    note legal = ring.legal_nxt_pow [OF assms(3)] ring.legal_nxt [OF ring.legal_nxt_pow [OF assms(3)]]
    let ?f = "find (\<lambda>k. cp_cmdq_ci (qm_cpl q1 (unat (que_next csz k ?ci) mod 2 ^ unat csz)) = ps) [0..<queue_used (unat csz) ?pi ?ci]"
    have run: "ummu_get_cpl_psync E csz q ps w = do {
        (r, ci') \<leftarrow> (case ?f of Some k \<Rightarrow> Some (0, que_next csz (Suc k) ?ci) | None \<Rightarrow> Some (- EAGAIN, ?pi));
        Some (r, q1\<lparr>qm_ctrl := (qm_ctrl q1)\<lparr>ct_ucplq_ci := ci'\<rparr>\<rparr>, w1)}"
      unfolding ummu_get_cpl_psync_def assms(1) Let_def prod.case cpl_loop_find [OF assms(2,3)] m using False by (simp only: if_False)
    show ?thesis
    proof (cases ?f)
      case None
      have "EAGAIN \<noteq> EINVAL" by (simp add: errno_defs)
      with None False run assms(2) show ?thesis by simp
    next
      case (Some k)
      have "EINVAL \<noteq> 0" by (simp add: errno_defs)
      with Some False run legal show ?thesis by simp
    qed
  qed
qed

theorem completion_scan_ends_witness:
  "\<exists>q' w'. ummu_get_cpl_psync quiet_env 2 sample_queue 7 world0 = Some (0, q', w') \<and> ct_ucplq_ci (qm_ctrl q') = 1"
proof -
  obtain q1 w1 where p: "dev_poll quiet_env sample_queue world0 = (q1, w1)" by (rule prod.exhaust)
  then have q: "ct_ucplq_pi (qm_ctrl q1) = 1" "ct_ucplq_ci (qm_ctrl q1) = 0" "qm_cpl q1 = qm_cpl sample_queue"
    by (auto simp: dev_poll_def quiet_env_def sample_queue_def)
  have n: "queue_used 2 1 0 = 1" "ummu_update_queue_index 0 2 = 1" by (simp add: queue_used_def) code_simp
  have h: "cp_cmdq_ci (qm_cpl sample_queue i) = 7" for i by (simp add: sample_queue_def)
  from completion_scan_ends [OF p, of 2 7] show ?thesis by (simp add: q n h ring_legal_def)
qed

text \<open>C35: The range field of an invalidation is the smallest power of two that covers the size.\<close>

theorem plbi_range_field_least:
  fixes sz :: u64
  assumes "sz > 0"
  shows "unat (get_minist_log2size_range sz) = (LEAST k. unat sz \<le> 2 ^ k)"
  by (rule minist_log2size_range_least [OF assms])

theorem plbi_range_field_least_witness:
  "unat (get_minist_log2size_range 0x3000) = 14 \<and> (LEAST k. unat (0x3000 :: u64) \<le> 2 ^ k) = 14"
proof -
  have v: "unat (get_minist_log2size_range 0x3000) = 14" by code_simp
  with plbi_range_field_least [of "0x3000"] show ?thesis by simp
qed

text \<open>C33: An invalidation is sent to every hardware queue: \<^verbatim>\<open>ummu_send_plbi\<close>, on queues in order with devices that
  keep to their contract (\<open>plbi_ready\<close>), always returns, keeps all queues in order and changes nothing else of
  the TID.  Through the queues, each one, whatever happened to the others, either gets the command with its
  PSYNC (twice with \<^verbatim>\<open>double_plbi\<close>) appended to what was outstanding, its producer index moved past them, or
  was still too full at the last poll, and then keeps its producer index and only what the device consumed
  is gone.  With kernel commands the one ioctl that belongs to the opcode is made, if the driver's file is
  open, and no queue is touched.\<close>

theorem plbi_total:
  assumes "plbi_ready E mi"
  shows "\<exists>mi' w'. ummu_send_plbi E fd cmd mi info w = Some (mi', w') \<and> plbi_ready E mi' \<and>
    mi'\<lparr>mi_queue_ctx := mi_queue_ctx mi\<rparr> = mi \<and>
    (if mi_kcmd_plbi mi \<noteq> 0
     then mi' = mi \<and> (\<exists>r. trace w' = trace w @
       (if fd < 0 then [] else if ce_opcode cmd = PLBI_VA_OP then [SysIoctl UMMU_IOCPLBI_VA info r]
        else if ce_opcode cmd = PLBI_ALL_OP then [SysIoctl UMMU_IOCPLBI_ALL info r] else []))
     else \<exists>qs qs'. qc_queue (mi_queue_ctx mi) = Some qs \<and> qc_queue (mi_queue_ctx mi') = Some qs' \<and>
       length qs = unat (qc_ummu_cnt (mi_queue_ctx mi)) \<and> length qs' = length qs \<and>
       (\<forall>i < length qs. sent_or_full (qc_cmd_que_pi_size (mi_queue_ctx mi)) (plbi_pairs mi cmd) (qs ! i) (qs' ! i)))"
proof -
  from send_plbi_ok [OF assms, of fd cmd info w] obtain mi' w' where
    s: "ummu_send_plbi E fd cmd mi info w = Some (mi', w')" "plbi_ready E mi'" "queue_frame mi mi'" by blast
  have frame: "mi'\<lparr>mi_queue_ctx := mi_queue_ctx mi\<rparr> = mi" using s(3) by (auto simp: queue_frame_def)
  show ?thesis
  proof (cases "mi_kcmd_plbi mi \<noteq> 0")
    case True
    then have "mi' = mi" "w' = ummu_kcmd_plbi E fd info (ce_opcode cmd) w" using s(1) by (auto simp: ummu_send_plbi_def)
    with True s frame show ?thesis by (auto simp: ummu_kcmd_plbi_def sys_ioctl_def split: prod.splits)
  next
    case False
    then have k: "mi_kcmd_plbi mi = 0" and d: "mi_device_ok E mi" "queues_ok mi" using assms by (auto simp: plbi_ready_def)
    obtain qs where qs: "qc_queue (mi_queue_ctx mi) = Some qs" "length qs = unat (qc_ummu_cnt (mi_queue_ctx mi))" by (rule queues_okE [OF d(2)])
    obtain qs' where q: "qc_queue (mi_queue_ctx mi') = Some qs'" "length qs' = length qs"
      "\<forall>i < length qs. queue_ok (qc_cmd_que_pi_size (mi_queue_ctx mi)) (qc_cpl_que_size (mi_queue_ctx mi)) (qs ! i) \<and>
         (\<exists>r w1 w2. send_on_queue E cmd (mi_queue_ctx mi) (plbi_num mi) (qs ! i) w1 = Some (r, qs' ! i, w2))"
      by (rule send_plbi_each [OF assms k qs(1) s(1)])
    have "\<forall>i < length qs. sent_or_full (qc_cmd_que_pi_size (mi_queue_ctx mi)) (plbi_pairs mi cmd) (qs ! i) (qs' ! i)"
      using q(3) send_on_queue_sent [OF d(1)] by blast
    with False s(1,2) frame qs q(1,2) show ?thesis by auto
  qed
qed

theorem plbi_total_witness:
  "\<exists>mi' w' qs'. ummu_send_plbi quiet_env 3 cmd_psync ((sample_table_mapt [])\<lparr>mi_queue_ctx := sample_queue_ctx\<rparr>)
      zero_tid_info world0 = Some (mi', w') \<and> qc_queue (mi_queue_ctx mi') = Some qs' \<and>
     sent_or_full 2 (plbi_pairs (sample_table_mapt []) cmd_psync) sample_queue (qs' ! 0)"
proof -
  let ?mi = "(sample_table_mapt [])\<lparr>mi_queue_ctx := sample_queue_ctx\<rparr>"
  have r: "plbi_ready quiet_env ?mi" by (rule sample_plbi_ready) simp
  have f: "mi_kcmd_plbi ?mi = 0" "plbi_pairs ?mi cmd_psync = plbi_pairs (sample_table_mapt []) cmd_psync"
    by (simp_all add: sample_table_mapt_def plbi_pairs_def plbi_num_def)
  from plbi_total [OF r, of 3 cmd_psync zero_tid_info world0] f show ?thesis by (auto simp: sample_queue_ctx_def)
qed

text \<open>C37: The queues lie in their mapping one after the other, and no slot that an index selects is outside
  its own area.  When a TID is created with user-mode queues, pages of \<open>2 ^ p\<close> bytes (at least 4K) and orders for
  which the indices and their wrap bit fit in 16 bits, and the area that mmap returned does not pass the end
  of the address space: the size of the mapping is the number of queues times the size of one; queue \<open>i\<close> starts
  at that many sizes from the address that mmap returned; for every value of an index, legal or not, the 16 bytes of the
  command it selects end before the completion entries and the 4 bytes of the completion entry it selects end before the
  control page, which ends where the next queue, or the mapping, does.\<close>

theorem queue_slots_in_bounds:
  assumes "mi_kcmd_plbi mi = 0" "unat (os_getpagesize E) = 2 ^ p" "12 \<le> p"
    "unat (tf_pcmdq_order info) + p \<le> 19" "unat (tf_pcplq_order info) + p \<le> 17"
    "ummu_queue_create E mi info fd w = Some ((0, mi'), w')" "qc_queue (mi_queue_ctx mi') = Some qs"
    "last (trace w') = SysMmap area fd off base" "unat base + unat area \<le> 2 ^ 64" "i < length qs"
  shows "let qc = mi_queue_ctx mi'; q = qs ! i; one = unat area div length qs in
    area = qc_queue_size qc \<and> length qs = unat (tf_ummu_cnt info) \<and> unat area = length qs * one \<and>
    unat (qa_cmd_entry q) = unat base + i * one \<and>
    (\<forall>pi. unat (qa_cmd_entry q) + 16 * nat (Q_IDX pi (qc_cmd_que_pi_size qc)) + 16 \<le> unat (qa_cpl_entry q)) \<and>
    (\<forall>ci. unat (qa_cpl_entry q) + 4 * unat (ci AND ucast (MAX_CMD_QUE_INDEX (qc_cpl_que_size qc)) :: u16) + 4 \<le> unat (qa_ctrl_page q)) \<and>
    unat (qa_ctrl_page q) + unat (os_getpagesize E) = unat base + (i + 1) * one"
proof -
  let ?o = "unat (tf_pcmdq_order info)" and ?c = "unat (tf_pcplq_order info)" and ?cnt = "tf_ummu_cnt info"
  define sz where "sz = os_getpagesize E * (1 + push_bit ?o 1 + push_bit ?c 1)"
  define n :: nat where "n = 2 ^ (?o + p) + 2 ^ (?c + p) + 2 ^ p"
  note l = queue_layout [OF assms(2-5), folded sz_def n_def]
  obtain c1 where q: "qs = queue_init_loop E info c1 sz 0 (unat ?cnt) base" "area = sz * ucast ?cnt"
      "qc_queue_size (mi_queue_ctx mi') = area"
      "unat (qc_cmd_que_pi_size (mi_queue_ctx mi')) = ?o + p - 4" "unat (qc_cpl_que_size (mi_queue_ctx mi')) = ?c + p - 2"
    by (rule queue_create_layout [OF assms(1-7), folded sz_def]) (use assms(8) in auto)
  have len: "length qs = unat ?cnt" unfolding q(1) using queue_init_loop_length by simp
  have cnt: "unat ?cnt < 2 ^ 32" using unsigned_less [of ?cnt] by simp
  have "unat (ucast ?cnt :: u64) = unat ?cnt" using cnt by (simp add: unsigned_ucast_eq take_bit_nat_eq_self)
  moreover have "n * unat ?cnt \<le> 2 ^ 20 * 2 ^ 32" using l(2) cnt by (intro mult_le_mono) simp_all
  then have "n * unat ?cnt < 2 ^ 64" by simp
  ultimately have tot: "unat area = length qs * n"
    unfolding q(2) by (simp add: unat_word_ariths l(1) len mult.commute)
  have one: "unat area div length qs = n" using tot assms(10) by (cases "qs = []") simp_all
  have "(i + 1) * n \<le> length qs * n" by (rule mult_le_mono1) (use assms(10) in simp)
  with assms(9) tot have fin: "unat base + (i + 1) * n \<le> 2 ^ 64" by simp
  note e = queue_place [OF assms(2-5) assms(10) [unfolded len] cnt sz_def n_def arg_cong [where f = "\<lambda>l. l ! i", OF q(1)] fin]
  have "unat (qa_cmd_entry (qs ! i)) + 16 * nat (Q_IDX x (qc_cmd_que_pi_size (mi_queue_ctx mi'))) + 16 \<le> unat (qa_cpl_entry (qs ! i))" for x
    using cmd_slot_end [OF q(4) assms(3), of x] unfolding e by linarith
  moreover have "unat (qa_cpl_entry (qs ! i)) + 4 * unat (x AND ucast (MAX_CMD_QUE_INDEX (qc_cpl_que_size (mi_queue_ctx mi'))) :: u16) + 4
      \<le> unat (qa_ctrl_page (qs ! i))" for x
    using cpl_slot_end [OF q(5) assms(3), of x] unfolding e by linarith
  moreover have "unat (qa_ctrl_page (qs ! i)) + unat (os_getpagesize E) = unat base + (i + 1) * n"
    unfolding e assms(2) by (simp add: n_def algebra_simps)
  ultimately show ?thesis unfolding Let_def one using q(3) len tot e(1) by simp
qed

definition flat_mapt :: mapt_info where
  "flat_mapt = \<lparr>mi_block_base = NoBase, mi_tid = 5, mi_valid = 1, mi_double_plbi = 0, mi_kcmd_plbi = 0,
     mi_mode = MAPT_MODE_TABLE, mi_queue_ctx = sample_queue_ctx\<rparr>"

theorem queue_slots_in_bounds_witness:
  "\<exists>mi' w' qs. ummu_queue_create quiet_env flat_mapt (zero_tid_info\<lparr>tf_ummu_cnt := 2\<rparr>) 3 world0 = Some ((0, mi'), w') \<and>
     qc_queue (mi_queue_ctx mi') = Some qs \<and> length qs = 2 \<and> unat (qa_cmd_entry (qs ! 1)) = 0x2003000 \<and>
     (\<forall>pi. unat (qa_cmd_entry (qs ! 1)) + 16 * nat (Q_IDX pi (qc_cmd_que_pi_size (mi_queue_ctx mi'))) + 16 \<le> unat (qa_cpl_entry (qs ! 1)))"
proof -
  let ?i = "zero_tid_info\<lparr>tf_ummu_cnt := 2\<rparr>"
  have k: "mi_kcmd_plbi flat_mapt = 0" by (simp add: flat_mapt_def)
  have P: "unat (os_getpagesize quiet_env) = 2 ^ 12" by (simp add: quiet_env_def)
  obtain mi' w' qs where c: "ummu_queue_create quiet_env flat_mapt ?i 3 world0 = Some ((0, mi'), w')"
    "qc_queue (mi_queue_ctx mi') = Some qs" "last (trace w') = SysMmap 0x6000 3 (UMMU_OFFSET_QUE quiet_env (mi_tid flat_mapt)) 0x2000000"
    "length qs = 2"
  proof -
    have m: "c_malloc quiet_env world0 = (True, \<lparr>clock = Suc 0, errno = 0, trace = []\<rparr>)"
      by (simp add: c_malloc_def tick_def quiet_env_def world0_def)
    have a: "ummu_get_core_buf quiet_env tid BASE_MODE_QUEUE 0x6000 3 0 \<lparr>clock = Suc 0, errno = 0, trace = []\<rparr> =
        (0x2000000, \<lparr>clock = 2, errno = 0, trace = [SysMmap 0x6000 3 (UMMU_OFFSET_QUE quiet_env tid) 0x2000000]\<rparr>)" for tid
      by (simp add: ummu_get_core_buf_def sys_mmap_def tick_def log_call_def) (simp add: quiet_env_def)
    have g: "os_getpagesize quiet_env = 4096" by (simp add: quiet_env_def)
    let ?w = "\<lparr>clock = 2, errno = 0, trace = [SysMmap 0x6000 3 (UMMU_OFFSET_QUE quiet_env (mi_tid flat_mapt)) 0x2000000]\<rparr>"
    have "\<exists>qc. ummu_queue_create quiet_env flat_mapt ?i 3 world0 = Some ((0, flat_mapt\<lparr>mi_queue_ctx := qc\<rparr>), ?w) \<and>
        qc_queue qc = Some (queue_init_loop quiet_env ?i 1 0x3000 0 2 0x2000000)"
      by (simp add: ummu_queue_create_def k m a g CORE_BUF_CHECK_INVALID_def zero_tid_info_def Let_def del: queue_init_loop.simps) (intro exI conjI, rule refl, simp del: queue_init_loop.simps)
    then show thesis by (auto simp: queue_init_loop_length intro!: that)
  qed
  from queue_slots_in_bounds [OF k P _ _ _ c(1,2,3), of 1] c show ?thesis
    by (intro exI [of _ mi'] exI [of _ w'] exI [of _ qs]) (auto simp: zero_tid_info_def Let_def)
qed

end
