(* ===== verification/Ummu_LevelBlock.thy ===== *)
theory Ummu_LevelBlock
  imports Ummu_Queue
begin

text \<open>
  \<^verbatim>\<open>src/ummu_level_block.c\<close>: level tables of 512 nodes, four to a mapped block, handed out by a
  bitmap of 2048 level ids.  A pointer to a table node is a reference \<open>nref\<close>: the node on the
  stack of the caller, or a node of a mapped block, given by the block's place in
  \<^verbatim>\<open>mapt_block_array\<close> and the node's offset in the block.  Following a reference into a block
  that is not there, or past its mapped size, is undefined (\<open>None\<close>).
\<close>

section \<open>References to table nodes\<close>

datatype nref = Local | At nat nat

text \<open>
  What a table walk works on: the node on the caller's stack, the table context, the world,
  and \<^verbatim>\<open>data_info->lvl\<close>.
\<close>

record walk =
  wk_root :: table_node
  wk_ctx :: table_ctx
  wk_world :: world
  wk_lvl :: nat

definition TABLE_NODE_SIZE :: nat where "TABLE_NODE_SIZE = 32"

definition node_in_block :: "mapt_block \<Rightarrow> nat \<Rightarrow> bool" where
  "node_in_block b i \<longleftrightarrow> TABLE_NODE_SIZE * (i + 1) \<le> unat (mb_blk_size b)"

definition blk_at :: "nat \<Rightarrow> walk \<Rightarrow> mapt_block option" where
  "blk_at b s = Option.bind (arr_rd (tc_mapt_block_array (wk_ctx s)) b) (\<lambda>x. x)"

definition set_blk :: "nat \<Rightarrow> mapt_block option \<Rightarrow> walk \<Rightarrow> walk option" where
  "set_blk b v s = do {
     arr \<leftarrow> arr_wr (tc_mapt_block_array (wk_ctx s)) b v;
     Some (s\<lparr>wk_ctx := (wk_ctx s)\<lparr>tc_mapt_block_array := arr\<rparr>\<rparr>)
   }"

fun rd_node :: "nref \<Rightarrow> walk \<Rightarrow> table_node option" where
  "rd_node Local s = Some (wk_root s)"
| "rd_node (At b i) s = do {
     blk \<leftarrow> blk_at b s;
     if node_in_block blk i then Some (mb_nodes blk i) else None
   }"

fun wr_node :: "nref \<Rightarrow> table_node \<Rightarrow> walk \<Rightarrow> walk option" where
  "wr_node Local n s = Some (s\<lparr>wk_root := n\<rparr>)"
| "wr_node (At b i) n s = do {
     blk \<leftarrow> blk_at b s;
     if node_in_block blk i then set_blk b (Some (blk\<lparr>mb_nodes := (mb_nodes blk)(i := n)\<rparr>)) s
     else None
   }"

definition set_errno :: "int \<Rightarrow> walk \<Rightarrow> walk" where
  "set_errno e s = s\<lparr>wk_world := (wk_world s)\<lparr>errno := e\<rparr>\<rparr>"

section \<open>Allocating\<close>

text \<open>The result is the index of the new block, \<open>None\<close> inside for the NULL pointer.\<close>

definition ummu_alloc_new_mapt_block ::
    "os_env \<Rightarrow> u32 \<Rightarrow> int \<Rightarrow> u64 \<Rightarrow> nat \<Rightarrow> walk \<Rightarrow> (nat option \<times> walk) option" where
  "ummu_alloc_new_mapt_block E tid fd block_size block_index s =
     (let s0 = set_errno 0 s in
      if \<not> tc_expan (wk_ctx s0) \<and> block_index \<noteq> 0 then Some (None, set_errno ERANGE s0)
      else
        let (ok, w1) = c_malloc E (wk_world s0); s1 = s0\<lparr>wk_world := w1\<rparr> in
        if \<not> ok then Some (None, set_errno ENOMEM s1)
        else
          let (block_addr, w2) = ummu_get_core_buf E tid BASE_MODE_TABLE_BLOCK block_size fd
                (of_nat block_index) w1;
              s2 = s1\<lparr>wk_world := w2\<rparr>
          in if CORE_BUF_CHECK_INVALID block_addr then Some (None, set_errno ENOMEM s2)
             else
               let blk = \<lparr>mb_block_addr = block_addr, mb_blk_size = block_size,
                          mb_block_id = of_nat block_index, mb_level_cnt = 0,
                          mb_level_entry_cnt = replicate PER_MAPT_LEVEL_BLOCK_CNT 0,
                          mb_nodes = os_block_mem E (clock w1)\<rparr>;
                   s3 = (if tc_block_cnt (wk_ctx s2) = 0
                         then s2\<lparr>wk_ctx := (wk_ctx s2)\<lparr>tc_mapt_block_base := Some block_index\<rparr>\<rparr>
                         else s2)
               in do {
                 s4 \<leftarrow> set_blk block_index (Some blk) s3;
                 Some (Some block_index,
                   s4\<lparr>wk_ctx := (wk_ctx s4)\<lparr>tc_block_cnt := tc_block_cnt (wk_ctx s4) + 1\<rparr>\<rparr>)
               })"

text \<open>
  The result is the reference of the first node of the new level table, \<open>None\<close> inside for NULL.
  \<open>pre_block\<close> is the block of the previous node, \<open>None\<close> for NULL.
\<close>

definition ummu_alloc_level_block ::
    "os_env \<Rightarrow> u32 \<Rightarrow> int \<Rightarrow> nref \<Rightarrow> nat option \<Rightarrow> walk \<Rightarrow> (nref option \<times> walk) option" where
  "ummu_alloc_level_block E tid fd pre_node pre_block s = do {
     id \<leftarrow> find_first_zero_bit (tc_level_block_bitmap (wk_ctx s)) MAX_LEVEL_ID_SIZE;
     if id \<ge> MAX_LEVEL_ID_SIZE then Some (None, set_errno ERANGE s)
     else do {
       n0 \<leftarrow> rd_node pre_node s;
       s1 \<leftarrow> wr_node pre_node (n0\<lparr>tn_next_block := 0\<rparr>) s;
       let bi = id div PER_MAPT_LEVEL_BLOCK_CNT;
       entry \<leftarrow> arr_rd (tc_mapt_block_array (wk_ctx s1)) bi;
       (got, new, s2) \<leftarrow> (case entry of
          None \<Rightarrow> do {
            (r, s') \<leftarrow> ummu_alloc_new_mapt_block E tid fd (tc_blk_exp_size (wk_ctx s1)) bi s1;
            Some (r \<noteq> None, True, s')
          }
        | Some _ \<Rightarrow> Some (True, pre_block \<noteq> Some bi, s1));
       if \<not> got then Some (None, s2)
       else do {
         n1 \<leftarrow> rd_node pre_node s2;
         let off = (of_nat (MAX_MAPT_ENTRY_INDEX * (id mod PER_MAPT_LEVEL_BLOCK_CNT)) :: u32);
         let n2 = (if new then n1\<lparr>tn_next_block := 1\<rparr> else n1);
         s3 \<leftarrow> wr_node pre_node (n2\<lparr>tn_next_lv_index := of_nat bi,
                  tn_next_lv_offset_low := ucast (LVL_OFFSET_LOW off),
                  tn_next_lv_offset_high := ucast (LVL_OFFSET_HIGH off)\<rparr>) s2;
         bm \<leftarrow> ummu_set_bit id (tc_level_block_bitmap (wk_ctx s3));
         let s4 = s3\<lparr>wk_ctx := (wk_ctx s3)\<lparr>tc_level_block_bitmap := bm\<rparr>\<rparr>;
         blk \<leftarrow> blk_at bi s4;
         s5 \<leftarrow> set_blk bi (Some (blk\<lparr>mb_level_cnt := mb_level_cnt blk + 1\<rparr>)) s4;
         Some (Some (At bi (unat off)), s5)
       }
     }
   }"

section \<open>Freeing\<close>

definition ummu_free_level_block :: "nref option \<Rightarrow> walk \<Rightarrow> walk option" where
  "ummu_free_level_block prev_node s = do {
     (lv_offset, lv_index) \<leftarrow> (case prev_node of
        None \<Rightarrow> Some (0, 0)
      | Some r \<Rightarrow> do { n \<leftarrow> rd_node r s; Some (tn_lv_offset n, unat (tn_next_lv_index n)) });
     blk \<leftarrow> blk_at lv_index s;
     let level_id = mb_block_id blk * of_nat PER_MAPT_LEVEL_BLOCK_CNT +
       lv_offset div of_nat MAX_MAPT_ENTRY_INDEX;
     s1 \<leftarrow> (if level_id \<noteq> 0 then do {
              s' \<leftarrow> set_blk lv_index (Some (blk\<lparr>mb_level_cnt := mb_level_cnt blk - 1\<rparr>)) s;
              bm \<leftarrow> ummu_clear_bit (unat level_id) (tc_level_block_bitmap (wk_ctx s'));
              Some (s'\<lparr>wk_ctx := (wk_ctx s')\<lparr>tc_level_block_bitmap := bm\<rparr>\<rparr>)
            } else Some s);
     blk1 \<leftarrow> blk_at lv_index s1;
     if mb_level_cnt blk1 = 0 \<and> tc_block_cnt (wk_ctx s1) > 1 then do {
       s2 \<leftarrow> set_blk (unat (mb_block_id blk1)) None s1;
       let ctx = (wk_ctx s2)\<lparr>tc_block_cnt := tc_block_cnt (wk_ctx s2) - 1\<rparr>;
       Some (s2\<lparr>wk_ctx := ctx, wk_world := ummu_free_core_buf BASE_MODE_TABLE_BLOCK
         (mb_block_addr blk1) (tc_blk_exp_size ctx) (wk_world s2)\<rparr>)
     } else Some s1
   }"

section \<open>The tables behind the blocks\<close>

text \<open>
  Level table \<open>t\<close> is the \<open>t mod 4\<close>-th table of block \<open>t div 4\<close>.  \<open>live\<close> tables are marked in the
  bitmap, \<open>present\<close> ones lie in a mapped block.
\<close>

definition lref :: "nat \<Rightarrow> nat \<Rightarrow> nref" where
  "lref t i = At (t div 4) (512 * (t mod 4) + i)"

definition live :: "walk \<Rightarrow> nat \<Rightarrow> bool" where
  "live s t \<longleftrightarrow> t < 2048 \<and> bm_bit (tc_level_block_bitmap (wk_ctx s)) t"

definition present :: "walk \<Rightarrow> nat \<Rightarrow> bool" where
  "present s t \<longleftrightarrow> t < 2048 \<and> blk_at (t div 4) s \<noteq> None"

definition nd :: "walk \<Rightarrow> nat \<Rightarrow> nat \<Rightarrow> table_node" where
  "nd s t i = mb_nodes (the (blk_at (t div 4) s)) (512 * (t mod 4) + i)"

definition ec :: "walk \<Rightarrow> nat \<Rightarrow> u16" where
  "ec s t = mb_level_entry_cnt (the (blk_at (t div 4) s)) ! (t mod 4)"

definition block_ok :: "walk \<Rightarrow> nat \<Rightarrow> mapt_block \<Rightarrow> bool" where
  "block_ok s b blk \<longleftrightarrow> mb_block_id blk = of_nat b \<and> mb_blk_size blk = tc_blk_exp_size (wk_ctx s) \<and>
     length (mb_level_entry_cnt blk) = 4 \<and>
     unat (mb_level_cnt blk) = card {k. k < 4 \<and> live s (4 * b + k)}"

definition blocks_ok :: "walk \<Rightarrow> bool" where
  "blocks_ok s \<longleftrightarrow> length (tc_level_block_bitmap (wk_ctx s)) = 32 \<and>
     length (tc_mapt_block_array (wk_ctx s)) = 512 \<and>
     65536 \<le> unat (tc_blk_exp_size (wk_ctx s)) \<and>
     (\<forall>b < 512. case blk_at b s of None \<Rightarrow> \<forall>k < 4. \<not> live s (4 * b + k) | Some blk \<Rightarrow> block_ok s b blk) \<and>
     unat (tc_block_cnt (wk_ctx s)) = card {b. b < 512 \<and> blk_at b s \<noteq> None}"

lemma blocks_ok_lengths:
  assumes "blocks_ok s"
  shows "length (tc_level_block_bitmap (wk_ctx s)) = 32" "length (tc_mapt_block_array (wk_ctx s)) = 512"
    "65536 \<le> unat (tc_blk_exp_size (wk_ctx s))"
  using assms by (auto simp: blocks_ok_def)

lemma blocks_ok_block: "blocks_ok s \<Longrightarrow> b < 512 \<Longrightarrow> blk_at b s = Some blk \<Longrightarrow> block_ok s b blk"
  by (auto simp: blocks_ok_def)

lemma blocks_ok_none: "blocks_ok s \<Longrightarrow> b < 512 \<Longrightarrow> blk_at b s = None \<Longrightarrow> k < 4 \<Longrightarrow> \<not> live s (4 * b + k)"
  unfolding blocks_ok_def by (metis (no_types, lifting) option.simps(4))

lemma blocks_okI:
  assumes "length (tc_level_block_bitmap (wk_ctx s)) = 32" "length (tc_mapt_block_array (wk_ctx s)) = 512"
    "65536 \<le> unat (tc_blk_exp_size (wk_ctx s))"
    "\<And>b k. b < 512 \<Longrightarrow> blk_at b s = None \<Longrightarrow> k < 4 \<Longrightarrow> \<not> live s (4 * b + k)"
    "\<And>b blk. b < 512 \<Longrightarrow> blk_at b s = Some blk \<Longrightarrow> block_ok s b blk"
    "unat (tc_block_cnt (wk_ctx s)) = card {b. b < 512 \<and> blk_at b s \<noteq> None}"
  shows "blocks_ok s"
  using assms by (auto simp: blocks_ok_def split: option.splits)

lemma live_present:
  assumes "blocks_ok s" "live s t"
  shows "present s t"
proof -
  have t: "t < 2048" "t = 4 * (t div 4) + t mod 4" using assms(2) by (auto simp: live_def)
  have "blk_at (t div 4) s \<noteq> None"
  proof
    assume "blk_at (t div 4) s = None"
    then have "\<forall>k < 4. \<not> live s (4 * (t div 4) + k)" using blocks_ok_none [OF assms(1)] t(1) by auto
    then show False using assms(2) t(2) by (metis mod_less_divisor zero_less_numeral)
  qed
  with t(1) show ?thesis by (simp add: present_def)
qed

lemma blk_at_array:
  "length (tc_mapt_block_array (wk_ctx s)) = 512 \<Longrightarrow> b < 512 \<Longrightarrow> blk_at b s = tc_mapt_block_array (wk_ctx s) ! b"
  by (simp add: blk_at_def)

lemma set_blk_eq:
  assumes "length (tc_mapt_block_array (wk_ctx s)) = 512" "b < 512"
  shows "set_blk b v s = Some (s\<lparr>wk_ctx := (wk_ctx s)\<lparr>tc_mapt_block_array := (tc_mapt_block_array (wk_ctx s))[b := v]\<rparr>\<rparr>)"
  using assms by (simp add: set_blk_def)

lemma blk_at_set_blk:
  assumes "length (tc_mapt_block_array (wk_ctx s)) = 512" "b < 512" "set_blk b v s = Some s'"
  shows "blk_at c s' = (if c = b then v else blk_at c s)"
  using assms by (auto simp: set_blk_eq blk_at_def arr_rd_def nth_list_update)

text \<open>Replacing a block changes the context at one place.\<close>

definition with_blk :: "nat \<Rightarrow> mapt_block option \<Rightarrow> walk \<Rightarrow> walk" where
  "with_blk b v s = s\<lparr>wk_ctx := (wk_ctx s)\<lparr>tc_mapt_block_array := (tc_mapt_block_array (wk_ctx s))[b := v]\<rparr>\<rparr>"

lemma set_blk_with_blk:
  "blocks_ok s \<Longrightarrow> b < 512 \<Longrightarrow> set_blk b v s = Some (with_blk b v s)"
  by (simp add: with_blk_def set_blk_eq blocks_ok_lengths)

lemma with_blk_simps [simp]:
  "wk_root (with_blk b v s) = wk_root s" "wk_world (with_blk b v s) = wk_world s" "wk_lvl (with_blk b v s) = wk_lvl s"
  "tc_level_block_bitmap (wk_ctx (with_blk b v s)) = tc_level_block_bitmap (wk_ctx s)"
  "tc_blk_exp_size (wk_ctx (with_blk b v s)) = tc_blk_exp_size (wk_ctx s)"
  "tc_block_cnt (wk_ctx (with_blk b v s)) = tc_block_cnt (wk_ctx s)"
  "tc_expan (wk_ctx (with_blk b v s)) = tc_expan (wk_ctx s)"
  "tc_granted_addr_mng (wk_ctx (with_blk b v s)) = tc_granted_addr_mng (wk_ctx s)"
  "live (with_blk b v s) = live s"
  "length (tc_mapt_block_array (wk_ctx (with_blk b v s))) = length (tc_mapt_block_array (wk_ctx s))"
  by (simp_all add: with_blk_def live_def fun_eq_iff)

lemma blk_at_with_blk:
  "length (tc_mapt_block_array (wk_ctx s)) = 512 \<Longrightarrow> b < 512 \<Longrightarrow>
   blk_at c (with_blk b v s) = (if c = b then v else blk_at c s)"
  by (auto simp: with_blk_def blk_at_def arr_rd_def nth_list_update)

text \<open>A change of a block that keeps its identity and its number of live tables.\<close>

lemma blocks_ok_with_blk:
  assumes ok: "blocks_ok s" and b: "b < 512" "blk_at b s = Some blk"
    and same: "mb_block_id blk' = mb_block_id blk" "mb_blk_size blk' = mb_blk_size blk"
      "length (mb_level_entry_cnt blk') = length (mb_level_entry_cnt blk)" "mb_level_cnt blk' = mb_level_cnt blk"
  shows "blocks_ok (with_blk b (Some blk') s)"
proof -
  let ?s = "with_blk b (Some blk') s"
  note at = blk_at_with_blk [OF blocks_ok_lengths(2) [OF ok] b(1)]
  have "{c. c < 512 \<and> blk_at c ?s \<noteq> None} = {c. c < 512 \<and> blk_at c s \<noteq> None}" using b by (auto simp: at)
  moreover have "block_ok ?s c x" if "c < 512" "blk_at c ?s = Some x" for c x
    using same that blocks_ok_block [OF ok b] blocks_ok_block [OF ok that(1), of x]
    by (auto simp: at block_ok_def split: if_splits)
  moreover have "\<not> live ?s (4 * c + k)" if "c < 512" "blk_at c ?s = None" "k < 4" for c k
    using that blocks_ok_none [OF ok that(1) _ that(3)] by (auto simp: at split: if_splits)
  ultimately show ?thesis using ok blocks_ok_lengths [OF ok]
    by (intro blocks_okI) (simp_all add: blocks_ok_def)
qed

section \<open>Nodes\<close>

lemma node_in_block_ok:
  assumes "blocks_ok s" "b < 512" "blk_at b s = Some blk" "k < 4" "i < 512"
  shows "node_in_block blk (512 * k + i)"
proof -
  have "unat (mb_blk_size blk) \<ge> 65536"
    using blocks_ok_block [OF assms(1-3)] blocks_ok_lengths(3) [OF assms(1)] by (simp add: block_ok_def)
  then show ?thesis using assms(4,5) by (simp add: node_in_block_def TABLE_NODE_SIZE_def)
qed

lemma present_block:
  assumes "present s t"
  obtains blk where "t div 4 < 512" "blk_at (t div 4) s = Some blk"
  using assms by (auto simp: present_def)

lemma rd_lref:
  assumes "blocks_ok s" "present s t" "i < 512"
  shows "rd_node (lref t i) s = Some (nd s t i)"
  using assms node_in_block_ok [OF assms(1) _ _ _ assms(3), of "t div 4" _ "t mod 4"]
  by (elim present_block) (auto simp: lref_def nd_def)

definition put_nd :: "nat \<Rightarrow> nat \<Rightarrow> table_node \<Rightarrow> walk \<Rightarrow> walk" where
  "put_nd t i n s = (let blk = the (blk_at (t div 4) s) in
     with_blk (t div 4) (Some (blk\<lparr>mb_nodes := (mb_nodes blk)(512 * (t mod 4) + i := n)\<rparr>)) s)"

lemma wr_lref:
  assumes "blocks_ok s" "present s t" "i < 512"
  shows "wr_node (lref t i) n s = Some (put_nd t i n s)"
  using assms node_in_block_ok [OF assms(1) _ _ _ assms(3), of "t div 4" _ "t mod 4"]
  by (elim present_block) (auto simp: lref_def put_nd_def Let_def set_blk_with_blk [OF assms(1)])

lemma put_nd_simps [simp]:
  "wk_root (put_nd t i n s) = wk_root s" "wk_world (put_nd t i n s) = wk_world s" "wk_lvl (put_nd t i n s) = wk_lvl s"
  "live (put_nd t i n s) = live s"
  "tc_expan (wk_ctx (put_nd t i n s)) = tc_expan (wk_ctx s)"
  "tc_blk_exp_size (wk_ctx (put_nd t i n s)) = tc_blk_exp_size (wk_ctx s)"
  "tc_granted_addr_mng (wk_ctx (put_nd t i n s)) = tc_granted_addr_mng (wk_ctx s)"
  by (simp_all add: put_nd_def Let_def)

lemma slot_inj:
  "i < 512 \<Longrightarrow> j < 512 \<Longrightarrow>
   (t div 4 = u div 4 \<and> 512 * (t mod 4) + i = 512 * (u mod 4) + j) \<longleftrightarrow> (t = u \<and> i = (j::nat))"
proof
  assume ij: "i < 512" "j < 512" and e: "t div 4 = u div 4 \<and> 512 * (t mod 4) + i = 512 * (u mod 4) + j"
  then have "(512 * (t mod 4) + i) div 512 = (512 * (u mod 4) + j) div 512" by simp
  then have "t mod 4 = u mod 4" using ij by simp
  with e show "t = u \<and> i = j" by (metis add_left_cancel mult_div_mod_eq)
qed auto

lemma put_nd_view:
  assumes "blocks_ok s" "present s t" "i < 512"
  shows "blocks_ok (put_nd t i n s)" "present (put_nd t i n s) = present s" "ec (put_nd t i n s) = ec s"
    "\<And>u j. j < 512 \<Longrightarrow> nd (put_nd t i n s) u j = (if u = t \<and> j = i then n else nd s u j)"
proof -
  obtain blk where b: "t div 4 < 512" "blk_at (t div 4) s = Some blk" by (rule present_block [OF assms(2)])
  let ?blk = "blk\<lparr>mb_nodes := (mb_nodes blk)(512 * (t mod 4) + i := n)\<rparr>"
  have p: "put_nd t i n s = with_blk (t div 4) (Some ?blk) s" by (simp add: put_nd_def b(2))
  note at = blk_at_with_blk [OF blocks_ok_lengths(2) [OF assms(1)] b(1), of _ "Some ?blk", folded p]
  show "blocks_ok (put_nd t i n s)" unfolding p by (rule blocks_ok_with_blk [OF assms(1) b]) simp_all
  show "present (put_nd t i n s) = present s" using b by (auto simp: present_def at fun_eq_iff)
  show "ec (put_nd t i n s) = ec s" using b by (auto simp: ec_def at fun_eq_iff)
  show "nd (put_nd t i n s) u j = (if u = t \<and> j = i then n else nd s u j)" if "j < 512" for u j
    using slot_inj [OF assms(3) that, of t u] b by (auto simp: nd_def at)
qed

section \<open>Entry counts\<close>

definition put_ec :: "nat \<Rightarrow> u16 \<Rightarrow> walk \<Rightarrow> walk" where
  "put_ec t c s = (let blk = the (blk_at (t div 4) s) in
     with_blk (t div 4) (Some (blk\<lparr>mb_level_entry_cnt := (mb_level_entry_cnt blk)[t mod 4 := c]\<rparr>)) s)"

lemma put_ec_simps [simp]:
  "wk_root (put_ec t c s) = wk_root s" "wk_world (put_ec t c s) = wk_world s" "wk_lvl (put_ec t c s) = wk_lvl s"
  "live (put_ec t c s) = live s"
  "tc_expan (wk_ctx (put_ec t c s)) = tc_expan (wk_ctx s)"
  "tc_blk_exp_size (wk_ctx (put_ec t c s)) = tc_blk_exp_size (wk_ctx s)"
  "tc_granted_addr_mng (wk_ctx (put_ec t c s)) = tc_granted_addr_mng (wk_ctx s)"
  by (simp_all add: put_ec_def Let_def)

lemma put_ec_view:
  assumes "blocks_ok s" "present s t"
  shows "blocks_ok (put_ec t c s)" "present (put_ec t c s) = present s" "nd (put_ec t c s) = nd s"
    "\<And>u. ec (put_ec t c s) u = (if u = t then c else ec s u)"
proof -
  obtain blk where b: "t div 4 < 512" "blk_at (t div 4) s = Some blk" by (rule present_block [OF assms(2)])
  let ?blk = "blk\<lparr>mb_level_entry_cnt := (mb_level_entry_cnt blk)[t mod 4 := c]\<rparr>"
  have l: "length (mb_level_entry_cnt blk) = 4" using blocks_ok_block [OF assms(1) b] by (simp add: block_ok_def)
  have p: "put_ec t c s = with_blk (t div 4) (Some ?blk) s" by (simp add: put_ec_def b(2))
  note at = blk_at_with_blk [OF blocks_ok_lengths(2) [OF assms(1)] b(1), of _ "Some ?blk", folded p]
  show "blocks_ok (put_ec t c s)" unfolding p by (rule blocks_ok_with_blk [OF assms(1) b]) simp_all
  show "present (put_ec t c s) = present s" using b by (auto simp: present_def at fun_eq_iff)
  show "nd (put_ec t c s) = nd s" using b by (auto simp: nd_def at fun_eq_iff)
  fix u
  show "ec (put_ec t c s) u = (if u = t then c else ec s u)"
    using b l by (auto simp: ec_def at nth_list_update) (metis mult_div_mod_eq)
qed

section \<open>Pointers to level tables\<close>

definition pts :: "table_node \<Rightarrow> nat \<Rightarrow> bool" where
  "pts n t \<longleftrightarrow> t < 2048 \<and> tn_next_lv_index n = of_nat (t div 4) \<and> tn_lv_offset n = of_nat (512 * (t mod 4))"

lemma pts_nat:
  assumes "pts n t"
  shows "unat (tn_next_lv_index n) = t div 4" "unat (tn_lv_offset n) = 512 * (t mod 4)"
proof -
  have "t div 4 < 512" "512 * (t mod 4) < 2048" using assms by (auto simp: pts_def)
  then show "unat (tn_next_lv_index n) = t div 4" "unat (tn_lv_offset n) = 512 * (t mod 4)"
    using assms by (simp_all only: pts_def unat_of_nat) simp_all
qed

lemma pts_unique: "pts n t \<Longrightarrow> pts n u \<Longrightarrow> t = u"
  using pts_nat [of n t] pts_nat [of n u] by (metis mult_div_mod_eq nonzero_mult_div_cancel_left numeral_eq_iff
      semiring_norm(85) zero_neq_numeral)

lemma pts_link:
  assumes "t < 2048"
  defines "off \<equiv> (of_nat (512 * (t mod 4)) :: u32)"
  shows "pts (n\<lparr>tn_next_lv_index := of_nat (t div 4), tn_next_lv_offset_low := ucast (LVL_OFFSET_LOW off),
    tn_next_lv_offset_high := ucast (LVL_OFFSET_HIGH off)\<rparr>) t"
proof -
  have "512 * (t mod 4) < 2 ^ 30" by (rule le_less_trans [of _ "512 * 3"]) auto
  then have "unat off < 2 ^ 30" unfolding off_def by (simp only: unat_of_nat) simp
  then have "off AND mask 30 = off" by (rule and_mask_id)
  then show ?thesis using assms(1) lvl_offset_full [of off]
    by (simp add: pts_def tn_lv_offset_def off_def)
qed

section \<open>References that may be followed\<close>

definition vref :: "walk \<Rightarrow> nref \<Rightarrow> bool" where
  "vref s r \<longleftrightarrow> r = Local \<or> (\<exists>t i. r = lref t i \<and> live s t \<and> i < 512)"

definition val :: "nref \<Rightarrow> walk \<Rightarrow> table_node" where
  "val r s = (case r of Local \<Rightarrow> wk_root s | At b i \<Rightarrow> nd s (4 * b + i div 512) (i mod 512))"

definition put_ref :: "nref \<Rightarrow> table_node \<Rightarrow> walk \<Rightarrow> walk" where
  "put_ref r n s = (case r of Local \<Rightarrow> s\<lparr>wk_root := n\<rparr> | At b i \<Rightarrow> put_nd (4 * b + i div 512) (i mod 512) n s)"

lemma lref_split: "i < 512 \<Longrightarrow> 4 * (t div 4) + (512 * (t mod 4) + i) div 512 = t"
  "i < 512 \<Longrightarrow> (512 * (t mod 4) + i) mod 512 = (i::nat)"
  by simp_all

lemma val_lref [simp]: "i < 512 \<Longrightarrow> val (lref t i) s = nd s t i" "val Local s = wk_root s"
  by (simp_all add: val_def lref_def)

lemma put_ref_lref [simp]: "i < 512 \<Longrightarrow> put_ref (lref t i) n s = put_nd t i n s" "put_ref Local n s = s\<lparr>wk_root := n\<rparr>"
  by (simp_all add: put_ref_def lref_def)

lemma lref_eq [simp]: "i < 512 \<Longrightarrow> j < 512 \<Longrightarrow> lref t i = lref u j \<longleftrightarrow> t = u \<and> i = j" "lref t i \<noteq> Local" "Local \<noteq> lref t i"
  using slot_inj [of i j t u] by (auto simp: lref_def)

lemma vref_lref [simp]: "i < 512 \<Longrightarrow> vref s (lref t i) \<longleftrightarrow> live s t" "vref s Local"
  by (auto simp: vref_def)

text \<open>The views depend on four fields of the table context only.\<close>

lemma ctx_view:
  assumes "tc_level_block_bitmap (wk_ctx s') = tc_level_block_bitmap (wk_ctx s)"
    "tc_mapt_block_array (wk_ctx s') = tc_mapt_block_array (wk_ctx s)"
    "tc_blk_exp_size (wk_ctx s') = tc_blk_exp_size (wk_ctx s)"
    "tc_block_cnt (wk_ctx s') = tc_block_cnt (wk_ctx s)"
  shows "blocks_ok s' = blocks_ok s" "live s' = live s" "present s' = present s" "nd s' = nd s" "ec s' = ec s"
proof -
  have l: "live s' = live s" and b: "blk_at b s' = blk_at b s" for b
    by (simp_all add: live_def blk_at_def assms fun_eq_iff)
  have k: "block_ok s' = block_ok s" using l by (simp add: block_ok_def assms fun_eq_iff)
  show "blocks_ok s' = blocks_ok s" unfolding blocks_ok_def assms l b k ..
  show "live s' = live s" by (rule l)
  show "present s' = present s" "nd s' = nd s" "ec s' = ec s"
    by (simp_all add: present_def nd_def ec_def b fun_eq_iff)
qed

lemma upd_view [simp]:
  "blocks_ok (s\<lparr>wk_root := n\<rparr>) = blocks_ok s" "live (s\<lparr>wk_root := n\<rparr>) = live s"
  "present (s\<lparr>wk_root := n\<rparr>) = present s" "nd (s\<lparr>wk_root := n\<rparr>) = nd s" "ec (s\<lparr>wk_root := n\<rparr>) = ec s"
  "blocks_ok (s\<lparr>wk_world := w\<rparr>) = blocks_ok s" "live (s\<lparr>wk_world := w\<rparr>) = live s"
  "present (s\<lparr>wk_world := w\<rparr>) = present s" "nd (s\<lparr>wk_world := w\<rparr>) = nd s" "ec (s\<lparr>wk_world := w\<rparr>) = ec s"
  "blocks_ok (s\<lparr>wk_lvl := l\<rparr>) = blocks_ok s" "live (s\<lparr>wk_lvl := l\<rparr>) = live s"
  "present (s\<lparr>wk_lvl := l\<rparr>) = present s" "nd (s\<lparr>wk_lvl := l\<rparr>) = nd s" "ec (s\<lparr>wk_lvl := l\<rparr>) = ec s"
  by (rule ctx_view, simp_all)+

lemma rd_val: "blocks_ok s \<Longrightarrow> vref s r \<Longrightarrow> rd_node r s = Some (val r s)"
  by (auto simp: vref_def rd_lref live_present)

lemma wr_put_ref: "blocks_ok s \<Longrightarrow> vref s r \<Longrightarrow> wr_node r n s = Some (put_ref r n s)"
  by (auto simp: vref_def wr_lref live_present)

lemma put_ref_view:
  assumes "blocks_ok s" "vref s r"
  shows "blocks_ok (put_ref r n s)" "live (put_ref r n s) = live s" "present (put_ref r n s) = present s" "ec (put_ref r n s) = ec s"
    "wk_world (put_ref r n s) = wk_world s" "wk_lvl (put_ref r n s) = wk_lvl s"
    "\<And>q. vref s q \<Longrightarrow> val q (put_ref r n s) = (if q = r then n else val q s)"
    "\<And>u j. j < 512 \<Longrightarrow> nd (put_ref r n s) u j = (if lref u j = r then n else nd s u j)"
    "\<And>u j. j < 512 \<Longrightarrow> lref u j \<noteq> r \<Longrightarrow> nd (put_ref r n s) u j = nd s u j"
    "tc_expan (wk_ctx (put_ref r n s)) = tc_expan (wk_ctx s)" "tc_granted_addr_mng (wk_ctx (put_ref r n s)) = tc_granted_addr_mng (wk_ctx s)"
    "wk_root (put_ref r n s) = (if r = Local then n else wk_root s)"
  using assms by (auto simp: vref_def put_nd_view live_present)

section \<open>Changing the set of live tables\<close>

definition mark :: "bool \<Rightarrow> nat \<Rightarrow> u64 list \<Rightarrow> walk \<Rightarrow> walk" where
  "mark on t bm s = (let blk = the (blk_at (t div 4) s);
       c = (if on then mb_level_cnt blk + 1 else mb_level_cnt blk - 1)
     in with_blk (t div 4) (Some (blk\<lparr>mb_level_cnt := c\<rparr>)) (s\<lparr>wk_ctx := (wk_ctx s)\<lparr>tc_level_block_bitmap := bm\<rparr>\<rparr>))"

lemma table_index: "k < 4 \<Longrightarrow> 4 * b + k = t \<longleftrightarrow> b = t div 4 \<and> k = t mod (4::nat)"
  by auto

lemma card_live_le: "card {k. k < 4 \<and> live s (4 * b + k)} \<le> 4"
  using card_mono [of "{..<4}" "{k. k < 4 \<and> live s (4 * b + k)}"] by auto

lemma mark_view:
  assumes ok: "blocks_ok s" and p: "present s t" and chg: "live s t = (\<not> on)"
    and len: "length bm = 32" and bm: "\<And>k. bm_bit bm k \<longleftrightarrow> (if k = t then on else bm_bit (tc_level_block_bitmap (wk_ctx s)) k)"
  shows "blocks_ok (mark on t bm s)" "\<And>u. live (mark on t bm s) u \<longleftrightarrow> (if u = t then on else live s u)"
    "present (mark on t bm s) = present s" "nd (mark on t bm s) = nd s" "ec (mark on t bm s) = ec s"
proof -
  let ?s = "mark on t bm s" and ?b = "t div 4"
  obtain blk where b: "?b < 512" "blk_at ?b s = Some blk" by (rule present_block [OF p])
  define c where "c = (if on then mb_level_cnt blk + 1 else mb_level_cnt blk - 1)"
  define s0 where "s0 = s\<lparr>wk_ctx := (wk_ctx s)\<lparr>tc_level_block_bitmap := bm\<rparr>\<rparr>"
  have at0: "blk_at x s0 = blk_at x s" for x by (simp add: s0_def blk_at_def)
  have m: "?s = with_blk ?b (Some (blk\<lparr>mb_level_cnt := c\<rparr>)) s0" by (simp add: mark_def b(2) s0_def c_def)
  have len0: "length (tc_mapt_block_array (wk_ctx s0)) = 512" using blocks_ok_lengths(2) [OF ok] by (simp add: s0_def)
  have at: "blk_at x ?s = (if x = ?b then Some (blk\<lparr>mb_level_cnt := c\<rparr>) else blk_at x s)" for x
    unfolding m using blk_at_with_blk [OF len0 b(1)] at0 by simp
  have t: "t < 2048" using p by (simp add: present_def)
  have lv: "live ?s u \<longleftrightarrow> (if u = t then on else live s u)" for u
    using t by (auto simp: m live_def s0_def bm)
  show "present ?s = present s" "nd ?s = nd s" "ec ?s = ec s"
    using b by (auto simp: present_def nd_def ec_def at fun_eq_iff)
  fix u show "live ?s u \<longleftrightarrow> (if u = t then on else live s u)" by (rule lv)
  have same: "{k. k < 4 \<and> live ?s (4 * x + k)} = {k. k < 4 \<and> live s (4 * x + k)}" if "x \<noteq> ?b" for x
    using that by (auto simp: lv)
  let ?K = "{k. k < 4 \<and> live s (4 * ?b + k)}"
  have lc: "unat (mb_level_cnt blk) = card ?K" using blocks_ok_block [OF ok b] by (simp add: block_ok_def)
  have le: "card ?K \<le> 4" by (rule card_live_le)
  have tm: "4 * ?b + k = t \<longleftrightarrow> k = t mod 4" if "k < 4" for k using that by (metis add_left_cancel mult_div_mod_eq)
  define K' where "K' = {k. k < 4 \<and> live ?s (4 * ?b + k)}"
  have K': "K' = {k. k < 4 \<and> (if k = t mod 4 then on else live s (4 * ?b + k))}"
    unfolding K'_def by (auto simp: lv tm)
  have "unat c = card K'"
  proof (cases on)
    case True
    then have "K' = insert (t mod 4) ?K" "t mod 4 \<notin> ?K"
      using chg by (auto simp: K')
    moreover have "unat (mb_level_cnt blk + 1) = unat (mb_level_cnt blk) + 1"
      using lc le by (subst unat_plus_no_wrap) auto
    ultimately show ?thesis using True lc by (simp add: c_def)
  next
    case False
    then have "K' = ?K - {t mod 4}" "t mod 4 \<in> ?K"
      using chg by (auto simp: K')
    moreover have "mb_level_cnt blk \<noteq> 0" using lc calculation(2) by (metis (no_types, lifting) card_eq_0_iff
        empty_iff finite_nat_set_iff_bounded mem_Collect_eq unat_eq_zero)
    ultimately show ?thesis using False lc by (simp add: c_def unat_minus_one card_Diff_singleton)
  qed
  then have cnt: "unat c = card {k. k < 4 \<and> live ?s (4 * ?b + k)}" by (simp add: K'_def)
  have blkok: "block_ok ?s x y" if "x < 512" "blk_at x ?s = Some y" for x y
  proof (cases "x = ?b")
    case True
    with that at have y: "y = blk\<lparr>mb_level_cnt := c\<rparr>" by simp
    have "tc_blk_exp_size (wk_ctx ?s) = tc_blk_exp_size (wk_ctx s)" by (simp add: m s0_def)
    with True blocks_ok_block [OF ok b] cnt show ?thesis unfolding block_ok_def y by simp
  next
    case False
    with that blocks_ok_block [OF ok that(1), of y] same [OF False] show ?thesis
      by (simp add: at block_ok_def) (simp add: m s0_def)
  qed
  have "{x. x < 512 \<and> blk_at x ?s \<noteq> None} = {x. x < 512 \<and> blk_at x s \<noteq> None}" using b by (auto simp: at)
  then have cnt': "unat (tc_block_cnt (wk_ctx ?s)) = card {x. x < 512 \<and> blk_at x ?s \<noteq> None}"
    using ok by (simp add: blocks_ok_def) (simp add: m s0_def)
  have dead: "\<not> live ?s (4 * x + k)" if "x < 512" "blk_at x ?s = None" "k < 4" for x k
  proof -
    have x: "x \<noteq> ?b" "blk_at x s = None" using that(2) by (auto simp: at split: if_splits)
    then have "4 * x + k \<noteq> t" using that(3) by auto
    then show ?thesis using blocks_ok_none [OF ok that(1) x(2) that(3)] by (simp add: lv)
  qed
  show "blocks_ok ?s" using blocks_ok_lengths [OF ok] len
    by (intro blocks_okI cnt' blkok dead) (simp_all add: m s0_def)
qed

text \<open>A new empty block, and dropping a block without live tables.\<close>

definition add_block :: "nat \<Rightarrow> mapt_block \<Rightarrow> walk \<Rightarrow> walk" where
  "add_block b blk s = (let s1 = with_blk b (Some blk) s in
     s1\<lparr>wk_ctx := (wk_ctx s1)\<lparr>tc_block_cnt := tc_block_cnt (wk_ctx s1) + 1\<rparr>\<rparr>)"

definition drop_block :: "nat \<Rightarrow> walk \<Rightarrow> walk" where
  "drop_block b s = (let s1 = with_blk b None s in
     s1\<lparr>wk_ctx := (wk_ctx s1)\<lparr>tc_block_cnt := tc_block_cnt (wk_ctx s1) - 1\<rparr>\<rparr>)"

lemma add_block_view:
  assumes ok: "blocks_ok s" and b: "b < 512" "blk_at b s = None"
    and new: "mb_block_id blk = of_nat b" "mb_blk_size blk = tc_blk_exp_size (wk_ctx s)"
      "length (mb_level_entry_cnt blk) = 4" "mb_level_cnt blk = 0"
  shows "blocks_ok (add_block b blk s)" "live (add_block b blk s) = live s"
    "\<And>c. blk_at c (add_block b blk s) = (if c = b then Some blk else blk_at c s)"
proof -
  let ?s = "add_block b blk s"
  have len: "length (tc_mapt_block_array (wk_ctx s)) = 512" by (rule blocks_ok_lengths(2) [OF ok])
  have at: "blk_at x ?s = (if x = b then Some blk else blk_at x s)" for x
    using blk_at_with_blk [OF len b(1), of x "Some blk"] by (simp add: add_block_def Let_def blk_at_def)
  have lv: "live ?s = live s" by (simp add: add_block_def Let_def live_def fun_eq_iff with_blk_def)
  have exp: "tc_blk_exp_size (wk_ctx ?s) = tc_blk_exp_size (wk_ctx s)" by (simp add: add_block_def Let_def)
  have none: "{k. k < 4 \<and> live s (4 * b + k)} = {}" using blocks_ok_none [OF ok b] by auto
  have "{x. x < 512 \<and> blk_at x ?s \<noteq> None} = insert b {x. x < 512 \<and> blk_at x s \<noteq> None}" using b by (auto simp: at)
  then have card: "card {x. x < 512 \<and> blk_at x ?s \<noteq> None} = unat (tc_block_cnt (wk_ctx s)) + 1"
    using b ok by (simp add: blocks_ok_def)
  have "card {x. x < 512 \<and> blk_at x ?s \<noteq> None} \<le> 512"
    using card_mono [of "{..<512}" "{x. x < 512 \<and> blk_at x ?s \<noteq> None}"] by auto
  then have "unat (tc_block_cnt (wk_ctx s) + 1) = unat (tc_block_cnt (wk_ctx s)) + 1"
    using card by (subst unat_plus_no_wrap) auto
  then have cnt: "unat (tc_block_cnt (wk_ctx ?s)) = card {x. x < 512 \<and> blk_at x ?s \<noteq> None}"
    using card by (simp add: add_block_def Let_def)
  have "block_ok ?s x y" if "x < 512" "blk_at x ?s = Some y" for x y
  proof (cases "x = b")
    case True
    with that at have "y = blk" by simp
    with True new none show ?thesis unfolding block_ok_def lv exp by simp
  next
    case False
    with that blocks_ok_block [OF ok that(1), of y] show ?thesis unfolding block_ok_def lv exp by (simp add: at)
  qed
  then show "blocks_ok ?s" using cnt ok blocks_ok_none [OF ok]
    by (intro blocks_okI) (auto simp: at lv exp blocks_ok_def split: if_splits, auto simp: add_block_def Let_def)
  show "live ?s = live s" by (rule lv)
  fix c show "blk_at c ?s = (if c = b then Some blk else blk_at c s)" by (rule at)
qed

lemma drop_block_view:
  assumes ok: "blocks_ok s" and b: "b < 512" "blk_at b s = Some blk" and none: "\<And>k. k < 4 \<Longrightarrow> \<not> live s (4 * b + k)"
  shows "blocks_ok (drop_block b s)" "live (drop_block b s) = live s"
    "\<And>c. blk_at c (drop_block b s) = (if c = b then None else blk_at c s)"
proof -
  let ?s = "drop_block b s"
  have len: "length (tc_mapt_block_array (wk_ctx s)) = 512" by (rule blocks_ok_lengths(2) [OF ok])
  have at: "blk_at x ?s = (if x = b then None else blk_at x s)" for x
    using blk_at_with_blk [OF len b(1), of x None] by (simp add: drop_block_def Let_def blk_at_def)
  have lv: "live ?s = live s" by (simp add: drop_block_def Let_def live_def fun_eq_iff with_blk_def)
  have exp: "tc_blk_exp_size (wk_ctx ?s) = tc_blk_exp_size (wk_ctx s)" by (simp add: drop_block_def Let_def)
  have mem: "b \<in> {x. x < 512 \<and> blk_at x s \<noteq> None}" using b by simp
  have "{x. x < 512 \<and> blk_at x ?s \<noteq> None} = {x. x < 512 \<and> blk_at x s \<noteq> None} - {b}" by (auto simp: at)
  then have card: "card {x. x < 512 \<and> blk_at x ?s \<noteq> None} = unat (tc_block_cnt (wk_ctx s)) - 1"
    using mem ok by (simp add: blocks_ok_def card_Diff_singleton)
  have "tc_block_cnt (wk_ctx s) \<noteq> 0"
    using mem ok by (auto simp: blocks_ok_def card_eq_0_iff)
  then have cnt: "unat (tc_block_cnt (wk_ctx ?s)) = card {x. x < 512 \<and> blk_at x ?s \<noteq> None}"
    using card by (simp add: drop_block_def Let_def unat_minus_one)
  have "block_ok ?s x y" if "x < 512" "blk_at x ?s = Some y" for x y
    using that blocks_ok_block [OF ok that(1), of y]
    by (cases "x = b") (auto simp: at block_ok_def lv exp)
  then show "blocks_ok ?s" using cnt ok blocks_ok_none [OF ok] none
    by (intro blocks_okI) (auto simp: at lv exp blocks_ok_def split: if_splits, auto simp: drop_block_def Let_def)
  show "live ?s = live s" by (rule lv)
  fix c show "blk_at c ?s = (if c = b then None else blk_at c s)" by (rule at)
qed

section \<open>Allocation\<close>

text \<open>
  Fresh blocks come from the driver with no valid node; tables that are not live stay empty, so
  an allocated table starts empty.
\<close>

definition fresh_mem :: "os_env \<Rightarrow> bool" where
  "fresh_mem E \<longleftrightarrow> (\<forall>c i. tn_valid (os_block_mem E c i) = 0)"

definition free_ok :: "walk \<Rightarrow> bool" where
  "free_ok s \<longleftrightarrow> (\<forall>t. present s t \<longrightarrow> \<not> live s t \<longrightarrow> ec s t = 0 \<and> (\<forall>i < 512. tn_valid (nd s t i) = 0))"

definition link :: "nat \<Rightarrow> 1 word \<Rightarrow> table_node \<Rightarrow> table_node" where
  "link t nb n = (let off = of_nat (512 * (t mod 4)) :: u32 in
     n\<lparr>tn_next_block := nb, tn_next_lv_index := of_nat (t div 4),
       tn_next_lv_offset_low := ucast (LVL_OFFSET_LOW off), tn_next_lv_offset_high := ucast (LVL_OFFSET_HIGH off)\<rparr>)"

lemma link_pts: "t < 2048 \<Longrightarrow> pts (link t nb n) t"
  using pts_link [of t "n\<lparr>tn_next_block := nb\<rparr>"] by (simp add: link_def Let_def)

text \<open>
  Why an allocation can fail: every table the TID may have is in use (2048, or the four of the
  first block when the tables must not expand), or memory for a block can not be had.
\<close>

definition exhausted :: "walk \<Rightarrow> bool" where
  "exhausted s \<longleftrightarrow> (\<forall>t < (if tc_expan (wk_ctx s) then 2048 else 4). live s t)"

definition memory_fails :: "os_env \<Rightarrow> u32 \<Rightarrow> int \<Rightarrow> walk \<Rightarrow> bool" where
  "memory_fails E tid fd s \<longleftrightarrow> (\<exists>c. \<not> os_malloc E c) \<or>
     (\<exists>idx w. CORE_BUF_CHECK_INVALID (fst (ummu_get_core_buf E tid BASE_MODE_TABLE_BLOCK (tc_blk_exp_size (wk_ctx s)) fd idx w)))"

definition fill_ret :: "os_env \<Rightarrow> u32 \<Rightarrow> int \<Rightarrow> walk \<Rightarrow> int \<Rightarrow> bool" where
  "fill_ret E tid fd s ret \<longleftrightarrow> ret = 0 \<or> ret = - ERANGE \<and> exhausted s \<or> ret = - ENOMEM \<and> memory_fails E tid fd s"

lemma fill_ret_0 [simp]: "fill_ret E tid fd s 0"
  by (simp add: fill_ret_def)

lemma fill_ret_codes: "fill_ret E tid fd s ret \<Longrightarrow> ret \<in> {0, - ERANGE, - ENOMEM}"
  by (auto simp: fill_ret_def)

lemma alloc_new_block_cases:
  assumes ok: "blocks_ok s" and b: "b < 512" "blk_at b s = None" and sz: "sz = tc_blk_exp_size (wk_ctx s)"
    and mem: "fresh_mem E" and fr: "free_ok s"
  obtains (fail) w where "ummu_alloc_new_mapt_block E tid fd sz b s = Some (None, s\<lparr>wk_world := w\<rparr>)"
      "errno w \<in> {ERANGE, ENOMEM}"
      "errno w = ERANGE \<and> \<not> tc_expan (wk_ctx s) \<and> b \<noteq> 0 \<or> errno w = ENOMEM \<and> memory_fails E tid fd s"
  | (new) s' where "ummu_alloc_new_mapt_block E tid fd sz b s = Some (Some b, s')" "blocks_ok s'" "free_ok s'"
      "live s' = live s" "\<And>t. present s' t \<longleftrightarrow> present s t \<or> t div 4 = b"
      "\<And>t. present s t \<Longrightarrow> nd s' t = nd s t" "\<And>t. present s t \<Longrightarrow> ec s' t = ec s t"
      "wk_root s' = wk_root s" "wk_lvl s' = wk_lvl s"
      "tc_granted_addr_mng (wk_ctx s') = tc_granted_addr_mng (wk_ctx s)"
proof -
  define s0 where "s0 = set_errno 0 s"
  obtain ok1 w1 where m: "c_malloc E (wk_world s0) = (ok1, w1)" by (rule prod.exhaust)
  obtain a w2 where g: "ummu_get_core_buf E tid BASE_MODE_TABLE_BLOCK sz fd (of_nat b) w1 = (a, w2)" by (rule prod.exhaust)
  have ctx0: "wk_ctx s0 = wk_ctx s" by (simp add: s0_def set_errno_def)
  show thesis
  proof (cases "\<not> tc_expan (wk_ctx s) \<and> b \<noteq> 0")
    case True
    then show thesis
      by (intro fail [of "(wk_world s)\<lparr>errno := ERANGE\<rparr>"]) (simp_all add: ummu_alloc_new_mapt_block_def set_errno_def)
  next
    case exp: False
    show thesis
    proof (cases "ok1 \<and> \<not> CORE_BUF_CHECK_INVALID a")
      case False
      have mf: "memory_fails E tid fd s"
      proof (cases ok1)
        case True
        with False have "CORE_BUF_CHECK_INVALID a" by simp
        then have "CORE_BUF_CHECK_INVALID (fst (ummu_get_core_buf E tid BASE_MODE_TABLE_BLOCK (tc_blk_exp_size (wk_ctx s)) fd (of_nat b) w1))"
          using g sz by simp
        then show ?thesis unfolding memory_fails_def by blast
      next
        case False
        with m have "\<not> os_malloc E (clock (wk_world s0))" by (simp add: c_malloc_def)
        then show ?thesis unfolding memory_fails_def by blast
      qed
      show thesis
        by (rule fail [of "(if ok1 then w2 else w1)\<lparr>errno := ENOMEM\<rparr>"])
          (use False exp m g mf in \<open>auto simp: ummu_alloc_new_mapt_block_def set_errno_def s0_def\<close>)
    next
      case True
      let ?blk = "\<lparr>mb_block_addr = a, mb_blk_size = sz, mb_block_id = of_nat b, mb_level_cnt = 0,
        mb_level_entry_cnt = replicate PER_MAPT_LEVEL_BLOCK_CNT 0, mb_nodes = os_block_mem E (clock w1)\<rparr>"
      define s1 where "s1 = (if tc_block_cnt (wk_ctx s) = 0
        then s\<lparr>wk_world := w2, wk_ctx := (wk_ctx s)\<lparr>tc_mapt_block_base := Some b\<rparr>\<rparr> else s\<lparr>wk_world := w2\<rparr>)"
      have v: "blocks_ok s1 = blocks_ok s" "live s1 = live s" "present s1 = present s" "nd s1 = nd s" "ec s1 = ec s"
        by (rule ctx_view; simp add: s1_def)+
      have at1: "blk_at c s1 = blk_at c s" for c by (simp add: s1_def blk_at_def)
      have e1: "tc_blk_exp_size (wk_ctx s1) = tc_blk_exp_size (wk_ctx s)" by (simp add: s1_def)
      have r: "ummu_alloc_new_mapt_block E tid fd sz b s = Some (Some b, add_block b ?blk s1)"
        using exp m g True set_blk_with_blk [OF ok [folded v(1)] b(1)]
        by (cases "tc_block_cnt (wk_ctx s) = 0")
          (simp_all add: ummu_alloc_new_mapt_block_def s0_def set_errno_def add_block_def Let_def s1_def)
      have av: "blocks_ok (add_block b ?blk s1)" "live (add_block b ?blk s1) = live s1"
          "\<And>c. blk_at c (add_block b ?blk s1) = (if c = b then Some ?blk else blk_at c s1)"
        by (rule add_block_view; simp add: v ok b at1 e1 sz PER_MAPT_LEVEL_BLOCK_CNT_def)+
      let ?s = "add_block b ?blk s1"
      have old: "t div 4 \<noteq> b" if "present s t" for t using that b(2) by (auto simp: present_def)
      have pr: "present ?s t \<longleftrightarrow> present s t \<or> t div 4 = b" for t
        using b(1) by (auto simp: present_def av(3) at1)
      have nd: "nd ?s t = nd s t" "ec ?s t = ec s t" if "present s t" for t
        using old [OF that] by (simp_all add: nd_def ec_def av(3) at1 fun_eq_iff)
      have "ec ?s t = 0" "tn_valid (nd ?s t i) = 0" if "t div 4 = b" for t i
        using that mem unfolding nd_def ec_def av(3)
        by (simp_all add: PER_MAPT_LEVEL_BLOCK_CNT_def fresh_mem_def)
      then have "free_ok ?s" using fr nd by (auto simp: free_ok_def pr av(2) v)
      moreover have "wk_root ?s = wk_root s" "wk_lvl ?s = wk_lvl s"
          "tc_granted_addr_mng (wk_ctx ?s) = tc_granted_addr_mng (wk_ctx s)"
        by (simp_all add: add_block_def Let_def s1_def)
      ultimately show thesis using new [OF r av(1)] av(2) v(2) pr nd by simp
    qed
  qed
qed


lemma first_zero:
  assumes "blocks_ok s"
  obtains id where "find_first_zero_bit (tc_level_block_bitmap (wk_ctx s)) MAX_LEVEL_ID_SIZE = Some id"
    "id \<ge> 2048 \<or> \<not> live s id" "\<forall>u < id. live s u" "id \<le> 2048"
proof -
  let ?bm = "tc_level_block_bitmap (wk_ctx s)"
  have "BITS_TO_LONGS 2048 = 32" using BITS_TO_LONGS_mult [of 32] by simp
  moreover have "length ?bm = 32" by (rule blocks_ok_lengths(1) [OF assms])
  ultimately have "find_first_zero_bit ?bm 2048 =
      Some (case find (\<lambda>k. \<not> bm_bit ?bm k) [0..<2048] of None \<Rightarrow> 2048 | Some k \<Rightarrow> k)"
    using find_first_zero_bit_scan [of 2048 ?bm] by simp
  moreover have "MAX_LEVEL_ID_SIZE = 2048"
    by (simp add: MAX_LEVEL_ID_SIZE_def INDEX_MAX_SIZE_def PER_MAPT_LEVEL_BLOCK_CNT_def)
  ultimately have f: "find_first_zero_bit ?bm MAX_LEVEL_ID_SIZE =
      Some (case find (\<lambda>k. \<not> bm_bit ?bm k) [0..<2048] of None \<Rightarrow> 2048 | Some k \<Rightarrow> k)" by simp
  show thesis
  proof (cases "find (\<lambda>k. \<not> bm_bit ?bm k) [0..<2048]")
    case None
    then have "\<forall>u < 2048. bm_bit ?bm u" by (simp add: find_None_iff)
    with None f show thesis by (intro that [of 2048]) (simp_all add: live_def)
  next
    case (Some k)
    with f show thesis by (intro that [of k]) (auto simp: live_def find_upt_Some)
  qed
qed

text \<open>The last steps of an allocation, once the block of the table is there.\<close>

lemma link_and_mark:
  assumes ok: "blocks_ok s" and fr: "free_ok s" and r: "vref s r" and t: "present s t" "\<not> live s t"
  obtains bm s' where "ummu_set_bit t (tc_level_block_bitmap (wk_ctx (put_ref r n s))) = Some bm"
    "s' = mark True t bm (put_ref r n s)" "blocks_ok s'" "free_ok s'"
    "\<And>u. live s' u \<longleftrightarrow> live s u \<or> u = t" "ec s' = ec s" "\<And>i. i < 512 \<Longrightarrow> nd s' t i = nd s t i"
    "\<And>q. vref s q \<Longrightarrow> val q s' = (if q = r then n else val q s)"
    "wk_root s' = (if r = Local then n else wk_root s)" "wk_lvl s' = wk_lvl s"
    "tc_granted_addr_mng (wk_ctx s') = tc_granted_addr_mng (wk_ctx s)" "present s' = present s"
proof -
  let ?p = "put_ref r n s"
  note pv = put_ref_view [OF ok r, where n = n]
  have t2: "t < 2048" using t(1) by (simp add: present_def)
  then have "t < 64 * length (tc_level_block_bitmap (wk_ctx ?p))" using blocks_ok_lengths(1) [OF pv(1)] by simp
  from ummu_set_bit_eq [OF this] obtain bm where
    bm: "ummu_set_bit t (tc_level_block_bitmap (wk_ctx ?p)) = Some bm" "length bm = 32"
      "\<And>k. bm_bit bm k \<longleftrightarrow> k = t \<or> bm_bit (tc_level_block_bitmap (wk_ctx ?p)) k"
    using blocks_ok_lengths(1) [OF pv(1)] by metis
  have tp: "present ?p t" "live ?p t = (\<not> True)" using t pv(2,3) by auto
  have bm': "\<And>k. bm_bit bm k \<longleftrightarrow> (if k = t then True else bm_bit (tc_level_block_bitmap (wk_ctx ?p)) k)" using bm(3) by auto
  define s' where "s' = mark True t bm ?p"
  note mv = mark_view [OF pv(1) tp bm(2) bm', folded s'_def]
  have ne: "lref t i \<noteq> r" if "i < 512" for i using r t(2) that by (auto simp: vref_def)
  have fields: "wk_root s' = wk_root ?p" "wk_lvl s' = wk_lvl ?p"
      "tc_granted_addr_mng (wk_ctx s') = tc_granted_addr_mng (wk_ctx ?p)"
    by (simp_all add: s'_def mark_def Let_def)
  have val: "val q s' = val q ?p" for q unfolding val_def mv(4) fields(1) ..
  have live: "live s' u \<longleftrightarrow> live s u \<or> u = t" for u using mv(2) pv(2) by auto
  have "lref u i \<noteq> r" if "present s u" "\<not> live s u" "i < 512" for u i using r that by (auto simp: vref_def)
  then have "free_ok s'" using fr pv(9) by (auto simp: free_ok_def mv(3-5) pv(3,4) live)
  then show thesis using that [of bm s'] bm(1) mv(1) live mv(3,4,5) pv val fields ne
    by (auto simp: s'_def [symmetric] split: if_splits)
qed

lemma link_if:
  "(if new then n\<lparr>tn_next_block := 1\<rparr> else n)\<lparr>tn_next_lv_index := of_nat (t div 4),
     tn_next_lv_offset_low := ucast (LVL_OFFSET_LOW (of_nat (512 * (t mod 4)))),
     tn_next_lv_offset_high := ucast (LVL_OFFSET_HIGH (of_nat (512 * (t mod 4))))\<rparr> =
   link t (if new then 1 else tn_next_block n) n"
  by (cases new) (simp_all add: link_def Let_def)

lemma At_table: "At (t div 4) (unat (of_nat (512 * (t mod 4)) :: u32)) = lref t 0"
proof -
  have "512 * (t mod 4) < 2048" by simp
  then have "unat (of_nat (512 * (t mod 4)) :: u32) = 512 * (t mod 4)" by (simp only: unat_of_nat) simp
  then show ?thesis by (simp only: lref_def) simp
qed

text \<open>No mapped block is without live tables; this is what keeps blocks from leaking.\<close>

definition no_empty :: "walk \<Rightarrow> bool" where
  "no_empty s \<longleftrightarrow> (\<forall>b < 512. blk_at b s \<noteq> None \<longrightarrow> (\<exists>k < 4. live s (4 * b + k)))"

lemma no_empty_present: "no_empty s \<longleftrightarrow> (\<forall>t. present s t \<longrightarrow> (\<exists>u. u div 4 = t div 4 \<and> live s u))"
proof
  assume n: "no_empty s"
  show "\<forall>t. present s t \<longrightarrow> (\<exists>u. u div 4 = t div 4 \<and> live s u)"
  proof (intro allI impI)
    fix t assume "present s t"
    then have "t div 4 < 512" "blk_at (t div 4) s \<noteq> None" by (auto simp: present_def)
    with n obtain k where "k < 4" "live s (4 * (t div 4) + k)" unfolding no_empty_def by blast
    then show "\<exists>u. u div 4 = t div 4 \<and> live s u" by (intro exI [of _ "4 * (t div 4) + k"]) simp
  qed
next
  assume p: "\<forall>t. present s t \<longrightarrow> (\<exists>u. u div 4 = t div 4 \<and> live s u)"
  show "no_empty s" unfolding no_empty_def
  proof (intro allI impI)
    fix b assume "b < 512" "blk_at b s \<noteq> None"
    then have "present s (4 * b)" by (simp add: present_def)
    with p obtain u where "u div 4 = b" "live s u" by fastforce
    then show "\<exists>k < 4. live s (4 * b + k)" by (intro exI [of _ "u mod 4"]) auto
  qed
qed

lemma no_empty_new:
  assumes "no_empty s" "\<And>u. present s' u \<Longrightarrow> present s u \<or> u div 4 = t div 4" "\<And>u. live s' u \<longleftrightarrow> live s u \<or> u = t"
  shows "no_empty s'"
  using assms unfolding no_empty_present by metis

text \<open>
  The two halves of \<^verbatim>\<open>ummu_alloc_level_block\<close> once the number of the new table is known: its
  block, mapped when it is the first table of the block, and the link from the parent.
\<close>

definition table_block :: "os_env \<Rightarrow> u32 \<Rightarrow> int \<Rightarrow> nat option \<Rightarrow> nat \<Rightarrow> walk \<Rightarrow> (bool \<times> bool \<times> walk) option" where
  "table_block E tid fd pb t s = (case blk_at (t div 4) s of
     None \<Rightarrow> do {
       (r, s') \<leftarrow> ummu_alloc_new_mapt_block E tid fd (tc_blk_exp_size (wk_ctx s)) (t div 4) s;
       Some (r \<noteq> None, True, s') }
   | Some _ \<Rightarrow> Some (True, pb \<noteq> Some (t div 4), s))"

definition link_table :: "nref \<Rightarrow> nat \<Rightarrow> bool \<Rightarrow> walk \<Rightarrow> (nref option \<times> walk) option" where
  "link_table r t new s = do {
     n1 \<leftarrow> rd_node r s;
     s3 \<leftarrow> wr_node r (link t (if new then 1 else tn_next_block n1) n1) s;
     bm \<leftarrow> ummu_set_bit t (tc_level_block_bitmap (wk_ctx s3));
     let s4 = s3\<lparr>wk_ctx := (wk_ctx s3)\<lparr>tc_level_block_bitmap := bm\<rparr>\<rparr>;
     blk \<leftarrow> blk_at (t div 4) s4;
     s5 \<leftarrow> set_blk (t div 4) (Some (blk\<lparr>mb_level_cnt := mb_level_cnt blk + 1\<rparr>)) s4;
     Some (Some (lref t 0), s5)
   }"

lemma alloc_level_split:
  assumes ok: "blocks_ok s" and r: "vref s r" and t: "t < 2048"
    and z: "find_first_zero_bit (tc_level_block_bitmap (wk_ctx s)) MAX_LEVEL_ID_SIZE = Some t"
  shows "ummu_alloc_level_block E tid fd r pb s = do {
    (got, new, s2) \<leftarrow> table_block E tid fd pb t (put_ref r ((val r s)\<lparr>tn_next_block := 0\<rparr>) s);
    if \<not> got then Some (None, s2) else link_table r t new s2 }"
proof -
  let ?s = "put_ref r ((val r s)\<lparr>tn_next_block := 0\<rparr>) s"
  have ms: "MAX_LEVEL_ID_SIZE = 2048" by (simp add: MAX_LEVEL_ID_SIZE_def INDEX_MAX_SIZE_def PER_MAPT_LEVEL_BLOCK_CNT_def)
  have "blocks_ok ?s" using put_ref_view [OF ok r] by blast
  then have entry: "arr_rd (tc_mapt_block_array (wk_ctx ?s)) (t div 4) = Some (blk_at (t div 4) ?s)"
    using t blocks_ok_lengths(2) [of ?s] by (simp add: blk_at_array)
  have lt: "\<not> 2048 \<le> t" using t by simp
  show ?thesis
    using z lt rd_val [OF ok r] wr_put_ref [OF ok r] entry
    unfolding ummu_alloc_level_block_def ms PER_MAPT_LEVEL_BLOCK_CNT_def MAX_MAPT_ENTRY_INDEX_def table_block_def link_table_def
    by (simp only: bind.simps Let_def link_if At_table if_False)
qed

lemma link_table_ok:
  assumes ok: "blocks_ok s" "free_ok s" and r: "vref s r" and t: "present s t" "\<not> live s t"
  obtains s' nb where "link_table r t new s = Some (Some (lref t 0), s')" "blocks_ok s'" "free_ok s'"
    "\<And>u. live s' u \<longleftrightarrow> live s u \<or> u = t" "ec s' = ec s" "\<And>i. i < 512 \<Longrightarrow> nd s' t i = nd s t i"
    "\<And>q. vref s q \<Longrightarrow> val q s' = (if q = r then link t nb (val r s) else val q s)"
    "wk_root s' = (if r = Local then link t nb (val r s) else wk_root s)" "wk_lvl s' = wk_lvl s"
    "tc_granted_addr_mng (wk_ctx s') = tc_granted_addr_mng (wk_ctx s)" "present s' = present s"
proof -
  define nb where "nb = (if new then 1 else tn_next_block (val r s))"
  let ?p = "put_ref r (link t nb (val r s)) s"
  obtain bm s' where
    k: "ummu_set_bit t (tc_level_block_bitmap (wk_ctx ?p)) = Some bm"
      "s' = mark True t bm ?p" "blocks_ok s'" "free_ok s'"
      "\<And>u. live s' u \<longleftrightarrow> live s u \<or> u = t" "ec s' = ec s" "\<And>i. i < 512 \<Longrightarrow> nd s' t i = nd s t i"
      "\<And>q. vref s q \<Longrightarrow> val q s' = (if q = r then link t nb (val r s) else val q s)"
      "wk_root s' = (if r = Local then link t nb (val r s) else wk_root s)" "wk_lvl s' = wk_lvl s"
      "tc_granted_addr_mng (wk_ctx s') = tc_granted_addr_mng (wk_ctx s)" "present s' = present s"
    by (rule link_and_mark [OF ok r t, of "link t nb (val r s)"]) blast
  note pp = put_ref_view [OF ok(1) r, where n = "link t nb (val r s)"]
  obtain blk where blk: "t div 4 < 512" "blk_at (t div 4) ?p = Some blk"
    using present_block [of ?p t] t(1) pp(3) by metis
  have len: "length (tc_mapt_block_array (wk_ctx ?p)) = 512" by (rule blocks_ok_lengths(2) [OF pp(1)])
  have p4: "blk_at (t div 4) (?p\<lparr>wk_ctx := (wk_ctx ?p)\<lparr>tc_level_block_bitmap := bm\<rparr>\<rparr>) = Some blk"
    using blk(2) by (simp add: blk_at_def)
  have "set_blk (t div 4) (Some (blk\<lparr>mb_level_cnt := mb_level_cnt blk + 1\<rparr>))
      (?p\<lparr>wk_ctx := (wk_ctx ?p)\<lparr>tc_level_block_bitmap := bm\<rparr>\<rparr>) = Some s'"
    unfolding k(2) mark_def using blk len by (simp add: set_blk_def with_blk_def Let_def)
  then have "link_table r t new s = Some (Some (lref t 0), s')"
    using rd_val [OF ok(1) r] wr_put_ref [OF ok(1) r] k(1) p4
    unfolding link_table_def by (simp only: bind.simps Let_def nb_def [symmetric])
  then show thesis using k(3-12) by (rule that)
qed

lemma alloc_level_cases:
  assumes ok: "blocks_ok s" and fr: "free_ok s" and r: "vref s r" and mem: "fresh_mem E"
  obtains (fail) s' nb where "ummu_alloc_level_block E tid fd r pb s = Some (None, s')"
      "errno (wk_world s') \<in> {ERANGE, ENOMEM}" "blocks_ok s'" "free_ok s'" "live s' = live s" "ec s' = ec s"
      "\<And>q. vref s q \<Longrightarrow> val q s' = (if q = r then (val r s)\<lparr>tn_next_block := nb\<rparr> else val q s)"
      "wk_root s' = (if r = Local then (val r s)\<lparr>tn_next_block := nb\<rparr> else wk_root s)" "wk_lvl s' = wk_lvl s"
      "tc_granted_addr_mng (wk_ctx s') = tc_granted_addr_mng (wk_ctx s)" "no_empty s \<Longrightarrow> no_empty s'"
      "fill_ret E tid fd s' (- errno (wk_world s'))"
  | (new) s' t nb where "ummu_alloc_level_block E tid fd r pb s = Some (Some (lref t 0), s')"
      "t < 2048" "\<not> live s t" "blocks_ok s'" "free_ok s'" "\<And>u. live s' u \<longleftrightarrow> live s u \<or> u = t"
      "\<And>u. live s u \<Longrightarrow> ec s' u = ec s u" "ec s' t = 0" "\<And>i. i < 512 \<Longrightarrow> tn_valid (nd s' t i) = 0"
      "\<And>q. vref s q \<Longrightarrow> val q s' = (if q = r then link t nb (val r s) else val q s)"
      "wk_root s' = (if r = Local then link t nb (val r s) else wk_root s)" "wk_lvl s' = wk_lvl s"
      "tc_granted_addr_mng (wk_ctx s') = tc_granted_addr_mng (wk_ctx s)" "no_empty s \<Longrightarrow> no_empty s'"
proof -
  obtain t where z: "find_first_zero_bit (tc_level_block_bitmap (wk_ctx s)) MAX_LEVEL_ID_SIZE = Some t"
    "t \<ge> 2048 \<or> \<not> live s t" and full: "\<forall>u < t. live s u" "t \<le> 2048" by (rule first_zero [OF ok])
  show thesis
  proof (cases "t \<ge> 2048")
    case True
    have "blocks_ok (set_errno ERANGE s)" "free_ok (set_errno ERANGE s)" "live (set_errno ERANGE s) = live s"
        "ec (set_errno ERANGE s) = ec s" "val q (set_errno ERANGE s) = val q s" "present (set_errno ERANGE s) = present s" for q
      using ok fr by (simp_all add: set_errno_def free_ok_def val_def split: nref.splits)
    moreover have "fill_ret E tid fd (set_errno ERANGE s) (- errno (wk_world (set_errno ERANGE s)))"
      using full True by (simp add: fill_ret_def exhausted_def set_errno_def live_def)
    ultimately show thesis using True z
      by (intro fail [of "set_errno ERANGE s" "tn_next_block (val r s)"])
        (auto simp: ummu_alloc_level_block_def MAX_LEVEL_ID_SIZE_def INDEX_MAX_SIZE_def PER_MAPT_LEVEL_BLOCK_CNT_def
          set_errno_def no_empty_present)
  next
    case False
    then have t: "t < 2048" "t div 4 < 512" and dead: "\<not> live s t" using z(2) by auto
    define s1 where "s1 = put_ref r ((val r s)\<lparr>tn_next_block := 0\<rparr>) s"
    note pv = put_ref_view [OF ok r, where n = "(val r s)\<lparr>tn_next_block := 0\<rparr>", folded s1_def]
    note start = alloc_level_split [OF ok r t(1) z(1), of E tid fd pb, folded s1_def]
    have "lref u i \<noteq> r" if "present s u" "\<not> live s u" "i < 512" for u i using r that by (auto simp: vref_def)
    then have fr1: "free_ok s1" using fr pv(9) by (auto simp: free_ok_def pv(2-4))
    have fin: thesis if tb: "table_block E tid fd pb t s1 = Some (True, isnew, s2)"
      and v2: "blocks_ok s2" "free_ok s2" "live s2 = live s1" "present s2 t"
        "\<And>t. present s1 t \<Longrightarrow> nd s2 t = nd s1 t" "\<And>t. present s1 t \<Longrightarrow> ec s2 t = ec s1 t"
        "wk_root s2 = wk_root s1" "wk_lvl s2 = wk_lvl s1"
        "tc_granted_addr_mng (wk_ctx s2) = tc_granted_addr_mng (wk_ctx s1)"
        "\<And>u. present s2 u \<Longrightarrow> present s1 u \<or> u div 4 = t div 4" for isnew s2
    proof -
      have lv: "live s2 = live s" using v2(3) pv(2) by simp
      have pr: "present s1 u" if "live s u" for u using live_present [OF ok that] pv(3) by simp
      have vr: "vref s2 q = vref s q" for q using lv by (simp add: vref_def)
      have dead2: "\<not> live s2 t" using dead lv by simp
      have val2: "val q s2 = (if q = r then (val r s)\<lparr>tn_next_block := 0\<rparr> else val q s)" if "vref s q" for q
        using that v2(5,7) pr pv(7) [OF that] by (auto simp: vref_def)
      obtain s' nb where k: "link_table r t isnew s2 = Some (Some (lref t 0), s')" "blocks_ok s'" "free_ok s'"
          "\<And>u. live s' u \<longleftrightarrow> live s2 u \<or> u = t" "ec s' = ec s2" "\<And>i. i < 512 \<Longrightarrow> nd s' t i = nd s2 t i"
          "\<And>q. vref s2 q \<Longrightarrow> val q s' = (if q = r then link t nb (val r s2) else val q s2)"
          "wk_root s' = (if r = Local then link t nb (val r s2) else wk_root s2)" "wk_lvl s' = wk_lvl s2"
          "tc_granted_addr_mng (wk_ctx s') = tc_granted_addr_mng (wk_ctx s2)" "present s' = present s2"
        using link_table_ok [OF v2(1,2) r [folded vr] v2(4) dead2] by blast
      have "ummu_alloc_level_block E tid fd r pb s = Some (Some (lref t 0), s')" by (simp add: start tb k(1))
      moreover have "val r s2 = (val r s)\<lparr>tn_next_block := 0\<rparr>" using val2 [OF r] by simp
      then have ln: "link t nb (val r s2) = link t nb (val r s)" by (simp add: link_def Let_def)
      moreover have "val q s' = (if q = r then link t nb (val r s) else val q s)" if "vref s q" for q
        using k(7) [of q] val2 [OF that] that ln by (simp add: vr)
      moreover have "ec s' u = ec s u" if "live s u" for u using pr [OF that] v2(6) k(5) pv(4) by simp
      moreover have "ec s' t = 0" "\<And>i. i < 512 \<Longrightarrow> tn_valid (nd s' t i) = 0"
        using v2(2,4) dead2 k(5,6) by (auto simp: free_ok_def)
      moreover have "wk_root s' = (if r = Local then link t nb (val r s) else wk_root s)"
        unfolding k(8) ln using v2(7) pv(12) by (cases "r = Local") simp_all
      moreover have "no_empty s \<Longrightarrow> no_empty s'"
        using no_empty_new [of s s' t] v2(10) pv(3) k(4,11) lv by auto
      ultimately show thesis
        using t(1) dead k(2-4,9,10) lv v2(8,9) pv(6,11) by (intro new [of t s' nb]) simp_all
    qed
    show thesis
    proof (cases "blk_at (t div 4) s1")
      case (Some blk)
      have "present s1 t" using Some t(1) by (simp add: present_def)
      with Some show thesis by (intro fin [of "pb \<noteq> Some (t div 4)" s1]) (simp_all add: table_block_def pv(1) fr1)
    next
      case None
      show thesis
      proof (rule alloc_new_block_cases [OF pv(1) t(2) None refl mem fr1, of tid fd])
        fix w assume f: "ummu_alloc_new_mapt_block E tid fd (tc_blk_exp_size (wk_ctx s1)) (t div 4) s1 = Some (None, s1\<lparr>wk_world := w\<rparr>)"
          "errno w \<in> {ERANGE, ENOMEM}"
          "errno w = ERANGE \<and> \<not> tc_expan (wk_ctx s1) \<and> t div 4 \<noteq> 0 \<or> errno w = ENOMEM \<and> memory_fails E tid fd s1"
        have "fill_ret E tid fd (s1\<lparr>wk_world := w\<rparr>) (- errno w)"
          using f(3)
        proof
          assume a: "errno w = ERANGE \<and> \<not> tc_expan (wk_ctx s1) \<and> t div 4 \<noteq> 0"
          then have "4 \<le> t" by (metis div_less not_le)
          with full(1) have "\<forall>u < 4. live s u" by auto
          with a show ?thesis using pv(2) by (simp add: fill_ret_def exhausted_def)
        next
          assume "errno w = ENOMEM \<and> memory_fails E tid fd s1"
          then show ?thesis by (simp add: fill_ret_def memory_fails_def)
        qed
        moreover have "ummu_alloc_level_block E tid fd r pb s = Some (None, s1\<lparr>wk_world := w\<rparr>)"
          unfolding start table_block_def using None f(1) by simp
        moreover have "val q (s1\<lparr>wk_world := w\<rparr>) = val q s1" for q by (simp add: val_def split: nref.splits)
        moreover have "free_ok (s1\<lparr>wk_world := w\<rparr>)" using fr1 by (simp add: free_ok_def)
        moreover have "no_empty s \<Longrightarrow> no_empty (s1\<lparr>wk_world := w\<rparr>)" using pv(2,3) by (simp add: no_empty_present)
        ultimately show thesis using f(2) pv by (intro fail [of "s1\<lparr>wk_world := w\<rparr>" 0]) simp_all
      next
        fix s2 assume n: "ummu_alloc_new_mapt_block E tid fd (tc_blk_exp_size (wk_ctx s1)) (t div 4) s1 = Some (Some (t div 4), s2)"
          "blocks_ok s2" "free_ok s2" "live s2 = live s1" "\<And>u. present s2 u \<longleftrightarrow> present s1 u \<or> u div 4 = t div 4"
          "\<And>t. present s1 t \<Longrightarrow> nd s2 t = nd s1 t" "\<And>t. present s1 t \<Longrightarrow> ec s2 t = ec s1 t"
          "wk_root s2 = wk_root s1" "wk_lvl s2 = wk_lvl s1"
          "tc_granted_addr_mng (wk_ctx s2) = tc_granted_addr_mng (wk_ctx s1)"
        show thesis using None n by (intro fin [of True s2]) (simp_all add: table_block_def)
      qed
    qed
  qed
qed

section \<open>Release\<close>

lemma level_id_eq:
  assumes "t < 2048"
  shows "(of_nat (t div 4) :: u32) * of_nat PER_MAPT_LEVEL_BLOCK_CNT +
    of_nat (512 * (t mod 4)) div of_nat MAX_MAPT_ENTRY_INDEX = of_nat t"
proof -
  have lt: "512 * (t mod 4) < 2048" "t div 4 < 512" using assms by auto
  have u: "unat (of_nat (512 * (t mod 4)) :: u32) = 512 * (t mod 4)"
    using lt by (simp only: unat_of_nat) simp
  have "unat ((of_nat (512 * (t mod 4)) :: u32) div 512) = t mod 4"
    by (simp only: unat_div u) simp
  moreover have "t mod 4 < 2 ^ 32" by (rule less_trans [of _ 4]) simp_all
  then have "unat (of_nat (t mod 4) :: u32) = t mod 4" by (simp only: unat_of_nat) simp
  ultimately have "(of_nat (512 * (t mod 4)) :: u32) div 512 = of_nat (t mod 4)"
    by (simp only: word_unat_eq_iff)
  moreover have "(of_nat t :: u32) = of_nat (4 * (t div 4) + t mod 4)" by simp
  ultimately show ?thesis
    by (simp only: PER_MAPT_LEVEL_BLOCK_CNT_def MAX_MAPT_ENTRY_INDEX_def of_nat_add of_nat_mult of_nat_numeral) simp
qed

lemma free_level_root:
  assumes "blocks_ok s" "vref s r" "pts (val r s) 0" "live s 0"
  shows "ummu_free_level_block (Some r) s = Some s"
proof -
  obtain blk where b: "blk_at 0 s = Some blk" using live_present [OF assms(1,4)] by (auto simp: present_def)
  note bo = blocks_ok_block [OF assms(1) _ b, simplified]
  have "0 \<in> {k. k < 4 \<and> live s (4 * 0 + k)}" using assms(4) by simp
  then have "mb_level_cnt blk \<noteq> 0" using bo by (auto simp: block_ok_def card_eq_0_iff)
  moreover have "tn_lv_offset (val r s) = 0" "tn_next_lv_index (val r s) = 0" using assms(3) by (simp_all add: pts_def)
  ultimately show ?thesis using b bo rd_val [OF assms(1,2)]
    by (simp add: ummu_free_level_block_def block_ok_def)
qed

lemma free_level_other:
  assumes ok: "blocks_ok s" and r: "vref s r" and p: "pts (val r s) t" and t: "live s t" "t \<noteq> 0"
    and root: "live s 0" and fr: "free_ok s" and emp: "ec s t = 0" "\<And>i. i < 512 \<Longrightarrow> tn_valid (nd s t i) = 0"
  obtains s' where "ummu_free_level_block (Some r) s = Some s'" "blocks_ok s'" "free_ok s'"
    "\<And>u. live s' u \<longleftrightarrow> live s u \<and> u \<noteq> t" "\<And>u. live s' u \<Longrightarrow> nd s' u = nd s u" "\<And>u. live s' u \<Longrightarrow> ec s' u = ec s u"
    "wk_root s' = wk_root s" "wk_lvl s' = wk_lvl s" "no_empty s \<Longrightarrow> no_empty s'"
    "tc_granted_addr_mng (wk_ctx s') = tc_granted_addr_mng (wk_ctx s)"
proof -
  define b where "b = t div 4"
  have t2: "t < 2048" using t(1) by (simp add: live_def)
  have pr: "present s t" by (rule live_present [OF ok t(1)])
  obtain blk where b: "b < 512" "blk_at b s = Some blk" using present_block [OF pr] unfolding b_def by metis
  note bo = blocks_ok_block [OF ok b]
  have "t < 64 * length (tc_level_block_bitmap (wk_ctx s))" using blocks_ok_lengths(1) [OF ok] t2 by simp
  from ummu_clear_bit_eq [OF this] obtain bm where
    bm: "ummu_clear_bit t (tc_level_block_bitmap (wk_ctx s)) = Some bm" "length bm = 32"
      "\<And>k. bm_bit bm k \<longleftrightarrow> k \<noteq> t \<and> bm_bit (tc_level_block_bitmap (wk_ctx s)) k"
    using blocks_ok_lengths(1) [OF ok] by metis
  have bm': "\<And>k. bm_bit bm k \<longleftrightarrow> (if k = t then False else bm_bit (tc_level_block_bitmap (wk_ctx s)) k)"
    using bm(3) by auto
  have tl: "live s t = (\<not> False)" using t(1) by simp
  define s1 where "s1 = mark False t bm s"
  note mv = mark_view [OF ok pr tl bm(2) bm', folded s1_def]
  let ?blk1 = "blk\<lparr>mb_level_cnt := mb_level_cnt blk - 1\<rparr>"
  have at1: "blk_at b s1 = Some ?blk1"
    unfolding s1_def mark_def b_def [symmetric] using b blocks_ok_lengths(2) [OF ok]
    by (simp add: Let_def blk_at_with_blk)
  have id: "mb_block_id blk * of_nat PER_MAPT_LEVEL_BLOCK_CNT + tn_lv_offset (val r s) div of_nat MAX_MAPT_ENTRY_INDEX
      = of_nat t"
    using bo level_id_eq [OF t2] p by (simp add: block_ok_def pts_def b_def)
  have ut: "unat (of_nat t :: u32) = t" using t2 by (simp only: unat_of_nat) simp
  have idn: "(of_nat t :: u32) \<noteq> 0" using ut t(2) by (metis unat_0)
  have ub: "unat (mb_block_id blk) = b" using bo b(1) by (simp only: block_ok_def unat_of_nat) simp
  let ?s1 = "(with_blk b (Some ?blk1) s)\<lparr>wk_ctx := (wk_ctx (with_blk b (Some ?blk1) s))\<lparr>tc_level_block_bitmap := bm\<rparr>\<rparr>"
  have s1: "?s1 = s1"
    unfolding s1_def mark_def b_def [symmetric] using b by (simp add: Let_def with_blk_def)
  let ?drop = "mb_level_cnt ?blk1 = 0 \<and> tc_block_cnt (wk_ctx s1) > 1"
  have run: "ummu_free_level_block (Some r) s = (if ?drop then Some ((drop_block b s1)\<lparr>wk_world :=
       ummu_free_core_buf BASE_MODE_TABLE_BLOCK (mb_block_addr blk) (tc_blk_exp_size (wk_ctx s1)) (wk_world s1)\<rparr>) else Some s1)"
    unfolding ummu_free_level_block_def option.case rd_val [OF ok r] bind.simps prod.case pts_nat [OF p] b_def [symmetric]
      b(2) Let_def id
    using bm(1) at1 idn ut ub b(1) set_blk_with_blk [OF ok b(1)] set_blk_with_blk [OF mv(1) b(1)] s1
    by (simp add: drop_block_def Let_def)
  have f1: "wk_root s1 = wk_root s" "wk_lvl s1 = wk_lvl s"
      "tc_granted_addr_mng (wk_ctx s1) = tc_granted_addr_mng (wk_ctx s)"
    by (simp_all add: s1_def mark_def Let_def)
  have live1: "live s1 u \<longleftrightarrow> live s u \<and> u \<noteq> t" for u using mv(2) by simp
  have fr1: "free_ok s1" using fr emp by (auto simp: free_ok_def mv(3-5) live1)
  have at: "blk_at c s1 \<noteq> None \<longleftrightarrow> blk_at c s \<noteq> None" if "c < 512" for c
    using fun_cong [OF mv(3), of "4 * c"] that by (simp add: present_def)
  have other: "(\<exists>k < 4. live s1 (4 * c + k)) \<longleftrightarrow> (\<exists>k < 4. live s (4 * c + k))" if "c \<noteq> b" for c
    using that by (auto simp: live1 b_def)
  have lc: "unat (mb_level_cnt ?blk1) = card {k. k < 4 \<and> live s1 (4 * b + k)}"
    using blocks_ok_block [OF mv(1) b(1) at1] by (simp add: block_ok_def)
  show thesis
  proof (cases "\<exists>k < 4. live s1 (4 * b + k)")
    case True
    then have "card {k. k < 4 \<and> live s1 (4 * b + k)} \<noteq> 0" by (auto simp: card_eq_0_iff)
    then have "\<not> ?drop" using lc by (metis unat_0)
    then have res: "ummu_free_level_block (Some r) s = Some s1" using run by (simp only: if_False)
    have "no_empty s1" if "no_empty s"
      using that True at other unfolding no_empty_def by metis
    then show thesis using res mv(1,4,5) fr1 live1 f1 by (intro that [of s1]) simp_all
  next
    case False
    then have "{k. k < 4 \<and> live s1 (4 * b + k)} = {}" by blast
    then have "unat (mb_level_cnt ?blk1) = 0" using lc by (simp only: card.empty)
    then have "mb_level_cnt ?blk1 = 0" by (simp only: unat_eq_zero)
    have "b \<noteq> 0" using False root t(2) live1 [of 0] by (metis add_0 mult_0_right zero_less_numeral)
    have two: "card ({0, b} :: nat set) \<le> card {c. c < 512 \<and> blk_at c s1 \<noteq> None}"
      using live_present [OF ok root] b at at1 by (intro card_mono) (auto simp: present_def)
    then have "2 \<le> unat (tc_block_cnt (wk_ctx s1))" using \<open>b \<noteq> 0\<close> mv(1) by (simp add: blocks_ok_def)
    then have "?drop" using \<open>mb_level_cnt ?blk1 = 0\<close> by (simp add: word_less_nat_alt)
    define s2 where "s2 = (drop_block b s1)\<lparr>wk_world := ummu_free_core_buf BASE_MODE_TABLE_BLOCK (mb_block_addr blk)
       (tc_blk_exp_size (wk_ctx s1)) (wk_world s1)\<rparr>"
    have res: "ummu_free_level_block (Some r) s = Some s2" using run \<open>?drop\<close> by (simp only: if_True s2_def simp_thms)
    have none: "\<And>k. k < 4 \<Longrightarrow> \<not> live s1 (4 * b + k)" using False by blast
    note dv = drop_block_view [OF mv(1) b(1) at1 none]
    have v2: "blocks_ok s2" "live s2 = live s1" using dv(1,2) by (simp_all add: s2_def)
    have at2: "blk_at c s2 = (if c = b then None else blk_at c s1)" for c using dv(3) [of c] by (simp add: s2_def blk_at_def)
    have nb: "u div 4 \<noteq> b" if "present s2 u" for u using that by (auto simp: present_def at2)
    have nde: "nd s2 u = nd s1 u" "ec s2 u = ec s1 u" if "present s2 u" for u
      using nb [OF that] by (simp_all add: nd_def ec_def at2 fun_eq_iff)
    have "present s1 u" if "present s2 u" for u using that by (auto simp: present_def at2 split: if_splits)
    then have "free_ok s2" using fr1 nde v2(2) by (auto simp: free_ok_def)
    moreover have "no_empty s2" if "no_empty s"
      using that at other unfolding no_empty_def v2(2) at2 by metis
    moreover have "wk_root s2 = wk_root s" "wk_lvl s2 = wk_lvl s"
        "tc_granted_addr_mng (wk_ctx s2) = tc_granted_addr_mng (wk_ctx s)"
      using f1 by (simp_all add: s2_def drop_block_def Let_def)
    moreover have "nd s2 u = nd s u" "ec s2 u = ec s u" if "live s2 u" for u
      using nde live_present [OF v2(1) that] mv(4,5) by simp_all
    ultimately show thesis using res v2 live1 by (intro that [of s2]) simp_all
  qed
qed

section \<open>Properties\<close>

text \<open>C23: Allocating a level table is memory safe and keeps the block structure consistent (bitmap,
  per-block counts, number of blocks).  No mapped block without a used table appears.  On success the table was unused, is now used, is empty,
  and the previous node points to it; on failure \<^verbatim>\<open>errno\<close> says ERANGE or ENOMEM and no table is
  used up.  Every other node of every used table keeps its contents.\<close>

theorem alloc_level_block_correct:
  assumes "blocks_ok s" "free_ok s" "vref s r" "fresh_mem E"
  shows "\<exists>res s'. ummu_alloc_level_block E tid fd r pb s = Some (res, s') \<and> blocks_ok s' \<and> free_ok s' \<and>
    (no_empty s \<longrightarrow> no_empty s') \<and>
    (\<forall>q. vref s q \<longrightarrow> q \<noteq> r \<longrightarrow> val q s' = val q s) \<and> (\<forall>u. live s u \<longrightarrow> ec s' u = ec s u) \<and>
    (case res of
       None \<Rightarrow> errno (wk_world s') \<in> {ERANGE, ENOMEM} \<and> live s' = live s
     | Some q \<Rightarrow> \<exists>t. q = lref t 0 \<and> t < 2048 \<and> \<not> live s t \<and> live s' = (live s)(t := True) \<and>
         pts (val r s') t \<and> ec s' t = 0 \<and> (\<forall>i < 512. tn_valid (nd s' t i) = 0))"
proof (rule alloc_level_cases [OF assms, of tid fd pb])
  fix s' nb
  assume "ummu_alloc_level_block E tid fd r pb s = Some (None, s')" "errno (wk_world s') \<in> {ERANGE, ENOMEM}"
    "blocks_ok s'" "free_ok s'" "live s' = live s" "ec s' = ec s"
    "\<And>q. vref s q \<Longrightarrow> val q s' = (if q = r then (val r s)\<lparr>tn_next_block := nb\<rparr> else val q s)" "no_empty s \<Longrightarrow> no_empty s'"
  then show ?thesis by auto
next
  fix s' t nb
  assume a: "ummu_alloc_level_block E tid fd r pb s = Some (Some (lref t 0), s')" "t < 2048" "\<not> live s t"
    "blocks_ok s'" "free_ok s'" "\<And>u. live s' u \<longleftrightarrow> live s u \<or> u = t" "\<And>u. live s u \<Longrightarrow> ec s' u = ec s u"
    "ec s' t = 0" "\<And>i. i < 512 \<Longrightarrow> tn_valid (nd s' t i) = 0"
    "\<And>q. vref s q \<Longrightarrow> val q s' = (if q = r then link t nb (val r s) else val q s)" "no_empty s \<Longrightarrow> no_empty s'"
  have "pts (val r s') t" using a(10) [OF assms(3)] link_pts [OF a(2)] by simp
  moreover have "live s' = (live s)(t := True)" using a(6) by (auto simp: fun_eq_iff)
  ultimately show ?thesis using a by (intro exI [of _ "Some (lref t 0)"] exI [of _ s']) auto
qed

definition empty_walk :: walk where
  "empty_walk = \<lparr>wk_root = zero_table_node,
     wk_ctx = \<lparr>tc_expan = True, tc_block_cnt = 0, tc_blk_exp_size = 0x10000, tc_granted_addr_mng = Some [],
       tc_level_block_bitmap = replicate 32 0, tc_mapt_block_base = None, tc_mapt_block_array = replicate 512 None\<rparr>,
     wk_world = world0, wk_lvl = 0\<rparr>"

lemma empty_ctx_ok:
  assumes "tc_block_cnt (wk_ctx s) = 0" "tc_level_block_bitmap (wk_ctx s) = replicate 32 0"
    "tc_mapt_block_array (wk_ctx s) = replicate 512 None" "65536 \<le> unat (tc_blk_exp_size (wk_ctx s))"
  shows "blocks_ok s" "free_ok s" "\<And>t. \<not> live s t"
proof -
  have l: "\<not> live s t" for t
    by (auto simp: live_def assms bm_bit_def)
  have b: "blk_at c s = None" for c by (simp add: blk_at_def arr_rd_def assms)
  show "blocks_ok s" by (rule blocks_okI) (simp_all add: assms l b)
  show "free_ok s" by (simp add: free_ok_def present_def b)
  fix t show "\<not> live s t" by (rule l)
qed

lemma quiet_fresh_mem: "fresh_mem quiet_env"
  by (simp add: fresh_mem_def quiet_env_def zero_table_node_def table_of_words_def)

theorem alloc_level_block_correct_witness:
  "\<exists>res s'. ummu_alloc_level_block quiet_env 5 3 Local None empty_walk = Some (res, s') \<and> blocks_ok s'"
proof -
  have "blocks_ok empty_walk" "free_ok empty_walk" by (rule empty_ctx_ok; simp add: empty_walk_def)+
  from alloc_level_block_correct [OF this vref_lref(2) quiet_fresh_mem] show ?thesis by blast
qed

text \<open>C24: Releasing an empty level table is memory safe: exactly that table becomes unused, all other
  used tables keep their nodes and counts, a block is unmapped when its last table goes, so no
  mapped block is left without a used table, and the root table is never released.\<close>

theorem free_level_block_correct:
  assumes "blocks_ok s" "free_ok s" "no_empty s" "live s 0" "vref s r" "pts (val r s) t" "live s t"
    "t \<noteq> 0 \<longrightarrow> ec s t = 0 \<and> (\<forall>i < 512. tn_valid (nd s t i) = 0)"
  shows "\<exists>s'. ummu_free_level_block (Some r) s = Some s' \<and> blocks_ok s' \<and> free_ok s' \<and> no_empty s' \<and>
    (\<forall>u. live s' u \<longleftrightarrow> live s u \<and> (u \<noteq> t \<or> t = 0)) \<and> (\<forall>u. live s' u \<longrightarrow> nd s' u = nd s u \<and> ec s' u = ec s u)"
proof (cases "t = 0")
  case True
  with free_level_root [of s r] assms show ?thesis by auto
next
  case False
  then have e: "ec s t = 0" "\<And>i. i < 512 \<Longrightarrow> tn_valid (nd s t i) = 0" using assms(8) by auto
  show ?thesis
  proof (rule free_level_other [OF assms(1,5,6,7) False assms(4,2) e])
    fix s'
    assume "ummu_free_level_block (Some r) s = Some s'" "blocks_ok s'" "free_ok s'"
      "\<And>u. live s' u \<longleftrightarrow> live s u \<and> u \<noteq> t" "\<And>u. live s' u \<Longrightarrow> nd s' u = nd s u"
      "\<And>u. live s' u \<Longrightarrow> ec s' u = ec s u" "no_empty s \<Longrightarrow> no_empty s'"
    then show ?thesis using assms(3) False by auto
  qed
qed

definition first_block :: "nat \<Rightarrow> mapt_block" where
  "first_block k = \<lparr>mb_block_addr = 0x1000, mb_blk_size = 0x10000, mb_block_id = 0, mb_level_cnt = of_nat k,
     mb_level_entry_cnt = replicate 4 0, mb_nodes = (\<lambda>_. zero_table_node)\<rparr>"

text \<open>One block, whose first \<open>k\<close> tables are in use and empty.\<close>

definition block_walk :: "nat \<Rightarrow> table_node \<Rightarrow> walk" where
  "block_walk k root = empty_walk\<lparr>wk_root := root,
     wk_ctx := (wk_ctx empty_walk)\<lparr>tc_block_cnt := 1, tc_level_block_bitmap := (replicate 32 0)[0 := mask k],
       tc_mapt_block_array := (replicate 512 None)[0 := Some (first_block k)]\<rparr>\<rparr>"

lemma block_walk_view:
  assumes "k \<le> 4"
  shows "live (block_walk k r) t \<longleftrightarrow> t < k" "blk_at b (block_walk k r) \<noteq> None \<longleftrightarrow> b = 0"
    "blk_at 0 (block_walk k r) = Some (first_block k)"
proof -
  have l: "tc_level_block_bitmap (wk_ctx (block_walk k r)) = (replicate 32 0)[0 := mask k]" by (simp add: block_walk_def)
  have "bm_bit ((replicate 32 0)[0 := mask k]) t \<longleftrightarrow> t < k" if "t < 2048"
    using that assms by (cases "t div 64 = 0") (auto simp: bm_bit_def bit_mask_iff)
  with assms show "live (block_walk k r) t \<longleftrightarrow> t < k" by (auto simp: live_def l)
  show "blk_at b (block_walk k r) \<noteq> None \<longleftrightarrow> b = 0"
    by (auto simp: blk_at_def arr_rd_def block_walk_def nth_list_update)
  show "blk_at 0 (block_walk k r) = Some (first_block k)"
    by (simp add: blk_at_def arr_rd_def block_walk_def nth_list_update)
qed

lemma block_walk_nodes:
  assumes "k \<le> 4" "t < 4"
  shows "ec (block_walk k r) t = 0" "tn_valid (nd (block_walk k r) t i) = 0"
  using assms by (simp_all add: ec_def nd_def block_walk_view first_block_def zero_table_node_def table_of_words_def)

lemma block_walk_ok:
  assumes "0 < k" "k \<le> 4"
  shows "blocks_ok (block_walk k r)" "free_ok (block_walk k r)" "no_empty (block_walk k r)"
proof -
  note v = block_walk_view [OF assms(2)]
  have sz: "tc_blk_exp_size (wk_ctx (block_walk k r)) = 0x10000" by (simp add: block_walk_def empty_walk_def)
  have b0: "b = 0" if "blk_at b (block_walk k r) = Some blk" for b blk
    using v(2) [of b r] that by simp
  have "{j. j < 4 \<and> j < k} = {..<k}" using assms(2) by auto
  then have c: "card {j. j < 4 \<and> j < k} = k" by simp
  have c0: "{b. b < 512 \<and> b = (0::nat)} = {0}" by auto
  have u: "unat (of_nat k :: u16) = k" using assms(2) by (simp add: unat_of_nat)
  show "blocks_ok (block_walk k r)"
  proof (rule blocks_okI)
    fix b blk assume a: "blk_at b (block_walk k r) = Some blk"
    then have "b = 0" by (rule b0)
    with a show "block_ok (block_walk k r) b blk" by (auto simp: block_ok_def v sz c u first_block_def)
  next
    fix b j assume "blk_at b (block_walk k r) = None"
    then have "b \<noteq> 0" using v(2) [of b r] by auto
    then show "\<not> live (block_walk k r) (4 * b + j)" using assms(2) by (simp add: v)
  qed (simp_all only: v(2) c0 sz, simp_all add: block_walk_def empty_walk_def)
  show "free_ok (block_walk k r)"
  proof (unfold free_ok_def, intro allI impI)
    fix t assume "present (block_walk k r) t"
    then have "t div 4 = 0" using v(2) by (simp add: present_def)
    then show "ec (block_walk k r) t = 0 \<and> (\<forall>i < 512. tn_valid (nd (block_walk k r) t i) = 0)"
      by (simp add: block_walk_nodes [OF assms(2)])
  qed
  show "no_empty (block_walk k r)"
  proof (unfold no_empty_def, intro allI impI)
    fix b assume "blk_at b (block_walk k r) \<noteq> None"
    then have "b = 0" by (simp only: v(2))
    then have "live (block_walk k r) (4 * b + 0)" using assms(1) by (simp add: v(1))
    then show "\<exists>j < 4. live (block_walk k r) (4 * b + j)" by (intro exI [of _ 0]) simp
  qed
qed

theorem free_level_block_correct_witness:
  "\<exists>s'. ummu_free_level_block (Some Local) (block_walk 2 (link 1 0 zero_table_node)) = Some s' \<and> blocks_ok s' \<and> \<not> live s' 1"
proof -
  let ?w = "block_walk 2 (link 1 0 zero_table_node)"
  have p: "pts (val Local ?w) 1" using link_pts [of 1 0 zero_table_node] by (simp add: block_walk_def)
  have e: "1 \<noteq> (0 :: nat) \<longrightarrow> ec ?w 1 = 0 \<and> (\<forall>i < 512. tn_valid (nd ?w 1 i) = 0)" by (simp add: block_walk_nodes)
  from free_level_block_correct [OF block_walk_ok _ vref_lref(2) p _ e] show ?thesis
    by (auto simp: block_walk_view)
qed

end
