(* ===== verification/Ummu_Table.thy ===== *)
theory Ummu_Table
  imports Ummu_LevelBlock
begin

text \<open>
  The permission table of \<^verbatim>\<open>src/ummu_mapt.c\<close>: four levels of 512 nodes.  A valid node holds one
  segment inside its region; a node of type 0 has a next level for the other segments of its
  region.  The recursions go one level down at each call and stop above level 3, so they are
  total; \<open>None\<close> is undefined behaviour (a NULL block, a node outside its block, an index
  outside an array).
\<close>

section \<open>Loops\<close>

text \<open>A \<^verbatim>\<open>for\<close> loop whose body returns early with a non-zero code.\<close>

primrec for_ret :: "(nat \<Rightarrow> 's \<Rightarrow> (int \<times> 's) option) \<Rightarrow> nat list \<Rightarrow> 's \<Rightarrow> (int \<times> 's) option" where
  "for_ret body [] s = Some (0, s)"
| "for_ret body (i # is) s = do {
     (ret, s') \<leftarrow> body i s;
     if ret \<noteq> 0 then Some (ret, s') else for_ret body is s'
   }"

lemma for_ret_cong [fundef_cong]:
  "is = js \<Longrightarrow> s = t \<Longrightarrow> (\<And>i u. i \<in> set js \<Longrightarrow> f i u = g i u) \<Longrightarrow> for_ret f is s = for_ret g js t"
proof (induction "is" arbitrary: js s t)
  case (Cons i "is")
  then show ?case by (auto intro!: Option.bind_cong split: prod.splits)
qed auto

lemma for_ret_append:
  "for_ret f (xs @ ys) s = do { (ret, s') \<leftarrow> for_ret f xs s; if ret \<noteq> 0 then Some (ret, s') else for_ret f ys s' }"
  by (induction xs arbitrary: s) (auto intro!: Option.bind_cong split: prod.splits)

text \<open>The first valid node at or after index \<open>i\<close> of a level table.\<close>

function find_valid :: "nat \<Rightarrow> nat \<Rightarrow> nat \<Rightarrow> walk \<Rightarrow> nat option option" where
  "find_valid b off i s =
     (if i < MAX_MAPT_ENTRY_INDEX then do {
        n \<leftarrow> rd_node (At b (off + i)) s;
        if tn_valid n = 0 then find_valid b off (Suc i) s else Some (Some i)
      } else Some None)"
  by pat_completeness auto
termination by (relation "measure (\<lambda>(b, off, i, s). MAX_MAPT_ENTRY_INDEX - i)") auto

section \<open>Clearing one node\<close>

definition add_entry_cnt :: "nat \<Rightarrow> nat \<Rightarrow> u16 \<Rightarrow> walk \<Rightarrow> walk option" where
  "add_entry_cnt b k d s = do {
     blk \<leftarrow> blk_at b s;
     c \<leftarrow> arr_rd (mb_level_entry_cnt blk) k;
     set_blk b (Some (blk\<lparr>mb_level_entry_cnt := (mb_level_entry_cnt blk)[k := c + d]\<rparr>)) s
   }"

definition entry_cnt :: "nat \<Rightarrow> nat \<Rightarrow> walk \<Rightarrow> u16 option" where
  "entry_cnt b k s = do { blk \<leftarrow> blk_at b s; arr_rd (mb_level_entry_cnt blk) k }"

definition ummu_modify_entry_cnt :: "nat \<Rightarrow> u32 \<Rightarrow> int \<Rightarrow> walk \<Rightarrow> walk option" where
  "ummu_modify_entry_cnt b lv_offset cnt s =
     (let idx = unat lv_offset div MAX_MAPT_ENTRY_INDEX in
      if cnt > 0 then add_entry_cnt b idx (word_of_int cnt) s
      else add_entry_cnt b idx (- word_of_int (- cnt)) s)"

definition unlink_next_level :: "table_node \<Rightarrow> table_node" where
  "unlink_next_level n = n\<lparr>tn_type := 1, tn_next_block := 0, tn_next_lv_offset_low := 0,
     tn_next_lv_offset_high := 0, tn_next_lv_index := 0\<rparr>"

function ummu_swap_next_level_node :: "nref \<Rightarrow> nat \<Rightarrow> walk \<Rightarrow> walk option" where
  "ummu_swap_next_level_node r level s = do {
     node \<leftarrow> rd_node r s;
     let off = tn_lv_offset node;
     if level > MAX_LEVEL_INDEX then Some s
     else do {
       let b = unat (tn_next_lv_index node);
       mapt_block \<leftarrow> arr_rd (tc_mapt_block_array (wk_ctx s)) b;
       if mapt_block = None then Some s
       else do {
         found \<leftarrow> find_valid b (unat off) 0 s;
         case found of
           None \<Rightarrow> Some s
         | Some i \<Rightarrow> do {
             let next = At b (unat off + i);
             next_node \<leftarrow> rd_node next s;
             node' \<leftarrow> ummu_swap_node_info node next_node i level;
             s1 \<leftarrow> wr_node r node' s;
             n1 \<leftarrow> rd_node next s1;
             if tn_type n1 = 0 then ummu_swap_next_level_node next (level + 1) s1
             else do {
               s2 \<leftarrow> wr_node next (n1\<lparr>tn_valid := 0, tn_nonce := 0\<rparr>) s1;
               let idx = unat (of_nat (unat off div MAX_MAPT_ENTRY_INDEX) :: u8);
               s3 \<leftarrow> add_entry_cnt b idx (- 1) s2;
               c \<leftarrow> entry_cnt b idx s3;
               if c = 0 then do {
                 s4 \<leftarrow> ummu_free_level_block (Some r) s3;
                 n4 \<leftarrow> rd_node r s4;
                 wr_node r (unlink_next_level n4) s4
               } else Some s3
             }
           }
       }
     }
   }"
  by pat_completeness auto
termination by (relation "measure (\<lambda>(r, level, s). Suc MAX_LEVEL_INDEX - level)") auto

definition ummu_table_clear_node :: "nref \<Rightarrow> nat \<Rightarrow> nref \<Rightarrow> walk \<Rightarrow> walk option" where
  "ummu_table_clear_node r level pre_node s = do {
     pre \<leftarrow> rd_node pre_node s;
     let b = unat (tn_next_lv_index pre);
     mapt_block \<leftarrow> arr_rd (tc_mapt_block_array (wk_ctx s)) b;
     let lv_offset = tn_lv_offset pre;
     if mapt_block = None then Some s
     else do {
       node \<leftarrow> rd_node r s;
       if tn_type node = 1 then do {
         s1 \<leftarrow> wr_node r zero_table_node s;
         s2 \<leftarrow> ummu_modify_entry_cnt b lv_offset (- 1) s1;
         c \<leftarrow> entry_cnt b (unat lv_offset div INDEX_MAX_SIZE) s2;
         if c = 0 then do {
           s3 \<leftarrow> ummu_free_level_block (Some pre_node) s2;
           pre3 \<leftarrow> rd_node pre_node s3;
           wr_node pre_node (unlink_next_level pre3) s3
         } else Some s2
       } else ummu_swap_next_level_node r level s
     }
   }"

section \<open>Granting a range\<close>

function ummu_table_fill_node_by_level ::
    "os_env \<Rightarrow> u32 \<Rightarrow> int \<Rightarrow> data_info \<Rightarrow> nat \<Rightarrow> nref \<Rightarrow> u64 \<Rightarrow> u64 \<Rightarrow> walk \<Rightarrow> (int \<times> walk) option" where
  "ummu_table_fill_node_by_level E tid fd di level pre_node lvl_base lvl_limit s =
     (if level > MAX_LEVEL_INDEX then Some (- EINVAL, s)
      else do {
        pre \<leftarrow> rd_node pre_node s;
        let lvl_offset = tn_lv_offset pre;
        let b = unat (tn_next_lv_index pre);
        mapt_blk \<leftarrow> arr_rd (tc_mapt_block_array (wk_ctx s)) b;
        if mapt_blk = None then Some (- EINVAL, s)
        else
          let base_idx = unat (GET_LEVEL_BLOCK_INDEX lvl_base level);
              limit_idx = unat (GET_LEVEL_BLOCK_INDEX lvl_limit level);
              lvl_msk = GET_LEVEL_RANGE_MASK level
          in for_ret (\<lambda>i s.
               let cur = At b (unat lvl_offset + i);
                   node_base = (if i = base_idx then lvl_base AND lvl_msk else 0);
                   node_limit = (if i = limit_idx then lvl_limit AND lvl_msk else lvl_msk)
               in do {
                 cur_node \<leftarrow> rd_node cur s;
                 if base_idx < i \<and> i < limit_idx then
                   if tn_valid cur_node = 1 then Some (- EINVAL, s)
                   else do {
                     s1 \<leftarrow> wr_node cur (ummu_table_fill_node cur_node node_base node_limit di) s;
                     s2 \<leftarrow> ummu_modify_entry_cnt b lvl_offset 1 s1;
                     Some (0, s2)
                   }
                 else if tn_valid cur_node = 1 then do {
                   (ok, s1) \<leftarrow> (if tn_type cur_node = 1 then do {
                       (next, s') \<leftarrow> ummu_alloc_level_block E tid fd cur (Some b) s;
                       if next = None then Some (False, s')
                       else do {
                         n \<leftarrow> rd_node cur s';
                         s'' \<leftarrow> wr_node cur (n\<lparr>tn_type := 0\<rparr>) s';
                         Some (True, s'')
                       }
                     } else Some (True, s));
                   if \<not> ok then Some (- errno (wk_world s1), s1)
                   else ummu_table_fill_node_by_level E tid fd di (level + 1) cur node_base node_limit s1
                 }
                 else do {
                   s1 \<leftarrow> wr_node cur (ummu_table_fill_node cur_node node_base node_limit di) s;
                   s2 \<leftarrow> ummu_modify_entry_cnt b lvl_offset 1 s1;
                   Some (0, s2)
                 }
               }) [base_idx..<Suc limit_idx] s
      })"
  by pat_completeness auto
termination
  by (relation "measure (\<lambda>(E, tid, fd, di, level, pre, lb, ll, s). Suc MAX_LEVEL_INDEX - level)") auto

section \<open>Ungranting a range\<close>

definition MAX_CLEAR_LOOP :: nat where
  "MAX_CLEAR_LOOP = push_bit MAX_LEVEL_INDEX MAX_MAPT_ENTRY_INDEX"

text \<open>
  The \<^verbatim>\<open>do ... while\<close> loop of \<^verbatim>\<open>ummu_table_clear_head_node\<close>; the result is the code,
  \<^verbatim>\<open>rest_node_base\<close> and the state.
\<close>

function clear_head_loop ::
    "nat \<Rightarrow> nref \<Rightarrow> nref \<Rightarrow> u64 \<Rightarrow> nat \<Rightarrow> u64 \<Rightarrow> walk \<Rightarrow> (int \<times> u64 \<times> walk) option" where
  "clear_head_loop level pre_node cur node_limit loop_cnt cur_limit s =
     (let rest = cur_limit + 1 in do {
        s1 \<leftarrow> ummu_table_clear_node cur level pre_node s;
        if Suc loop_cnt \<ge> MAX_CLEAR_LOOP then Some (- EINVAL, rest, s1)
        else do {
          pre \<leftarrow> rd_node pre_node s1;
          if tn_type pre = 0 then do {
            cur_node \<leftarrow> rd_node cur s1;
            if tn_valid cur_node = 1 \<and> rest = tn_base cur_node \<and> tn_limit cur_node \<le> node_limit
            then clear_head_loop level pre_node cur node_limit (Suc loop_cnt) (tn_limit cur_node) s1
            else Some (0, rest, s1)
          } else Some (0, rest, s1)
        }
      })"
  by pat_completeness auto
termination
  by (relation "measure (\<lambda>(level, pre, cur, nl, n, cl, s). MAX_CLEAR_LOOP - n)") auto

text \<open>\<open>next_level\<close> is \<^verbatim>\<open>ummu_table_clear_node_by_level\<close> one level down.\<close>

definition ummu_table_clear_head_node ::
    "(nref \<Rightarrow> u64 \<Rightarrow> u64 \<Rightarrow> walk \<Rightarrow> (int \<times> walk) option) \<Rightarrow> nat \<Rightarrow> nref \<Rightarrow> nref \<Rightarrow> u64 \<Rightarrow> u64 \<Rightarrow> walk \<Rightarrow>
     (int \<times> walk) option" where
  "ummu_table_clear_head_node next_level level pre_node cur node_base node_limit s = do {
     cur_node \<leftarrow> rd_node cur s;
     if tn_base cur_node = node_base then do {
       let s0 = s\<lparr>wk_lvl := min level (wk_lvl s)\<rparr>;
       (ret, rest, s1) \<leftarrow> clear_head_loop level pre_node cur node_limit 0 (tn_limit cur_node) s0;
       if ret \<noteq> 0 then Some (ret, s1)
       else do {
         pre \<leftarrow> rd_node pre_node s1;
         if tn_type pre = 0 \<and> rest \<le> node_limit then do {
           cur1 \<leftarrow> rd_node cur s1;
           if tn_valid cur1 = 1 \<and> tn_type cur1 = 0 then next_level cur rest node_limit s1
           else Some (0, s1)
         } else Some (0, s1)
       }
     }
     else if tn_type cur_node = 0 then next_level cur node_base node_limit s
     else Some (- EINVAL, s)
   }"

function ummu_table_clear_node_by_level ::
    "nat \<Rightarrow> nref \<Rightarrow> u64 \<Rightarrow> u64 \<Rightarrow> walk \<Rightarrow> (int \<times> walk) option" where
  "ummu_table_clear_node_by_level level pre_node lvl_base lvl_limit s =
     (if level > MAX_LEVEL_INDEX then Some (- EINVAL, s)
      else do {
        pre \<leftarrow> rd_node pre_node s;
        let b = unat (tn_next_lv_index pre);
        mapt_blk \<leftarrow> arr_rd (tc_mapt_block_array (wk_ctx s)) b;
        if mapt_blk = None then Some (- EINVAL, s)
        else
          let next_lv_offset = tn_lv_offset pre;
              base_idx = unat (GET_LEVEL_BLOCK_INDEX lvl_base level);
              limit_idx = unat (GET_LEVEL_BLOCK_INDEX lvl_limit level);
              lvl_msk = GET_LEVEL_RANGE_MASK level
          in for_ret (\<lambda>i s.
               let cur = At b (unat next_lv_offset + i) in do {
                 cur_node \<leftarrow> rd_node cur s;
                 if tn_valid cur_node = 0 then Some (- EINVAL, s)
                 else
                   let node_base = (if i = base_idx then lvl_base AND lvl_msk else 0);
                       node_limit = (if i = limit_idx then lvl_limit AND lvl_msk else lvl_msk)
                   in if base_idx < i \<and> i < limit_idx then do {
                        s1 \<leftarrow> ummu_table_clear_node cur level pre_node s;
                        Some (0, s1)
                      }
                      else ummu_table_clear_head_node
                        (\<lambda>n lb ll s. ummu_table_clear_node_by_level (level + 1) n lb ll s)
                        level pre_node cur node_base node_limit s
               }) [base_idx..<Suc limit_idx] s
      })"
  by pat_completeness auto
termination by (relation "measure (\<lambda>(level, pre, lb, ll, s). Suc MAX_LEVEL_INDEX - level)") auto

section \<open>Changing the tokens of a range\<close>

function ummu_table_update_token_by_level ::
    "data_info \<Rightarrow> nat \<Rightarrow> nref \<Rightarrow> u64 \<Rightarrow> u64 \<Rightarrow> walk \<Rightarrow> (int \<times> walk) option" where
  "ummu_table_update_token_by_level di level pre_node lvl_base lvl_limit s =
     (if level > MAX_LEVEL_INDEX then Some (- EINVAL, s)
      else do {
        pre \<leftarrow> rd_node pre_node s;
        let b = unat (tn_next_lv_index pre);
        mapt_blk \<leftarrow> arr_rd (tc_mapt_block_array (wk_ctx s)) b;
        if mapt_blk = None then Some (- EINVAL, s)
        else
          let off = unat (tn_lv_offset pre);
              base_idx = unat (GET_LEVEL_BLOCK_INDEX lvl_base level);
              limit_idx = unat (GET_LEVEL_BLOCK_INDEX lvl_limit level);
              lvl_msk = GET_LEVEL_RANGE_MASK level
          in for_ret (\<lambda>i s.
               let cur = At b (off + i) in do {
                 cur_node \<leftarrow> rd_node cur s;
                 if tn_valid cur_node = 0 then Some (- EINVAL, s)
                 else
                   let node_base = (if i = base_idx then lvl_base AND lvl_msk else 0);
                       node_limit = (if i = limit_idx then lvl_limit AND lvl_msk else lvl_msk);
                       (ret, updated) = cast_update_token cur_node di
                   in if base_idx < i \<and> i < limit_idx then do {
                        s1 \<leftarrow> wr_node cur updated s;
                        Some (ret, s1)
                      }
                      else if tn_base cur_node = node_base \<and> tn_limit cur_node \<le> node_limit then do {
                        s1 \<leftarrow> wr_node cur updated s;
                        if ret \<noteq> 0 then Some (ret, s1)
                        else if tn_type updated = 0 \<and> tn_limit cur_node < node_limit
                        then ummu_table_update_token_by_level di (level + 1) cur
                               (tn_limit cur_node + 1) node_limit s1
                        else Some (0, s1)
                      }
                      else if tn_type cur_node = 0
                      then ummu_table_update_token_by_level di (level + 1) cur node_base node_limit s
                      else Some (- EINVAL, s)
               }) [base_idx..<Suc limit_idx] s
      })"
  by pat_completeness auto
termination by (relation "measure (\<lambda>(di, level, pre, lb, ll, s). Suc MAX_LEVEL_INDEX - level)") auto

declare find_valid.simps [simp del] ummu_swap_next_level_node.simps [simp del]
  ummu_table_fill_node_by_level.simps [simp del] clear_head_loop.simps [simp del]
  ummu_table_clear_node_by_level.simps [simp del] ummu_table_update_token_by_level.simps [simp del]

section \<open>Operations on the two kinds of table\<close>

definition ummu_entry_op :: "entry_node \<Rightarrow> data_info \<Rightarrow> int \<times> entry_node" where
  "ummu_entry_op node di =
     (case di_op di of
        UMMU_GRANT \<Rightarrow> (0, ummu_entry_fill_node node di)
      | UMMU_ADD_TOKEN \<Rightarrow> ummu_update_token node di
      | UMMU_REMOVE_TOKEN \<Rightarrow> ummu_update_token node di
      | UMMU_UNGRANT \<Rightarrow> (0, zero_entry_node)
      | UMMU_OP_END \<Rightarrow> (- EINVAL, node))"

definition ummu_table_op ::
    "os_env \<Rightarrow> u32 \<Rightarrow> int \<Rightarrow> data_info \<Rightarrow> walk \<Rightarrow> (int \<times> walk) option" where
  "ummu_table_op E tid fd di s =
     (let s0 = s\<lparr>wk_root := zero_table_node\<rparr> in
      case di_op di of
        UMMU_GRANT \<Rightarrow> do {
          (ret, s1) \<leftarrow> ummu_table_fill_node_by_level E tid fd di 0 Local (di_data_base di) (di_data_limit di) s0;
          if ret \<noteq> 0 then do {
            (_, s2) \<leftarrow> ummu_table_clear_node_by_level 0 Local (di_data_base di) (di_data_limit di) s1;
            Some (ret, s2)
          } else Some (ret, s1)
        }
      | UMMU_ADD_TOKEN \<Rightarrow>
          ummu_table_update_token_by_level di 0 Local (di_data_base di) (di_data_limit di) s0
      | UMMU_REMOVE_TOKEN \<Rightarrow>
          ummu_table_update_token_by_level di 0 Local (di_data_base di) (di_data_limit di) s0
      | UMMU_UNGRANT \<Rightarrow>
          ummu_table_clear_node_by_level 0 Local (di_data_base di) (di_data_limit di) s0
      | UMMU_OP_END \<Rightarrow> Some (- EINVAL, s0))"

section \<open>Entry counts\<close>

lemma add_entry_cnt_eq:
  assumes "blocks_ok s" "present s t"
  shows "add_entry_cnt (t div 4) (t mod 4) d s = Some (put_ec t (ec s t + d) s)"
proof -
  obtain blk where b: "t div 4 < 512" "blk_at (t div 4) s = Some blk" by (rule present_block [OF assms(2)])
  then have "length (mb_level_entry_cnt blk) = 4" using blocks_ok_block [OF assms(1) b] by (simp add: block_ok_def)
  then show ?thesis using b by (simp add: add_entry_cnt_def set_blk_with_blk [OF assms(1)] put_ec_def ec_def)
qed

lemma entry_cnt_eq:
  assumes "blocks_ok s" "present s t"
  shows "entry_cnt (t div 4) (t mod 4) s = Some (ec s t)"
proof -
  obtain blk where b: "t div 4 < 512" "blk_at (t div 4) s = Some blk" by (rule present_block [OF assms(2)])
  then have "length (mb_level_entry_cnt blk) = 4" using blocks_ok_block [OF assms(1) b] by (simp add: block_ok_def)
  then show ?thesis using b by (simp add: entry_cnt_def ec_def)
qed

section \<open>The level at which a walk stopped\<close>

text \<open>\<^verbatim>\<open>data_info->lvl\<close> only goes down; the range that is invalidated after an ungrant depends on it.\<close>

lemma set_blk_lvl: "set_blk b x s = Some s' \<Longrightarrow> wk_lvl s' = wk_lvl s"
  by (auto simp: set_blk_def split: Option.bind_splits)

lemma wr_node_lvl: "wr_node r n s = Some s' \<Longrightarrow> wk_lvl s' = wk_lvl s"
  by (cases r) (auto dest!: set_blk_lvl split: Option.bind_splits if_splits)

lemma add_entry_cnt_lvl: "add_entry_cnt b k d s = Some s' \<Longrightarrow> wk_lvl s' = wk_lvl s"
  by (auto simp: add_entry_cnt_def dest!: set_blk_lvl split: Option.bind_splits)

lemma modify_entry_cnt_lvl: "ummu_modify_entry_cnt b off d s = Some s' \<Longrightarrow> wk_lvl s' = wk_lvl s"
  by (auto simp: ummu_modify_entry_cnt_def Let_def dest: add_entry_cnt_lvl split: if_splits)

lemma free_level_block_lvl: "ummu_free_level_block p s = Some s' \<Longrightarrow> wk_lvl s' = wk_lvl s"
  by (auto simp: ummu_free_level_block_def Let_def dest!: set_blk_lvl split: Option.bind_splits if_splits option.splits)

lemmas node_lvl = wr_node_lvl add_entry_cnt_lvl modify_entry_cnt_lvl free_level_block_lvl

lemma swap_lvl: "ummu_swap_next_level_node r level s = Some s' \<Longrightarrow> wk_lvl s' = wk_lvl s"
proof (induction "Suc MAX_LEVEL_INDEX - level" arbitrary: r level s s')
  case 0
  then show ?case by (subst (asm) ummu_swap_next_level_node.simps) (auto elim!: bind_SomeE)
next
  case (Suc k)
  have IH: "wk_lvl s' = wk_lvl s" if "ummu_swap_next_level_node r (Suc level) s = Some s'" for r s s'
    using Suc.hyps(1) [OF _ that] Suc.hyps(2) by simp
  from Suc.prems show ?case
    by (subst (asm) ummu_swap_next_level_node.simps)
      (auto simp: Let_def simp del: wr_node.simps rd_node.simps elim!: bind_SomeE split: if_splits option.splits dest!: node_lvl IH)
qed

lemma clear_node_lvl: "ummu_table_clear_node r level p s = Some s' \<Longrightarrow> wk_lvl s' = wk_lvl s"
  by (auto simp: ummu_table_clear_node_def Let_def simp del: wr_node.simps rd_node.simps
      elim!: bind_SomeE split: if_splits dest!: node_lvl swap_lvl)

lemma clear_head_loop_lvl: "clear_head_loop level p cur nl n cl s = Some (ret, rest, s') \<Longrightarrow> wk_lvl s' = wk_lvl s"
proof (induction "MAX_CLEAR_LOOP - n" arbitrary: n cl s rule: less_induct)
  case less
  have IH: "wk_lvl s' = wk_lvl s1" if "clear_head_loop level p cur nl (Suc n) cl' s1 = Some (ret, rest, s')" "Suc n < MAX_CLEAR_LOOP" for cl' s1
    by (rule less.hyps [OF _ that(1)]) (use that(2) in simp)
  from less.prems show ?case
    by (subst (asm) clear_head_loop.simps)
      (auto simp: Let_def not_le simp del: wr_node.simps rd_node.simps elim!: bind_SomeE split: if_splits dest!: clear_node_lvl IH)
qed

lemma for_ret_lvl:
  assumes "\<And>i s ret s'. body i s = Some (ret, s') \<Longrightarrow> wk_lvl s' \<le> wk_lvl s"
  shows "for_ret body xs s = Some (ret, s') \<Longrightarrow> wk_lvl s' \<le> wk_lvl s"
proof (induction xs arbitrary: s)
  case (Cons i xs)
  then obtain r1 s1 where b: "body i s = Some (r1, s1)" by (auto elim!: bind_SomeE)
  show ?case using Cons b assms [OF b] by (fastforce split: if_splits)
qed simp

lemma clear_head_node_lvl:
  assumes "\<And>n lb ll s ret s'. next_level n lb ll s = Some (ret, s') \<Longrightarrow> wk_lvl s' \<le> wk_lvl s"
  shows "ummu_table_clear_head_node next_level level p cur nb nl s = Some (ret, s') \<Longrightarrow> wk_lvl s' \<le> wk_lvl s"
  by (auto simp: ummu_table_clear_head_node_def Let_def simp del: wr_node.simps rd_node.simps
      elim!: bind_SomeE split: if_splits dest!: clear_head_loop_lvl assms)

lemma clear_by_level_lvl:
  "ummu_table_clear_node_by_level level p lb ll s = Some (ret, s') \<Longrightarrow> wk_lvl s' \<le> wk_lvl s"
proof (induction "Suc MAX_LEVEL_INDEX - level" arbitrary: level p lb ll s ret s')
  case 0
  then show ?case by (subst (asm) ummu_table_clear_node_by_level.simps) (auto elim!: bind_SomeE)
next
  case (Suc k)
  have IH: "wk_lvl s' \<le> wk_lvl s" if "ummu_table_clear_node_by_level (level + 1) p lb ll s = Some (ret, s')" for p lb ll s ret s'
    using Suc.hyps(1) [OF _ that] Suc.hyps(2) by simp
  have head: "wk_lvl s' \<le> wk_lvl s"
    if "ummu_table_clear_head_node (ummu_table_clear_node_by_level (level + 1)) level p cur nb nl s = Some (ret, s')" for cur nb nl s ret s'
    using that by (rule clear_head_node_lvl [rotated]) (rule IH)
  from Suc.prems show ?case
    by (subst (asm) ummu_table_clear_node_by_level.simps)
      (auto simp: Let_def simp del: wr_node.simps rd_node.simps One_nat_def add_Suc_right elim!: bind_SomeE for_ret_lvl [rotated]
        split: if_splits dest!: eq_refl [OF clear_node_lvl] head)
qed

end
