(* ===== verification/Ummu_PermTree.thy ===== *)
theory Ummu_PermTree
  imports Ummu_Prelude
begin

text \<open>
  What the permission table of \<^verbatim>\<open>src/ummu_mapt.c\<close> means: a tree of segments.  A table of depth
  \<open>n\<close> maps indices to nodes; a node has one segment of its own, relative to its region, and a
  table one level down for the other segments of the region.  The theory holds the reference
  semantics (\<open>perm_at\<close>: which attributes an address has), the well-formedness of trees, the
  shape of a granted range that clearing relies on (\<open>tiled\<close>), and the three kinds of change the
  code makes: a new node, a change below a node, and clearing a node, which promotes another
  segment into its place.
\<close>

section \<open>Ranges cut at region boundaries\<close>

text \<open>
  A node of a table of depth \<open>Suc n\<close> is responsible for \<open>rsize n\<close> bytes; the table covers
  \<open>rsize (Suc n)\<close> bytes.
\<close>

definition rsize :: "nat \<Rightarrow> nat" where "rsize n = 2 ^ (9 * n + 12)"

lemma rsize_pos [simp]: "0 < rsize n" "rsize n \<noteq> 0" "Suc 0 \<le> rsize n"
  by (simp_all add: rsize_def Suc_le_eq)

lemma rsize_Suc: "rsize (Suc n) = 512 * rsize n"
  by (simp add: rsize_def power_add mult.commute)

lemma rsize_0: "rsize 0 = 4096"
  by (simp add: rsize_def)

lemma page_dvd_rsize: "4096 dvd rsize n"
  by (simp add: rsize_def power_add)

definition lo :: "nat \<Rightarrow> nat \<Rightarrow> nat \<Rightarrow> nat" where
  "lo z b i = (if i = b div z then b mod z else 0)"

definition hi :: "nat \<Rightarrow> nat \<Rightarrow> nat \<Rightarrow> nat" where
  "hi z l i = (if i = l div z then l mod z else z - 1)"

lemma hi_less [simp]: "0 < z \<Longrightarrow> hi z l i < z"
  by (simp add: hi_def)

lemma lo_less [simp]: "0 < z \<Longrightarrow> lo z b i < z"
  by (simp add: lo_def)

lemma cut_iff:
  assumes "0 < (z::nat)" "b div z \<le> x div z" "x div z \<le> l div z"
  shows "b \<le> x \<and> x \<le> l \<longleftrightarrow> lo z b (x div z) \<le> x mod z \<and> x mod z \<le> hi z l (x div z)"
proof -
  have b: "b \<le> x \<longleftrightarrow> lo z b (x div z) \<le> x mod z"
  proof (cases "x div z = b div z")
    case True
    then have "b \<le> x \<longleftrightarrow> b mod z \<le> x mod z" by (metis add_le_cancel_left mult_div_mod_eq)
    with True show ?thesis by (simp add: lo_def)
  next
    case False
    with assms have "b div z < x div z" by simp
    then have "b < x" by (metis div_le_mono not_less)
    with False show ?thesis by (simp add: lo_def)
  qed
  have l: "x \<le> l \<longleftrightarrow> x mod z \<le> hi z l (x div z)"
  proof (cases "x div z = l div z")
    case True
    then have "x \<le> l \<longleftrightarrow> x mod z \<le> l mod z" by (metis add_le_cancel_left mult_div_mod_eq)
    with True show ?thesis by (simp add: hi_def)
  next
    case False
    with assms have "x div z < l div z" by simp
    then have "x < l" by (metis div_le_mono not_less)
    moreover have "x mod z \<le> z - 1" using assms(1) by (simp add: less_Suc_eq_le [symmetric])
    ultimately show ?thesis using False by (simp add: hi_def)
  qed
  from b l show ?thesis by simp
qed

lemma cut_range:
  assumes "0 < (z::nat)" "b \<le> x" "x \<le> l"
  shows "b div z \<le> x div z" "x div z \<le> l div z" "lo z b (x div z) \<le> x mod z" "x mod z \<le> hi z l (x div z)"
  using cut_iff [of z b x l] assms by (auto simp: div_le_mono)

lemma mod_le_pred [simp]: "0 < z \<Longrightarrow> x mod z \<le> z - Suc 0" for z :: nat
  using mod_less_divisor [of z x] by linarith

lemma lo_le_hi:
  assumes "0 < z" "b \<le> l"
  shows "lo z b i \<le> hi z l i"
proof (cases "i = b div z \<and> i = l div z")
  case True
  then have "b mod z \<le> l mod z" using assms(2) by (metis add_le_cancel_left mult_div_mod_eq)
  with True show ?thesis by (simp add: lo_def hi_def)
qed (use assms(1) in \<open>auto simp: lo_def hi_def\<close>)

lemma glue: "0 < z \<Longrightarrow> y < z \<Longrightarrow> (i * z + y) div z = i" "0 < z \<Longrightarrow> y < z \<Longrightarrow> (i * z + y) mod z = (y::nat)"
  by simp_all

lemma lo_glue [simp]: "0 < z \<Longrightarrow> y < z \<Longrightarrow> lo z (i * z + y) i = y"
  by (simp add: lo_def)

lemma hi_glue [simp]: "0 < z \<Longrightarrow> y < z \<Longrightarrow> hi z (i * z + y) i = y"
  by (simp add: hi_def)

lemma cut_ends:
  assumes "b \<le> l" "b div rsize n \<le> i" "i \<le> l div rsize n"
  shows "b \<le> i * rsize n + lo (rsize n) b i" "i * rsize n + hi (rsize n) l i \<le> l"
  using cut_iff [OF rsize_pos(1), of b n "i * rsize n + lo (rsize n) b i" l]
    cut_iff [OF rsize_pos(1), of b n "i * rsize n + hi (rsize n) l i" l] lo_le_hi [OF rsize_pos(1) assms(1), of n i] assms(2,3)
  by (auto simp: glue)

definition apart :: "nat \<Rightarrow> nat \<Rightarrow> nat \<Rightarrow> nat \<Rightarrow> bool" where
  "apart b l b' l' \<longleftrightarrow> l < b' \<or> l' < b"

lemma apartD: "apart b l b' l' \<Longrightarrow> b \<le> x \<Longrightarrow> x \<le> l \<Longrightarrow> b' \<le> x \<Longrightarrow> x \<le> l' \<Longrightarrow> False"
  by (auto simp: apart_def)

lemma apart_sym: "apart b l b' l' \<longleftrightarrow> apart b' l' b l"
  by (auto simp: apart_def)

lemma apartI: "b \<le> l \<Longrightarrow> b' \<le> l' \<Longrightarrow> (\<And>x. b \<le> x \<Longrightarrow> x \<le> l \<Longrightarrow> b' \<le> x \<Longrightarrow> x \<le> l' \<Longrightarrow> False) \<Longrightarrow> apart b l b' l'"
  unfolding apart_def by (metis le_cases not_le order_refl)

lemma apart_base: "apart b l nb nl \<Longrightarrow> b \<le> l \<Longrightarrow> nb \<le> nl \<Longrightarrow> b \<noteq> nb"
  by (auto simp: apart_def)

text \<open>Two ranges that meet region \<open>i\<close> are apart only if their parts there are.\<close>

lemma apart_cut:
  assumes "0 < z" "apart b l b' l'" "b \<le> l" "b' \<le> l'" "b div z \<le> i" "i \<le> l div z" "b' div z \<le> i" "i \<le> l' div z"
  shows "apart (lo z b i) (hi z l i) (lo z b' i) (hi z l' i)"
proof (rule apartI)
  fix x assume x: "lo z b i \<le> x" "x \<le> hi z l i" "lo z b' i \<le> x" "x \<le> hi z l' i"
  then have xz: "x < z" using hi_less [OF assms(1), of l i] by linarith
  have "b \<le> i * z + x \<and> i * z + x \<le> l" "b' \<le> i * z + x \<and> i * z + x \<le> l'"
    using cut_iff [OF assms(1), of b "i * z + x" l] cut_iff [OF assms(1), of b' "i * z + x" l'] x xz assms
    by (simp_all add: glue)
  with assms(2) show False by (auto dest: apartD)
qed (use assms in \<open>auto intro: lo_le_hi\<close>)

section \<open>Permission trees\<close>

record grant_attr =
  ga_perm :: "6 word"
  ga_ebit :: "1 word"
  ga_tokens :: "(u32 \<times> u32 \<times> 2 word) option"

datatype pnode = PNode nat nat grant_attr "nat \<Rightarrow> pnode option"

type_synonym ptree = "nat \<Rightarrow> pnode option"

text \<open>The attributes under which an address may be accessed, \<open>None\<close> when it is not granted.\<close>

primrec perm_at :: "nat \<Rightarrow> ptree \<Rightarrow> nat \<Rightarrow> grant_attr option" where
  "perm_at 0 T x = None"
| "perm_at (Suc n) T x =
     (case T (x div rsize n) of
        None \<Rightarrow> None
      | Some (PNode b l a K) \<Rightarrow>
          if b \<le> x mod rsize n \<and> x mod rsize n \<le> l then Some a else perm_at n K (x mod rsize n))"

primrec tree_ok :: "nat \<Rightarrow> ptree \<Rightarrow> bool" where
  "tree_ok 0 T \<longleftrightarrow> T = Map.empty"
| "tree_ok (Suc n) T \<longleftrightarrow> (\<forall>i p. T i = Some p \<longrightarrow> i < 512 \<and>
     (case p of PNode b l a K \<Rightarrow> b \<le> l \<and> l < rsize n \<and> 4096 dvd b \<and> tree_ok n K \<and>
        (\<forall>x. b \<le> x \<longrightarrow> x \<le> l \<longrightarrow> perm_at n K x = None)))"

definition node_ok :: "nat \<Rightarrow> pnode \<Rightarrow> bool" where
  "node_ok n p \<longleftrightarrow> (case p of PNode b l a K \<Rightarrow> b \<le> l \<and> l < rsize n \<and> 4096 dvd b \<and> tree_ok n K \<and>
     (\<forall>x. b \<le> x \<longrightarrow> x \<le> l \<longrightarrow> perm_at n K x = None))"

lemma tree_ok_Suc: "tree_ok (Suc n) T \<longleftrightarrow> (\<forall>i p. T i = Some p \<longrightarrow> i < 512 \<and> node_ok n p)"
  by (auto simp: node_ok_def)

lemma tree_okD:
  assumes "tree_ok (Suc n) T" "T i = Some (PNode b l a K)"
  shows "i < 512" "b \<le> l" "l < rsize n" "4096 dvd b" "tree_ok n K" "\<And>x. b \<le> x \<Longrightarrow> x \<le> l \<Longrightarrow> perm_at n K x = None"
proof -
  from assms have "i < 512 \<and> node_ok n (PNode b l a K)" unfolding tree_ok_Suc by blast
  then show "i < 512" "b \<le> l" "l < rsize n" "4096 dvd b" "tree_ok n K" "\<And>x. b \<le> x \<Longrightarrow> x \<le> l \<Longrightarrow> perm_at n K x = None"
    by (auto simp: node_ok_def)
qed

lemma tree_ok_upd:
  "tree_ok (Suc n) T \<Longrightarrow> i < 512 \<Longrightarrow> (\<And>p. v = Some p \<Longrightarrow> node_ok n p) \<Longrightarrow> tree_ok (Suc n) (T(i := v))"
  unfolding tree_ok_Suc by simp

lemma tree_ok_empty [simp]: "tree_ok n Map.empty"
  by (cases n) auto

lemma perm_at_empty [simp]: "perm_at n Map.empty x = None"
  by (cases n) auto

declare perm_at.simps(2) [simp del] tree_ok.simps(2) [simp del]

definition perm_in :: "nat \<Rightarrow> pnode \<Rightarrow> nat \<Rightarrow> grant_attr option" where
  "perm_in n p x = (case p of PNode b l a K \<Rightarrow> if b \<le> x \<and> x \<le> l then Some a else perm_at n K x)"

lemma perm_in_PNode: "perm_in n (PNode b l a K) x = (if b \<le> x \<and> x \<le> l then Some a else perm_at n K x)"
  by (simp add: perm_in_def)

lemma perm_at_Suc: "perm_at (Suc n) T x = Option.bind (T (x div rsize n)) (\<lambda>p. perm_in n p (x mod rsize n))"
  by (simp add: perm_at.simps(2) perm_in_def split: option.splits pnode.splits)

text \<open>
  A range is \<open>tiled\<close> when its segments lie where clearing looks for them: whole regions in the
  middle; at both ends a segment in the node itself or further down.
\<close>

definition tiled_in :: "(ptree \<Rightarrow> nat \<Rightarrow> nat \<Rightarrow> bool) \<Rightarrow> pnode \<Rightarrow> nat \<Rightarrow> nat \<Rightarrow> grant_attr \<Rightarrow> bool" where
  "tiled_in C p nb nl g = (case p of PNode b l a K \<Rightarrow>
     b = nb \<and> l = nl \<and> a = g \<or> b = nb \<and> l < nl \<and> a = g \<and> C K (Suc l) nl \<or> b \<noteq> nb \<and> apart b l nb nl \<and> C K nb nl)"

primrec tiled :: "nat \<Rightarrow> grant_attr \<Rightarrow> ptree \<Rightarrow> nat \<Rightarrow> nat \<Rightarrow> bool" where
  "tiled 0 g T b l \<longleftrightarrow> False"
| "tiled (Suc n) g T b l \<longleftrightarrow> b \<le> l \<and>
     (\<forall>i. b div rsize n \<le> i \<longrightarrow> i \<le> l div rsize n \<longrightarrow> (\<exists>p. T i = Some p \<and>
        (if b div rsize n < i \<and> i < l div rsize n then p = PNode 0 (rsize n - 1) g Map.empty
         else tiled_in (tiled n g) p (lo (rsize n) b i) (hi (rsize n) l i) g)))"

declare tiled.simps(2) [simp del]

lemma tiled_le: "tiled n g T b l \<Longrightarrow> b \<le> l"
  by (cases n) (auto simp: tiled.simps(2))

lemma not_tiled_empty [simp]: "\<not> tiled n g Map.empty b l"
  by (cases n) (auto simp: tiled.simps(2) intro: div_le_mono)

lemma tiled_in_mono:
  assumes "tiled_in C p nb nl g" "\<And>K b. C K b nl \<Longrightarrow> D K b nl"
  shows "tiled_in D p nb nl g"
  using assms by (auto simp: tiled_in_def split: pnode.splits)

text \<open>A tiled range is granted as a whole.\<close>

lemma tiled_perm:
  "tiled n g T b l \<Longrightarrow> b \<le> x \<Longrightarrow> x \<le> l \<Longrightarrow> perm_at n T x = Some g"
proof (induction n arbitrary: T b l x)
  case (Suc n)
  let ?z = "rsize n" and ?i = "x div rsize n" and ?y = "x mod rsize n"
  note c = cut_range [OF rsize_pos(1) Suc.prems(2,3), of n]
  from Suc.prems(1) c(1,2) obtain p where p: "T ?i = Some p"
    "if b div ?z < ?i \<and> ?i < l div ?z then p = PNode 0 (?z - 1) g Map.empty
     else tiled_in (tiled n g) p (lo ?z b ?i) (hi ?z l ?i) g"
    by (auto simp: tiled.simps(2))
  obtain b' l' a K where P: "p = PNode b' l' a K" by (cases p)
  have y: "?y < ?z" by simp
  have "perm_in n p ?y = Some g"
  proof (cases "b div ?z < ?i \<and> ?i < l div ?z")
    case True
    with p(2) y show ?thesis by (auto simp: perm_in_def)
  next
    case False
    with p(2) P consider "b' = lo ?z b ?i" "l' = hi ?z l ?i" "a = g"
      | "b' = lo ?z b ?i" "a = g" "tiled n g K (Suc l') (hi ?z l ?i)"
      | "apart b' l' (lo ?z b ?i) (hi ?z l ?i)" "tiled n g K (lo ?z b ?i) (hi ?z l ?i)"
      by (auto simp: tiled_in_def)
    then show ?thesis
    proof cases
      case 1
      with c(3,4) show ?thesis by (simp add: perm_in_def P)
    next
      case 2
      show ?thesis
      proof (cases "?y \<le> l'")
        case True
        with 2 c(3) show ?thesis by (simp add: perm_in_def P)
      next
        case False
        with Suc.IH [OF 2(3)] c(4) show ?thesis by (simp add: perm_in_def P)
      qed
    next
      case 3
      from c(3,4) apartD [OF 3(1)] have "\<not> (b' \<le> ?y \<and> ?y \<le> l')" by blast
      with Suc.IH [OF 3(2) c(3,4)] show ?thesis by (auto simp: perm_in_def P)
    qed
  qed
  with p(1) show ?case by (simp add: perm_at_Suc)
qed simp

lemma tiled_agree:
  assumes "\<And>i. b div rsize n \<le> i \<Longrightarrow> i \<le> l div rsize n \<Longrightarrow> T' i = T i"
  shows "tiled (Suc n) g T' b l = tiled (Suc n) g T b l"
  using assms unfolding tiled.simps(2) by auto

lemma tiled_node:
  assumes "tiled (Suc n) g T b l" "b div rsize n \<le> i" "i \<le> l div rsize n"
  obtains p where "T i = Some p" "tiled_in (tiled n g) p (lo (rsize n) b i) (hi (rsize n) l i) g"
    "b div rsize n < i \<Longrightarrow> i < l div rsize n \<Longrightarrow> p = PNode 0 (rsize n - 1) g Map.empty"
proof -
  from assms obtain p where p: "T i = Some p" "if b div rsize n < i \<and> i < l div rsize n then p = PNode 0 (rsize n - 1) g Map.empty
         else tiled_in (tiled n g) p (lo (rsize n) b i) (hi (rsize n) l i) g"
    unfolding tiled.simps(2) by blast
  have "tiled_in (tiled n g) p (lo (rsize n) b i) (hi (rsize n) l i) g"
    using p(2) by (cases "b div rsize n < i \<and> i < l div rsize n") (auto simp: tiled_in_def lo_def hi_def)
  from that [OF p(1) this] p(2) show thesis by auto
qed

lemma tiledI:
  assumes "b \<le> l"
    "\<And>i. b div rsize n \<le> i \<Longrightarrow> i \<le> l div rsize n \<Longrightarrow> \<not> (b div rsize n < i \<and> i < l div rsize n) \<Longrightarrow>
       \<exists>p. T i = Some p \<and> tiled_in (tiled n g) p (lo (rsize n) b i) (hi (rsize n) l i) g"
    "\<And>i. b div rsize n < i \<Longrightarrow> i < l div rsize n \<Longrightarrow> T i = Some (PNode 0 (rsize n - 1) g Map.empty)"
  shows "tiled (Suc n) g T b l"
  unfolding tiled.simps(2)
proof (intro conjI allI impI assms(1))
  fix i assume i: "b div rsize n \<le> i" "i \<le> l div rsize n"
  show "\<exists>p. T i = Some p \<and> (if b div rsize n < i \<and> i < l div rsize n then p = PNode 0 (rsize n - 1) g Map.empty
         else tiled_in (tiled n g) p (lo (rsize n) b i) (hi (rsize n) l i) g)"
  proof (cases "b div rsize n < i \<and> i < l div rsize n")
    case True
    with assms(3) [of i] show ?thesis by simp
  next
    case False
    with assms(2) [OF i] show ?thesis by auto
  qed
qed

text \<open>What remains of a tiled range when its first part is taken away.\<close>

lemma tiled_rebase:
  assumes t: "tiled (Suc n) g T b l" and b: "b' div rsize n = b div rsize n" "b' \<le> l"
    and agree: "\<And>i. b div rsize n < i \<Longrightarrow> i \<le> l div rsize n \<Longrightarrow> T' i = T i"
    and p: "T' (b div rsize n) = Some p" "tiled_in (tiled n g) p (b' mod rsize n) (hi (rsize n) l (b div rsize n)) g"
  shows "tiled (Suc n) g T' b' l"
proof (rule tiledI [OF b(2)])
  fix i assume i: "b' div rsize n \<le> i" "i \<le> l div rsize n" "\<not> (b' div rsize n < i \<and> i < l div rsize n)"
  show "\<exists>p. T' i = Some p \<and> tiled_in (tiled n g) p (lo (rsize n) b' i) (hi (rsize n) l i) g"
  proof (cases "i = b div rsize n")
    case True
    with p b show ?thesis by (simp add: lo_def)
  next
    case False
    with i b have "b div rsize n < i" "T' i = T i" using agree by auto
    with tiled_node [OF t _ i(2)] False b show ?thesis by (metis less_imp_le lo_def)
  qed
next
  fix i assume "b' div rsize n < i" "i < l div rsize n"
  with t b agree show "T' i = Some (PNode 0 (rsize n - 1) g Map.empty)"
    by (metis less_imp_le option.inject tiled_node)
qed

lemma tiled_next:
  assumes t: "tiled (Suc n) g T b l" and j: "b div rsize n < j" "j \<le> l div rsize n"
    and agree: "\<And>i. j \<le> i \<Longrightarrow> i \<le> l div rsize n \<Longrightarrow> T' i = T i"
  shows "tiled (Suc n) g T' (j * rsize n) l"
proof (rule tiledI)
  show "j * rsize n \<le> l" using j(2) by (metis div_times_less_eq_dividend le_trans mult_le_mono1)
next
  fix i assume i: "j * rsize n div rsize n \<le> i" "i \<le> l div rsize n"
  then have i': "j \<le> i" by simp
  with j have "b div rsize n \<le> i" by simp
  from tiled_node [OF t this i(2)] obtain p where p: "T i = Some p"
    "tiled_in (tiled n g) p (lo (rsize n) b i) (hi (rsize n) l i) g" by blast
  have "lo (rsize n) b i = lo (rsize n) (j * rsize n) i" using i' j by (auto simp: lo_def)
  with p agree i' i(2) show "\<exists>p. T' i = Some p \<and> tiled_in (tiled n g) p (lo (rsize n) (j * rsize n) i) (hi (rsize n) l i) g"
    by auto
next
  fix i assume "j * rsize n div rsize n < i" "i < l div rsize n"
  then have "j \<le> i" "i \<le> l div rsize n" "b div rsize n < i" "i < l div rsize n" using j by auto
  with t agree show "T' i = Some (PNode 0 (rsize n - 1) g Map.empty)"
    by (metis less_imp_le option.inject tiled_node)
qed

section \<open>Promoting the first segment of a table\<close>

definition first :: "ptree \<Rightarrow> nat" where
  "first K = the (find (\<lambda>i. K i \<noteq> None) [0..<512])"

primrec promote :: "nat \<Rightarrow> ptree \<Rightarrow> pnode" where
  "promote 0 K = PNode 0 0 \<lparr>ga_perm = 0, ga_ebit = 0, ga_tokens = None\<rparr> Map.empty"
| "promote (Suc n) K =
     (case the (K (first K)) of PNode b l a K' \<Rightarrow>
        PNode (first K * rsize n + b) (first K * rsize n + l) a
          (K(first K := if K' = Map.empty then None else Some (promote n K'))))"

declare promote.simps(2) [simp del]

lemma first_props:
  assumes "tree_ok (Suc n) K" "K \<noteq> Map.empty"
  shows "K (first K) \<noteq> None" "first K < 512" "\<And>j. j < first K \<Longrightarrow> K j = None"
proof -
  from assms(2) obtain j p where "K j = Some p" by (metis not_None_eq ext)
  moreover from this assms(1) have "j < 512" unfolding tree_ok_Suc by blast
  ultimately have "find (\<lambda>i. K i \<noteq> None) [0..<512] \<noteq> None" by (auto simp: find_upt_None)
  then have "find (\<lambda>i. K i \<noteq> None) [0..<512] = Some (first K)" by (auto simp: first_def)
  then show "K (first K) \<noteq> None" "first K < 512" "\<And>j. j < first K \<Longrightarrow> K j = None"
    unfolding find_upt_Some by auto
qed

lemma promote_cases:
  assumes "tree_ok n K" "K \<noteq> Map.empty"
  obtains m b l a K' where "n = Suc m" "K (first K) = Some (PNode b l a K')" "first K < 512"
    "\<And>j. j < first K \<Longrightarrow> K j = None" "b \<le> l" "l < rsize m" "4096 dvd b" "tree_ok m K'"
    "\<And>x. b \<le> x \<Longrightarrow> x \<le> l \<Longrightarrow> perm_at m K' x = None"
    "promote n K = PNode (first K * rsize m + b) (first K * rsize m + l) a
       (K(first K := if K' = Map.empty then None else Some (promote m K')))"
proof -
  from assms obtain m where m: "n = Suc m" by (cases n) auto
  note f = first_props [OF assms(1) [unfolded m] assms(2)]
  then obtain b l a K' where p: "K (first K) = Some (PNode b l a K')" by (metis not_None_eq pnode.exhaust)
  with assms(1) have "node_ok m (PNode b l a K')" unfolding m tree_ok_Suc by blast
  with p f show thesis by (intro that [OF m p]) (auto simp: node_ok_def promote.simps(2) m)
qed

lemma promote_perm:
  "tree_ok n K \<Longrightarrow> K \<noteq> Map.empty \<Longrightarrow> perm_in n (promote n K) x = perm_at n K x"
proof (induction n arbitrary: K x)
  case (Suc n)
  from Suc.prems show ?case
  proof (rule promote_cases)
    fix m b l a K'
    assume m: "Suc n = Suc m" and p: "K (first K) = Some (PNode b l a K')" and ok: "b \<le> l" "l < rsize m" "tree_ok m K'"
      and e: "promote (Suc n) K = PNode (first K * rsize m + b) (first K * rsize m + l) a
       (K(first K := if K' = Map.empty then None else Some (promote m K')))"
    from m have [simp]: "m = n" by simp
    let ?i = "first K" and ?z = "rsize n" and ?y = "x mod rsize n"
    have IH: "K' \<noteq> Map.empty \<Longrightarrow> perm_in n (promote n K') ?y = perm_at n K' ?y" using Suc.IH ok by simp
    show ?case
    proof (cases "x div ?z = ?i")
      case True
      then have x: "x = ?i * ?z + ?y" by (metis div_mult_mod_eq)
      then have "?i * ?z + b \<le> x \<longleftrightarrow> b \<le> ?y" "x \<le> ?i * ?z + l \<longleftrightarrow> ?y \<le> l" by linarith+
      then show ?thesis using p IH True unfolding e by (simp add: perm_in_def perm_at_Suc)
    next
      case False
      have "(?i * ?z + b \<le> x \<and> x \<le> ?i * ?z + l) \<longrightarrow> x div ?z = ?i"
      proof
        assume a: "?i * ?z + b \<le> x \<and> x \<le> ?i * ?z + l"
        then have "x = ?i * ?z + (x - ?i * ?z)" "x - ?i * ?z < ?z" using ok by auto
        then show "x div ?z = ?i" by (metis glue(1) rsize_pos(1))
      qed
      with False have "\<not> (?i * ?z + b \<le> x \<and> x \<le> ?i * ?z + l)" by blast
      with False show ?thesis unfolding e perm_in_def perm_at_Suc by auto
    qed
  qed
qed simp

lemma promote_ok:
  "tree_ok n K \<Longrightarrow> K \<noteq> Map.empty \<Longrightarrow> node_ok n (promote n K)"
proof (induction n arbitrary: K)
  case (Suc n)
  from Suc.prems show ?case
  proof (rule promote_cases)
    fix m b l a K'
    assume m: "Suc n = Suc m" and p: "K (first K) = Some (PNode b l a K')" "first K < 512"
      and ok: "b \<le> l" "l < rsize m" "4096 dvd b" "tree_ok m K'" "\<And>x. b \<le> x \<Longrightarrow> x \<le> l \<Longrightarrow> perm_at m K' x = None"
      and e: "promote (Suc n) K = PNode (first K * rsize m + b) (first K * rsize m + l) a
       (K(first K := if K' = Map.empty then None else Some (promote m K')))"
    from m have [simp]: "m = n" by simp
    let ?i = "first K" and ?z = "rsize n"
    define K1 where "K1 = K(?i := if K' = Map.empty then None else Some (promote n K'))"
    have "?i * ?z + ?z \<le> 512 * ?z" using p(2) by (metis Suc_leI mult.commute mult_Suc_right add.commute mult_le_mono2)
    then have "?i * ?z + l < rsize (Suc n)" using ok(2) unfolding rsize_Suc \<open>m = n\<close> by linarith
    moreover have "4096 dvd ?i * ?z + b" using ok(3) page_dvd_rsize [of n] by (simp add: dvd_add)
    moreover have "tree_ok (Suc n) K1" unfolding K1_def
      by (rule tree_ok_upd [OF Suc.prems(1) p(2)]) (use Suc.IH ok in \<open>auto split: if_splits\<close>)
    moreover have "perm_at (Suc n) K1 x = None" if x: "?i * ?z + b \<le> x" "x \<le> ?i * ?z + l" for x
    proof -
      define y where "y = x - ?i * ?z"
      have y: "x = ?i * ?z + y" "b \<le> y" "y \<le> l" "y < ?z" using x ok by (auto simp: y_def)
      then have "perm_at (Suc n) K1 x = (if K' = Map.empty then None else perm_in n (promote n K') y)"
        by (simp add: perm_at_Suc K1_def glue)
      with promote_perm [of n K' y] ok y show ?thesis by simp
    qed
    moreover have "promote (Suc n) K = PNode (?i * ?z + b) (?i * ?z + l) a K1" by (simp add: e K1_def)
    ultimately show ?case using ok(1) by (simp add: node_ok_def)
  qed
qed simp

text \<open>The number of segments that tile a range.\<close>

definition pieces_in :: "(ptree \<Rightarrow> nat \<Rightarrow> nat \<Rightarrow> nat) \<Rightarrow> pnode \<Rightarrow> nat \<Rightarrow> nat \<Rightarrow> nat" where
  "pieces_in P p nb nl = (case p of PNode b l a K \<Rightarrow>
     if b = nb \<and> l = nl then 1 else if b = nb \<and> l < nl then Suc (P K (Suc l) nl) else P K nb nl)"

primrec pieces :: "nat \<Rightarrow> ptree \<Rightarrow> nat \<Rightarrow> nat \<Rightarrow> nat" where
  "pieces 0 T b l = 0"
| "pieces (Suc n) T b l = (\<Sum>i = b div rsize n..l div rsize n.
     case T i of None \<Rightarrow> 0 | Some p \<Rightarrow> pieces_in (pieces n) p (lo (rsize n) b i) (hi (rsize n) l i))"

declare pieces.simps(2) [simp del]

lemma pieces_agree:
  assumes "\<And>i. b div rsize n \<le> i \<Longrightarrow> i \<le> l div rsize n \<Longrightarrow> T' i = T i"
  shows "pieces (Suc n) T' b l = pieces (Suc n) T b l"
  using assms by (simp add: pieces.simps(2))

lemma pieces_head:
  assumes "b \<le> l" "T (b div rsize n) = Some p"
  shows "pieces (Suc n) T b l = pieces_in (pieces n) p (b mod rsize n) (hi (rsize n) l (b div rsize n)) +
    (if b div rsize n < l div rsize n then pieces (Suc n) T (Suc (b div rsize n) * rsize n) l else 0)"
proof -
  let ?z = "rsize n"
  have bl: "b div ?z \<le> l div ?z" using assms(1) by (rule div_le_mono)
  have "(\<Sum>i = Suc (b div ?z)..l div ?z. case T i of None \<Rightarrow> 0 | Some p \<Rightarrow> pieces_in (pieces n) p (lo ?z b i) (hi ?z l i)) =
    (if b div ?z < l div ?z then pieces (Suc n) T (Suc (b div ?z) * ?z) l else 0)"
    unfolding pieces.simps(2) by (auto simp: lo_def intro!: sum.cong split: option.splits)
  with assms(2) show ?thesis
    unfolding pieces.simps(2) [of n T b l] sum.atLeast_Suc_atMost [OF bl] by (simp add: lo_def)
qed

lemma pieces_in_apart: "apart b l nb nl \<Longrightarrow> b \<le> l \<Longrightarrow> nb \<le> nl \<Longrightarrow> pieces_in P (PNode b l a K) nb nl = P K nb nl"
  by (auto simp: pieces_in_def apart_def)

lemma tiled_in_apart:
  "tiled_in C (PNode b l a K) nb nl g \<Longrightarrow> apart b l nb nl \<Longrightarrow> b \<le> l \<Longrightarrow> nb \<le> nl \<Longrightarrow> C K nb nl"
  by (auto simp: tiled_in_def apart_def)

lemma hi_last: "i = l div z \<Longrightarrow> i * z + hi z l i = (l::nat)"
  by (simp add: hi_def)

lemma hi_le:
  assumes "0 < z" "i \<le> l div z"
  shows "i * z + hi z l i \<le> (l::nat)"
proof (cases "i = l div z")
  case False
  with assms(2) have "Suc i * z \<le> l" using div_times_less_eq_dividend [of l z] by (metis Suc_leI le_neq_implies_less le_trans mult_le_mono1)
  moreover have "hi z l i < z" using assms(1) by simp
  ultimately show ?thesis by simp
qed (simp add: hi_last)

text \<open>What a range has beyond the child of its start.\<close>

definition beyond :: "nat \<Rightarrow> ptree \<Rightarrow> nat \<Rightarrow> nat \<Rightarrow> nat" where
  "beyond n K b l = (if b div rsize n < l div rsize n then pieces (Suc n) K (Suc (b div rsize n) * rsize n) l else 0)"

lemma beyond_agree:
  assumes "\<And>j. b div rsize n < j \<Longrightarrow> K1 j = K j"
  shows "beyond n K1 b l = beyond n K b l"
  using pieces_agree [of "Suc (b div rsize n) * rsize n" n l K1 K] assms by (simp add: beyond_def Suc_le_eq)

lemma pieces_kid:
  "b \<le> l \<Longrightarrow> T (b div rsize n) = Some p \<Longrightarrow>
   pieces (Suc n) T b l = pieces_in (pieces n) p (b mod rsize n) (hi (rsize n) l (b div rsize n)) + beyond n T b l"
  unfolding beyond_def by (rule pieces_head)


text \<open>
  Promotion, by where the promoted node lies: in a child before the range, or in the child of the
  range's start, as the range's only segment there, as its first one, or outside it.
\<close>

lemma promote_before:
  assumes t: "tiled (Suc n) g K nb nl" and i: "i < nb div rsize n" and l: "b \<le> l" "l < rsize n"
    and agree: "\<And>j. i < j \<Longrightarrow> K1 j = K j"
  shows "tiled_in (tiled (Suc n) g) (PNode (i * rsize n + b) (i * rsize n + l) a K1) nb nl g"
    "pieces_in (pieces (Suc n)) (PNode (i * rsize n + b) (i * rsize n + l) a K1) nb nl = pieces (Suc n) K nb nl"
proof -
  have "Suc i * rsize n \<le> nb" using i div_times_less_eq_dividend [of nb "rsize n"] by (metis Suc_leI le_trans mult_le_mono1)
  then have lt: "i * rsize n + l < nb" using l by simp
  then have ap: "apart (i * rsize n + b) (i * rsize n + l) nb nl" by (simp add: apart_def)
  have "tiled (Suc n) g K1 nb nl" using t tiled_agree [of nb n nl K1 K] agree i by simp
  then show "tiled_in (tiled (Suc n) g) (PNode (i * rsize n + b) (i * rsize n + l) a K1) nb nl g"
    using ap lt l by (simp add: tiled_in_def)
  have "pieces (Suc n) K1 nb nl = pieces (Suc n) K nb nl" using pieces_agree [of nb n nl K1 K] agree i by simp
  then show "pieces_in (pieces (Suc n)) (PNode (i * rsize n + b) (i * rsize n + l) a K1) nb nl = pieces (Suc n) K nb nl"
    using pieces_in_apart [OF ap] l tiled_le [OF t] by simp
qed

lemma promote_kid:
  assumes t: "tiled (Suc n) g K nb nl" and i: "i = nb div rsize n"
    and agree: "\<And>j. i < j \<Longrightarrow> K1 j = K j" and p: "K1 i = Some p"
    and y: "tiled_in (tiled n g) p y (hi (rsize n) nl i) g" "y \<le> hi (rsize n) nl i"
  shows "tiled (Suc n) g K1 (i * rsize n + y) nl"
    "pieces (Suc n) K1 (i * rsize n + y) nl = pieces_in (pieces n) p y (hi (rsize n) nl i) + beyond n K nb nl"
proof -
  have il: "i \<le> nl div rsize n" using tiled_le [OF t] i by (simp add: div_le_mono)
  have yz: "y < rsize n" using y(2) hi_less [OF rsize_pos(1), of n nl i] by linarith
  have yl: "i * rsize n + y \<le> nl" using hi_le [OF rsize_pos(1) il] y(2) by linarith
  show "tiled (Suc n) g K1 (i * rsize n + y) nl"
    using p y i yz yl agree by (intro tiled_rebase [OF t, where p = p]) (auto simp: glue)
  have "beyond n K1 (i * rsize n + y) nl = beyond n K1 nb nl" using yz by (simp add: beyond_def glue i [symmetric])
  also have "\<dots> = beyond n K nb nl" using agree unfolding i by (rule beyond_agree)
  finally have "beyond n K1 (i * rsize n + y) nl = beyond n K nb nl" .
  then show "pieces (Suc n) K1 (i * rsize n + y) nl = pieces_in (pieces n) p y (hi (rsize n) nl i) + beyond n K nb nl"
    using pieces_kid [of "i * rsize n + y" nl K1 n p] p yl yz by (simp add: glue)
qed

lemma promote_whole:
  assumes t: "tiled (Suc n) g K nb nl" and i: "i = nb div rsize n"
    and agree: "\<And>j. i < j \<Longrightarrow> K1 j = K j"
  shows "tiled_in (tiled (Suc n) g) (PNode nb (i * rsize n + hi (rsize n) nl i) g K1) nb nl g"
    "pieces_in (pieces (Suc n)) (PNode nb (i * rsize n + hi (rsize n) nl i) g K1) nb nl = Suc (beyond n K nb nl)"
proof -
  let ?l = "i * rsize n + hi (rsize n) nl i"
  have "tiled_in (tiled (Suc n) g) (PNode nb ?l g K1) nb nl g \<and>
    pieces_in (pieces (Suc n)) (PNode nb ?l g K1) nb nl = Suc (beyond n K nb nl)"
  proof (cases "i < nl div rsize n")
    case True
    then have l: "Suc ?l = Suc i * rsize n" by (simp add: hi_def)
    have lt: "?l < nl" using True l div_times_less_eq_dividend [of nl "rsize n"]
      by (metis Suc_le_eq le_trans mult_le_mono1)
    have "tiled (Suc n) g K1 (Suc ?l) nl" unfolding l using True i agree by (intro tiled_next [OF t]) auto
    moreover have "pieces (Suc n) K1 (Suc ?l) nl = beyond n K nb nl"
      unfolding l using beyond_agree [of nb n K1 K nl] True i agree by (simp add: beyond_def)
    ultimately show ?thesis using lt by (simp add: tiled_in_def pieces_in_def)
  next
    case False
    then have "i = nl div rsize n" using tiled_le [OF t] i by (simp add: div_le_mono le_antisym)
    then show ?thesis using False i by (simp add: hi_last tiled_in_def pieces_in_def beyond_def)
  qed
  then show "tiled_in (tiled (Suc n) g) (PNode nb ?l g K1) nb nl g"
    "pieces_in (pieces (Suc n)) (PNode nb ?l g K1) nb nl = Suc (beyond n K nb nl)" by simp_all
qed

lemma promote_apart:
  assumes ap: "apart b l (nb mod rsize n) (hi (rsize n) nl i)" and i: "i = nb div rsize n" and l: "b \<le> l" "l < rsize n"
  shows "apart (i * rsize n + b) (i * rsize n + l) nb nl"
proof (cases "l < nb mod rsize n")
  case True
  moreover have "i * rsize n + nb mod rsize n = nb" unfolding i by (rule div_mult_mod_eq)
  ultimately have "i * rsize n + l < nb" by linarith
  then show ?thesis by (simp add: apart_def)
next
  case False
  with ap have lt: "hi (rsize n) nl i < b" by (simp add: apart_def)
  show ?thesis
  proof (cases "i = nl div rsize n")
    case True
    from hi_last [OF this] lt show ?thesis by (simp add: apart_def)
  next
    case other: False
    then have "hi (rsize n) nl i = rsize n - 1" by (simp add: hi_def)
    with lt l show ?thesis by simp
  qed
qed

text \<open>
  Promotion moves one segment up and changes neither which ranges are tiled nor their number of
  segments: if the promoted segment belongs to the range, it is the range's first.
\<close>

lemma promote_tiled:
  "tree_ok n K \<Longrightarrow> tiled n g K nb nl \<Longrightarrow>
   tiled_in (tiled n g) (promote n K) nb nl g \<and> pieces_in (pieces n) (promote n K) nb nl = pieces n K nb nl"
proof (induction n arbitrary: K nb nl)
  case (Suc n)
  note t = Suc.prems(2)
  have ne: "K \<noteq> Map.empty" using t by auto
  have le: "nb \<le> nl" by (rule tiled_le [OF t])
  from Suc.prems(1) ne show ?case
  proof (rule promote_cases)
    fix m b l a K'
    assume m: "Suc n = Suc m" and p: "K (first K) = Some (PNode b l a K')" and below: "\<And>j. j < first K \<Longrightarrow> K j = None"
      and ok: "b \<le> l" "l < rsize m" "tree_ok m K'"
      and e: "promote (Suc n) K = PNode (first K * rsize m + b) (first K * rsize m + l) a
       (K(first K := if K' = Map.empty then None else Some (promote m K')))"
    from m have [simp]: "m = n" by simp
    let ?i = "first K" and ?z = "rsize n"
    define K1 where "K1 = K(?i := if K' = Map.empty then None else Some (promote n K'))"
    have pr: "promote (Suc n) K = PNode (?i * ?z + b) (?i * ?z + l) a K1" by (simp add: e K1_def)
    have l: "l < ?z" using ok(2) by simp
    have agree: "K1 j = K j" if "?i < j" for j using that by (simp add: K1_def)
    obtain q where q: "K (nb div ?z) = Some q" "tiled_in (tiled n g) q (lo ?z nb (nb div ?z)) (hi ?z nl (nb div ?z)) g"
      using tiled_node [OF t order_refl div_le_mono [OF le]] by blast
    show ?case
    proof (cases "?i < nb div ?z")
      case True
      from promote_before [OF t this ok(1) l agree] show ?thesis by (simp add: pr)
    next
      case False
      then have i: "?i = nb div ?z" using below [of "nb div ?z"] q(1) by (cases "nb div ?z < ?i") auto
      let ?b = "nb mod ?z" and ?l = "hi ?z nl ?i"
      have nb: "?i * ?z + ?b = nb" unfolding i by (rule div_mult_mod_eq)
      have ti: "tiled_in (tiled n g) (PNode b l a K') ?b ?l g" using q p unfolding i [symmetric] by (simp add: lo_def i)
      have pcs: "pieces (Suc n) K nb nl = pieces_in (pieces n) (PNode b l a K') ?b ?l + beyond n K nb nl"
        using pieces_kid [OF le, of K n] p unfolding i by simp
      have kid: "tiled (Suc n) g K1 (?i * ?z + y) nl" "pieces (Suc n) K1 (?i * ?z + y) nl = pieces n K' y ?l + beyond n K nb nl"
        if y: "tiled n g K' y ?l" for y
      proof -
        have K1i: "K1 ?i = Some (promote n K')" using y by (auto simp: K1_def)
        from Suc.IH [OF _ y] ok(3) have pk: "tiled_in (tiled n g) (promote n K') y ?l g"
          "pieces_in (pieces n) (promote n K') y ?l = pieces n K' y ?l" by auto
        from promote_kid [OF t i agree K1i pk(1) tiled_le [OF y]] pk(2)
        show "tiled (Suc n) g K1 (?i * ?z + y) nl" "pieces (Suc n) K1 (?i * ?z + y) nl = pieces n K' y ?l + beyond n K nb nl"
          by simp_all
      qed
      have lnl: "?i * ?z + ?l \<le> nl" using hi_le [OF rsize_pos(1)] le i by (simp add: div_le_mono)
      from ti consider (whole) "b = ?b" "l = ?l" "a = g" | (part) "b = ?b" "l < ?l" "a = g" "tiled n g K' (Suc l) ?l"
        | (below) "b \<noteq> ?b" "apart b l ?b ?l" "tiled n g K' ?b ?l" by (auto simp: tiled_in_def)
      then show ?thesis
      proof cases
        case whole
        from promote_whole [OF t i agree] show ?thesis unfolding pr pcs whole nb by (simp add: pieces_in_def)
      next
        case part
        have "?i * ?z + l < nl" using part(2) lnl by linarith
        with kid [OF part(4)] show ?thesis unfolding pr pcs
          using part nb by (simp add: tiled_in_def pieces_in_def)
      next
        case below
        note ap = promote_apart [OF below(2) i ok(1) l]
        have "?i * ?z + b \<noteq> nb" using ap ok(1) le by (auto simp: apart_def)
        moreover have "pieces_in (pieces n) (PNode b l a K') ?b ?l = pieces n K' ?b ?l"
          by (rule pieces_in_apart [OF below(2) ok(1) tiled_le [OF below(3)]])
        ultimately show ?thesis unfolding pr pcs
          using kid [OF below(3)] nb ap ok(1) le pieces_in_apart [OF ap _ le] by (simp add: tiled_in_def)
      qed
    qed
  qed
qed simp

text \<open>A range has at most 3585 segments in the region of a root node, fewer than the clear loop allows.\<close>

primrec max_pieces :: "nat \<Rightarrow> nat" where
  "max_pieces 0 = 1"
| "max_pieces (Suc n) = 511 + 2 * max_pieces n"

lemma max_pieces_ge [simp]: "1 \<le> max_pieces n"
  by (induction n) auto

lemma sum_ends_le:
  fixes f :: "nat \<Rightarrow> nat"
  assumes "m \<le> k" "1 \<le> M" "\<And>i. m \<le> i \<Longrightarrow> i \<le> k \<Longrightarrow> f i \<le> (if i = m \<or> i = k then M else 1)"
  shows "sum f {m..k} \<le> (k - m) + 2 * M - 1"
proof -
  have "sum f {m..k} \<le> (\<Sum>i = m..k. 1 + (if i = m then M - 1 else 0) + (if i = k then M - 1 else 0))"
  proof (rule sum_mono)
    fix i assume "i \<in> {m..k}"
    with assms(3) [of i] assms(2) show "f i \<le> 1 + (if i = m then M - 1 else 0) + (if i = k then M - 1 else 0)" by auto
  qed
  also have "\<dots> = (k - m + 1) + (M - 1) + (M - 1)" using assms(1) by (simp only: sum.distrib) simp
  finally show ?thesis using assms(2) by linarith
qed

lemma pieces_in_bound:
  assumes "tiled_in (tiled n g) p nb nl g" "nl < rsize n" "nb \<le> nl"
  shows "pieces_in (pieces n) p nb nl \<le> max_pieces n"
  using assms
proof (induction n arbitrary: p nb nl)
  case 0
  then show ?case by (auto simp: tiled_in_def pieces_in_def split: pnode.splits)
next
  case (Suc n)
  have table: "pieces (Suc n) K b nl \<le> 510 + 2 * max_pieces n" if t: "tiled (Suc n) g K b nl" for K b
  proof -
    let ?z = "rsize n"
    have bl: "b div ?z \<le> nl div ?z" by (rule div_le_mono [OF tiled_le [OF t]])
    have "nl div ?z < 512" using Suc.prems(2) by (simp add: rsize_Suc less_mult_imp_div_less)
    moreover have "pieces (Suc n) K b nl \<le> (nl div ?z - b div ?z) + 2 * max_pieces n - 1"
      unfolding pieces.simps(2)
    proof (rule sum_ends_le [OF bl max_pieces_ge])
      fix i assume i: "b div ?z \<le> i" "i \<le> nl div ?z"
      from tiled_node [OF t this] obtain p where p: "K i = Some p" "tiled_in (tiled n g) p (lo ?z b i) (hi ?z nl i) g"
        "b div ?z < i \<Longrightarrow> i < nl div ?z \<Longrightarrow> p = PNode 0 (?z - 1) g Map.empty" by blast
      show "(case K i of None \<Rightarrow> 0 | Some p \<Rightarrow> pieces_in (pieces n) p (lo ?z b i) (hi ?z nl i))
          \<le> (if i = b div ?z \<or> i = nl div ?z then max_pieces n else 1)"
      proof (cases "i = b div ?z \<or> i = nl div ?z")
        case True
        then show ?thesis using Suc.IH [OF p(2) hi_less [OF rsize_pos(1)] lo_le_hi [OF rsize_pos(1) tiled_le [OF t]]] p(1)
          by (simp only: option.case if_True)
      next
        case False
        with i p(3) have "p = PNode 0 (?z - 1) g Map.empty" by auto
        with False p(1) show ?thesis by (simp add: pieces_in_def lo_def hi_def)
      qed
    qed
    ultimately show ?thesis by linarith
  qed
  obtain b l a K where p: "p = PNode b l a K" by (cases p)
  with Suc.prems(1) consider "b = nb" "l = nl" | "b = nb" "l < nl" "tiled (Suc n) g K (Suc l) nl"
    | "b \<noteq> nb" "tiled (Suc n) g K nb nl" by (auto simp: tiled_in_def)
  then show ?case
  proof cases
    case 1
    then show ?thesis by (simp add: p pieces_in_def)
  next
    case 2
    then show ?thesis using table [OF 2(3)] by (simp add: p pieces_in_def)
  next
    case 3
    then show ?thesis using table [OF 3(2)] by (auto simp: p pieces_in_def apart_def)
  qed
qed

section \<open>Changes confined to a range\<close>

definition changed :: "nat \<Rightarrow> ptree \<Rightarrow> ptree \<Rightarrow> nat \<Rightarrow> nat \<Rightarrow> bool" where
  "changed n T T' b l \<longleftrightarrow> tree_ok n T' \<and> (\<forall>x. x < b \<or> l < x \<longrightarrow> perm_at n T' x = perm_at n T x) \<and>
     (\<forall>g b' l'. apart b l b' l' \<longrightarrow> tiled n g T b' l' \<longrightarrow> tiled n g T' b' l' \<and> pieces n T' b' l' = pieces n T b' l')"

lemma changedD:
  assumes "changed n T T' b l"
  shows "tree_ok n T'" "x < b \<or> l < x \<Longrightarrow> perm_at n T' x = perm_at n T x"
    "apart b l b' l' \<Longrightarrow> tiled n g T b' l' \<Longrightarrow> tiled n g T' b' l'"
    "apart b l b' l' \<Longrightarrow> tiled n g T b' l' \<Longrightarrow> pieces n T' b' l' = pieces n T b' l'"
  using assms unfolding changed_def by blast+

lemma changed_refl: "tree_ok n T \<Longrightarrow> changed n T T b l"
  by (simp add: changed_def)

lemma changed_mono: "changed n T T' b l \<Longrightarrow> b' \<le> b \<Longrightarrow> l \<le> l' \<Longrightarrow> changed n T T' b' l'"
  unfolding changed_def apart_def by (meson le_less_trans less_le_trans)

lemma changed_trans: "changed n T T1 b l \<Longrightarrow> changed n T1 T2 b l \<Longrightarrow> changed n T T2 b l"
  unfolding changed_def by metis

lemma tiled_upd:
  assumes t: "tiled (Suc n) g T b l"
    and v: "b div rsize n \<le> i \<Longrightarrow> i \<le> l div rsize n \<Longrightarrow> T i = Some p \<Longrightarrow> \<exists>p'. v = Some p' \<and>
        (b div rsize n < i \<longrightarrow> i < l div rsize n \<longrightarrow> p' = p) \<and>
        tiled_in (tiled n g) p' (lo (rsize n) b i) (hi (rsize n) l i) g \<and>
        pieces_in (pieces n) p' (lo (rsize n) b i) (hi (rsize n) l i) = pieces_in (pieces n) p (lo (rsize n) b i) (hi (rsize n) l i)"
    and p: "T i = Some p"
  shows "tiled (Suc n) g (T(i := v)) b l" "pieces (Suc n) (T(i := v)) b l = pieces (Suc n) T b l"
proof -
  let ?z = "rsize n"
  show "tiled (Suc n) g (T(i := v)) b l"
  proof (rule tiledI [OF tiled_le [OF t]])
    fix j assume j: "b div ?z \<le> j" "j \<le> l div ?z"
    show "\<exists>p. (T(i := v)) j = Some p \<and> tiled_in (tiled n g) p (lo ?z b j) (hi ?z l j) g"
    proof (cases "j = i")
      case True
      with v [OF _ _ p] j show ?thesis by auto
    next
      case False
      with tiled_node [OF t j] show ?thesis by (metis fun_upd_other)
    qed
  next
    fix j assume j: "b div ?z < j" "j < l div ?z"
    then have "T j = Some (PNode 0 (?z - 1) g Map.empty)" using tiled_node [OF t, of j] by auto
    with v [OF _ _ p] j p show "(T(i := v)) j = Some (PNode 0 (?z - 1) g Map.empty)" by (cases "j = i") auto
  qed
  show "pieces (Suc n) (T(i := v)) b l = pieces (Suc n) T b l"
    unfolding pieces.simps(2)
  proof (rule sum.cong [OF refl])
    fix j assume "j \<in> {b div ?z..l div ?z}"
    with v [OF _ _ p] p show "(case (T(i := v)) j of None \<Rightarrow> 0 | Some p \<Rightarrow> pieces_in (pieces n) p (lo ?z b j) (hi ?z l j)) =
       (case T j of None \<Rightarrow> 0 | Some p \<Rightarrow> pieces_in (pieces n) p (lo ?z b j) (hi ?z l j))"
      by (cases "j = i") auto
  qed
qed

lemma perm_at_upd_other: "x div rsize n \<noteq> i \<Longrightarrow> perm_at (Suc n) (T(i := v)) x = perm_at (Suc n) T x"
  by (simp add: perm_at_Suc)

lemma perm_at_upd_same: "y < rsize n \<Longrightarrow> perm_at (Suc n) (T(i := v)) (i * rsize n + y) = Option.bind v (\<lambda>p. perm_in n p y)"
  by (simp add: perm_at_Suc glue)

lemma upd_cong_perm:
  assumes "T i = Some p" "\<And>y. y < rsize n \<Longrightarrow> y < b \<or> l < y \<Longrightarrow> Option.bind v (\<lambda>q. perm_in n q y) = perm_in n p y"
    "x < i * rsize n + b \<or> i * rsize n + l < x"
  shows "perm_at (Suc n) (T(i := v)) x = perm_at (Suc n) T x"
proof (cases "x div rsize n = i")
  case True
  then have x: "x = i * rsize n + x mod rsize n" by (metis div_mult_mod_eq)
  with assms(3) have "x mod rsize n < b \<or> l < x mod rsize n" by linarith
  with assms(1) assms(2) [of "x mod rsize n"] True show ?thesis by (simp add: perm_at_Suc)
qed (simp add: perm_at_upd_other)

text \<open>Clearing a node removes its segment and promotes another one into its place.\<close>

definition cleared :: "nat \<Rightarrow> ptree \<Rightarrow> pnode option" where
  "cleared n K = (if K = Map.empty then None else Some (promote n K))"

lemma cleared_perm: "tree_ok n K \<Longrightarrow> Option.bind (cleared n K) (\<lambda>p. perm_in n p y) = perm_at n K y"
  using promote_perm [of n K y] by (simp add: cleared_def)

lemma changed_clear:
  assumes ok: "tree_ok (Suc n) T" and p: "T i = Some (PNode b l a K)"
  shows "changed (Suc n) T (T(i := cleared n K)) (i * rsize n + b) (i * rsize n + l)"
    "i * rsize n + b \<le> x \<Longrightarrow> x \<le> i * rsize n + l \<Longrightarrow> perm_at (Suc n) (T(i := cleared n K)) x = None"
proof -
  let ?z = "rsize n"
  have i: "i < 512" and k: "b \<le> l" "l < ?z" "tree_ok n K" "\<And>x. b \<le> x \<Longrightarrow> x \<le> l \<Longrightarrow> perm_at n K x = None"
    using tree_okD [OF ok p] by auto
  have bz: "b < ?z" using k by simp
  have ok': "tree_ok (Suc n) (T(i := cleared n K))"
    using promote_ok [OF k(3)] by (intro tree_ok_upd [OF ok i]) (auto simp: cleared_def split: if_splits)
  have perm: "perm_at (Suc n) (T(i := cleared n K)) x = perm_at (Suc n) T x" if "x < i * ?z + b \<or> i * ?z + l < x" for x
    by (rule upd_cong_perm [where p = "PNode b l a K" and b = b and l = l]) (use p that in \<open>auto simp: cleared_perm [OF k(3)] perm_in_PNode\<close>)
  have tl: "tiled (Suc n) g (T(i := cleared n K)) b' l' \<and> pieces (Suc n) (T(i := cleared n K)) b' l' = pieces (Suc n) T b' l'"
    if ap: "apart (i * ?z + b) (i * ?z + l) b' l'" and t: "tiled (Suc n) g T b' l'" for g b' l'
  proof (intro conjI tiled_upd [OF t _ p])
    assume r: "b' div ?z \<le> i" "i \<le> l' div ?z"
    have ap': "apart b l (lo ?z b' i) (hi ?z l' i)"
      using apart_cut [OF rsize_pos(1) ap _ tiled_le [OF t], of n i] r k bz by (simp add: glue)
    have le: "lo ?z b' i \<le> hi ?z l' i" by (rule lo_le_hi [OF rsize_pos(1) tiled_le [OF t]])
    from tiled_node [OF t r] p have ti: "tiled_in (tiled n g) (PNode b l a K) (lo ?z b' i) (hi ?z l' i) g"
      and mid: "b' div ?z < i \<Longrightarrow> i < l' div ?z \<Longrightarrow> PNode b l a K = PNode 0 (?z - 1) g Map.empty" by auto
    have tk: "tiled n g K (lo ?z b' i) (hi ?z l' i)" by (rule tiled_in_apart [OF ti ap' k(1) le])
    then have ne: "K \<noteq> Map.empty" by auto
    with mid have nomid: "\<not> (b' div ?z < i \<and> i < l' div ?z)" by auto
    from promote_tiled [OF k(3) tk] ne nomid pieces_in_apart [OF ap' k(1) le, of "pieces n" a K]
    show "\<exists>p'. cleared n K = Some p' \<and> (b' div ?z < i \<longrightarrow> i < l' div ?z \<longrightarrow> p' = PNode b l a K) \<and>
        tiled_in (tiled n g) p' (lo ?z b' i) (hi ?z l' i) g \<and>
        pieces_in (pieces n) p' (lo ?z b' i) (hi ?z l' i) = pieces_in (pieces n) (PNode b l a K) (lo ?z b' i) (hi ?z l' i)"
      by (auto simp: cleared_def)
    then show "\<exists>p'. cleared n K = Some p' \<and> (b' div ?z < i \<longrightarrow> i < l' div ?z \<longrightarrow> p' = PNode b l a K) \<and>
        tiled_in (tiled n g) p' (lo ?z b' i) (hi ?z l' i) g \<and>
        pieces_in (pieces n) p' (lo ?z b' i) (hi ?z l' i) = pieces_in (pieces n) (PNode b l a K) (lo ?z b' i) (hi ?z l' i)" .
  qed
  show "changed (Suc n) T (T(i := cleared n K)) (i * ?z + b) (i * ?z + l)"
    unfolding changed_def using ok' perm tl by blast
  show "perm_at (Suc n) (T(i := cleared n K)) x = None" if x: "i * ?z + b \<le> x" "x \<le> i * ?z + l"
  proof -
    define y where "y = x - i * ?z"
    have y: "x = i * ?z + y" "b \<le> y" "y \<le> l" "y < ?z" using x k by (auto simp: y_def)
    with k(4) show ?thesis by (simp add: perm_at_upd_same cleared_perm [OF k(3)])
  qed
qed

text \<open>A change below a node.\<close>

lemma changed_kids:
  assumes ok: "tree_ok (Suc n) T" and p: "T i = Some (PNode b l a K)" and c: "changed n K K' nb nl"
    and r: "apart b l nb nl" "nb \<le> nl" "nl < rsize n"
  shows "changed (Suc n) T (T(i \<mapsto> PNode b l a K')) (i * rsize n + nb) (i * rsize n + nl)"
    "\<And>y. nb \<le> y \<Longrightarrow> y \<le> nl \<Longrightarrow> perm_at (Suc n) (T(i \<mapsto> PNode b l a K')) (i * rsize n + y) = perm_at n K' y"
proof -
  let ?z = "rsize n" and ?T = "T(i \<mapsto> PNode b l a K')"
  note k = tree_okD [OF ok p]
  have own: "perm_at n K' x = None" if "b \<le> x" "x \<le> l" for x
    using changedD(2) [OF c, of x] k(6) [OF that] r(1) that by (auto simp: apart_def)
  have ok': "tree_ok (Suc n) ?T"
    using k changedD(1) [OF c] own by (intro tree_ok_upd [OF ok]) (auto simp: node_ok_def)
  have perm: "perm_at (Suc n) ?T x = perm_at (Suc n) T x" if "x < i * ?z + nb \<or> i * ?z + nl < x" for x
    by (rule upd_cong_perm [where p = "PNode b l a K" and b = nb and l = nl])
      (use p that changedD(2) [OF c] in \<open>auto simp: perm_in_def\<close>)
  have tl: "tiled (Suc n) g ?T b' l' \<and> pieces (Suc n) ?T b' l' = pieces (Suc n) T b' l'"
    if ap: "apart (i * ?z + nb) (i * ?z + nl) b' l'" and t: "tiled (Suc n) g T b' l'" for g b' l'
  proof -
    let ?lo = "lo ?z b' i" and ?hi = "hi ?z l' i"
    have nbz: "nb < ?z" using r by simp
    have main: "\<exists>p'. Some (PNode b l a K') = Some p' \<and> (b' div ?z < i \<longrightarrow> i < l' div ?z \<longrightarrow> p' = PNode b l a K) \<and>
        tiled_in (tiled n g) p' ?lo ?hi g \<and>
        pieces_in (pieces n) p' ?lo ?hi = pieces_in (pieces n) (PNode b l a K) ?lo ?hi"
      if s: "b' div ?z \<le> i" "i \<le> l' div ?z"
    proof -
      have ap': "apart nb nl ?lo ?hi"
        using apart_cut [OF rsize_pos(1) ap _ tiled_le [OF t], of n i] s r nbz by (simp add: glue)
      from tiled_node [OF t s] p have ti: "tiled_in (tiled n g) (PNode b l a K) ?lo ?hi g"
        and mid: "b' div ?z < i \<Longrightarrow> i < l' div ?z \<Longrightarrow> PNode b l a K = PNode 0 (?z - 1) g Map.empty" by auto
      have nomid: "\<not> (b' div ?z < i \<and> i < l' div ?z)"
      proof
        assume "b' div ?z < i \<and> i < l' div ?z"
        with mid have "b = 0" "l = ?z - 1" by auto
        with r show False by (auto simp: apart_def)
      qed
      have sub: "tiled n g K y ?hi \<Longrightarrow> ?lo \<le> y \<Longrightarrow> tiled n g K' y ?hi \<and> pieces n K' y ?hi = pieces n K y ?hi" for y
        using changedD(3,4) [OF c, of y ?hi g] ap' by (auto simp: apart_def)
      from ti sub [of ?lo] sub [of "Suc l"] k(2) have "tiled_in (tiled n g) (PNode b l a K') ?lo ?hi g \<and>
        pieces_in (pieces n) (PNode b l a K') ?lo ?hi = pieces_in (pieces n) (PNode b l a K) ?lo ?hi"
        by (auto simp: tiled_in_def pieces_in_def)
      with nomid show ?thesis by blast
    qed
    show ?thesis using tiled_upd [OF t main p] by blast
  qed
  show "changed (Suc n) T ?T (i * ?z + nb) (i * ?z + nl)"
    unfolding changed_def using ok' perm tl by blast
  show "perm_at (Suc n) ?T (i * ?z + y) = perm_at n K' y" if "nb \<le> y" "y \<le> nl" for y
  proof -
    have "\<not> (b \<le> y \<and> y \<le> l)" using r(1) that by (auto simp: apart_def)
    then show ?thesis using r that by (auto simp: perm_at_upd_same perm_in_def)
  qed
qed

text \<open>The attributes of a node change.\<close>

lemma changed_attr:
  assumes ok: "tree_ok (Suc n) T" and p: "T i = Some (PNode b l a K)"
  shows "changed (Suc n) T (T(i \<mapsto> PNode b l a' K)) (i * rsize n + b) (i * rsize n + l)"
proof -
  let ?z = "rsize n" and ?T = "T(i \<mapsto> PNode b l a' K)"
  note k = tree_okD [OF ok p]
  have ok': "tree_ok (Suc n) ?T" using k by (intro tree_ok_upd [OF ok]) (auto simp: node_ok_def)
  have perm: "perm_at (Suc n) ?T x = perm_at (Suc n) T x" if "x < i * ?z + b \<or> i * ?z + l < x" for x
    by (rule upd_cong_perm [where p = "PNode b l a K" and b = b and l = l]) (use p that in \<open>auto simp: perm_in_def\<close>)
  have tl: "tiled (Suc n) g ?T b' l' \<and> pieces (Suc n) ?T b' l' = pieces (Suc n) T b' l'"
    if ap: "apart (i * ?z + b) (i * ?z + l) b' l'" and t: "tiled (Suc n) g T b' l'" for g b' l'
  proof -
    let ?lo = "lo ?z b' i" and ?hi = "hi ?z l' i"
    have main: "\<exists>p'. Some (PNode b l a' K) = Some p' \<and> (b' div ?z < i \<longrightarrow> i < l' div ?z \<longrightarrow> p' = PNode b l a K) \<and>
        tiled_in (tiled n g) p' ?lo ?hi g \<and>
        pieces_in (pieces n) p' ?lo ?hi = pieces_in (pieces n) (PNode b l a K) ?lo ?hi"
      if s: "b' div ?z \<le> i" "i \<le> l' div ?z"
    proof -
      have lh: "?lo \<le> ?hi" by (rule lo_le_hi [OF rsize_pos(1) tiled_le [OF t]])
      have ap': "apart b l ?lo ?hi"
        using apart_cut [OF rsize_pos(1) ap _ tiled_le [OF t], of n i] s k by (simp add: glue)
      from tiled_node [OF t s] p have ti: "tiled_in (tiled n g) (PNode b l a K) ?lo ?hi g"
        and mid: "b' div ?z < i \<Longrightarrow> i < l' div ?z \<Longrightarrow> PNode b l a K = PNode 0 (?z - 1) g Map.empty" by auto
      have "tiled n g K ?lo ?hi" by (rule tiled_in_apart [OF ti ap' k(2) lh])
      moreover from this have "\<not> (b' div ?z < i \<and> i < l' div ?z)" using mid by auto
      ultimately show ?thesis
        using ap' apart_base [OF ap' k(2) lh] pieces_in_apart [OF ap' k(2) lh] by (simp add: tiled_in_def)
    qed
    show ?thesis using tiled_upd [OF t main p] by blast
  qed
  show ?thesis unfolding changed_def using ok' perm tl by blast
qed

text \<open>A new node.\<close>

lemma changed_new:
  assumes ok: "tree_ok (Suc n) T" and p: "T i = None" "i < 512" and r: "nb \<le> nl" "nl < rsize n" "4096 dvd nb"
  shows "changed (Suc n) T (T(i \<mapsto> PNode nb nl a Map.empty)) (i * rsize n + nb) (i * rsize n + nl)"
    "\<And>y. nb \<le> y \<Longrightarrow> y \<le> nl \<Longrightarrow> perm_at (Suc n) (T(i \<mapsto> PNode nb nl a Map.empty)) (i * rsize n + y) = Some a"
proof -
  let ?z = "rsize n" and ?T = "T(i \<mapsto> PNode nb nl a Map.empty)"
  have ok': "tree_ok (Suc n) ?T" using r by (intro tree_ok_upd [OF ok p(2)]) (auto simp: node_ok_def)
  have perm: "perm_at (Suc n) ?T x = perm_at (Suc n) T x" if x: "x < i * ?z + nb \<or> i * ?z + nl < x" for x
  proof (cases "x div ?z = i")
    case True
    then have "x = i * ?z + x mod ?z" by (metis div_mult_mod_eq)
    with x have "x mod ?z < nb \<or> nl < x mod ?z" by linarith
    with True p(1) show ?thesis by (auto simp: perm_at_Suc perm_in_def)
  qed (simp add: perm_at_upd_other)
  have tl: "tiled (Suc n) g ?T b' l' \<and> pieces (Suc n) ?T b' l' = pieces (Suc n) T b' l'"
    if t: "tiled (Suc n) g T b' l'" for g b' l'
  proof -
    have "?T j = T j" if "b' div ?z \<le> j" "j \<le> l' div ?z" for j
      using tiled_node [OF t that] p(1) by (metis fun_upd_other option.distinct(1))
    then show ?thesis using t tiled_agree [of b' n l' ?T T] pieces_agree [of b' n l' ?T T] by simp
  qed
  show "changed (Suc n) T ?T (i * ?z + nb) (i * ?z + nl)"
    unfolding changed_def using ok' perm tl by blast
  show "perm_at (Suc n) ?T (i * ?z + y) = Some a" if "nb \<le> y" "y \<le> nl" for y
    using r that by (simp add: perm_at_upd_same perm_in_def)
qed

text \<open>
  A free range that starts on a page never begins inside the last level: a page with a segment
  has it at its start.
\<close>

lemma free_page:
  assumes "tree_ok (Suc 0) T" "T i = Some (PNode b l a K)" "4096 dvd nb" "nb < rsize 0"
  shows "perm_at (Suc 0) T (i * rsize 0 + nb) = Some a"
proof -
  note k = tree_okD [OF assms(1,2)]
  have "b = 0" using k by (auto simp: rsize_0 dest: dvd_imp_le)
  moreover have "nb = 0" using assms(3,4) by (auto simp: rsize_0 dest: dvd_imp_le)
  ultimately show ?thesis using assms(2,4) by (simp add: perm_at_Suc glue perm_in_def)
qed

text \<open>The own segment of a node lies apart from a free part of its region.\<close>

lemma free_apart:
  assumes ok: "tree_ok (Suc n) T" and p: "T i = Some (PNode b l a K)" and r: "nb \<le> nl" "nl < rsize n"
    and free: "\<And>y. nb \<le> y \<Longrightarrow> y \<le> nl \<Longrightarrow> perm_at (Suc n) T (i * rsize n + y) = None"
  shows "apart b l nb nl" "\<And>y. nb \<le> y \<Longrightarrow> y \<le> nl \<Longrightarrow> perm_at n K y = None"
proof -
  note k = tree_okD [OF ok p]
  have f: "perm_in n (PNode b l a K) y = None" if "nb \<le> y" "y \<le> nl" for y
    using free [OF that] p r that by (simp add: perm_at_Suc glue)
  show "apart b l nb nl" by (rule apartI [OF k(2) r(1)]) (use f in \<open>metis option.distinct(1) perm_in_PNode\<close>)
  show "perm_at n K y = None" if "nb \<le> y" "y \<le> nl" for y
    using f [OF that] by (auto simp: perm_in_def split: if_splits)
qed

end
