(* ===== verification/Ummu_TableRep.thy ===== *)
theory Ummu_TableRep
  imports Ummu_Table Ummu_PermTree
begin

text \<open>
  The tree that the level tables of a TID hold.  \<open>tree\<close> reads it out of the memory of the blocks,
  \<open>foot\<close> is the set of level tables it occupies, \<open>wft\<close> says that the pointers, the counts and the
  bitmap fit together and that no table is shared.  \<open>moved\<close> and \<open>after\<close> are the frame: what an
  operation on one subtree may change, and how its effect is seen from the table above.
\<close>

section \<open>The tree in the tables\<close>

definition tgt :: "table_node \<Rightarrow> nat" where
  "tgt v = 4 * unat (tn_next_lv_index v) + unat (tn_lv_offset v) div 512"

lemma pts_tgt: "pts v t \<Longrightarrow> tgt v = t"
  by (simp add: tgt_def pts_nat)

definition attr_of :: "table_node \<Rightarrow> grant_attr" where
  "attr_of v = \<lparr>ga_perm = tn_permission v, ga_ebit = tn_e_bit v,
     ga_tokens = (if tn_token_check v = 1 then Some (tn_token_val_0 v, tn_token_val_1 v, tn_nonce v) else None)\<rparr>"

primrec tree :: "nat \<Rightarrow> walk \<Rightarrow> nat \<Rightarrow> ptree" where
  "tree 0 s t = Map.empty"
| "tree (Suc n) s t = (\<lambda>i. if i < 512 \<and> tn_valid (nd s t i) = 1
     then Some (PNode (unat (tn_base (nd s t i))) (unat (tn_limit (nd s t i))) (attr_of (nd s t i))
       (if tn_type (nd s t i) = 0 then tree n s (tgt (nd s t i)) else Map.empty)) else None)"

primrec foot :: "nat \<Rightarrow> walk \<Rightarrow> nat \<Rightarrow> nat set" where
  "foot 0 s t = {}"
| "foot (Suc n) s t = insert t (\<Union>i \<in> {i. i < 512 \<and> tn_valid (nd s t i) = 1 \<and> tn_type (nd s t i) = 0}.
     foot n s (tgt (nd s t i)))"

text \<open>The tree and the tables below one node.\<close>

definition view :: "nat \<Rightarrow> walk \<Rightarrow> table_node \<Rightarrow> pnode" where
  "view n s v = PNode (unat (tn_base v)) (unat (tn_limit v)) (attr_of v)
     (if tn_type v = 0 then tree n s (tgt v) else Map.empty)"

definition below :: "nat \<Rightarrow> walk \<Rightarrow> table_node \<Rightarrow> nat set" where
  "below n s v = (if tn_valid v = 1 \<and> tn_type v = 0 then foot n s (tgt v) else {})"

lemma tree_Suc: "tree (Suc n) s t i = (if i < 512 \<and> tn_valid (nd s t i) = 1 then Some (view n s (nd s t i)) else None)"
  by (simp add: view_def)

lemma foot_Suc: "foot (Suc n) s t = insert t (\<Union>i < 512. below n s (nd s t i))"
  by (auto simp: below_def split: if_splits)

declare tree.simps(2) [simp del] foot.simps(2) [simp del]

text \<open>
  Well-formed tables: every table is live and knows how many valid nodes it has, a node of type 0
  points to a non-empty table, and the tables below different nodes are different.
\<close>

primrec wft :: "nat \<Rightarrow> walk \<Rightarrow> nat \<Rightarrow> bool" where
  "wft 0 s t \<longleftrightarrow> False"
| "wft (Suc n) s t \<longleftrightarrow> live s t \<and> unat (ec s t) = card {i. i < 512 \<and> tn_valid (nd s t i) = 1} \<and>
     (\<forall>i < 512. tn_valid (nd s t i) = 1 \<longrightarrow> tn_type (nd s t i) = 0 \<longrightarrow>
        pts (nd s t i) (tgt (nd s t i)) \<and> tgt (nd s t i) \<noteq> 0 \<and> wft n s (tgt (nd s t i)) \<and>
        tree n s (tgt (nd s t i)) \<noteq> Map.empty) \<and>
     (\<forall>i < 512. t \<notin> below n s (nd s t i)) \<and>
     (\<forall>i < 512. \<forall>j < 512. i \<noteq> j \<longrightarrow> below n s (nd s t i) \<inter> below n s (nd s t j) = {})"

definition wfv :: "nat \<Rightarrow> walk \<Rightarrow> table_node \<Rightarrow> bool" where
  "wfv n s v \<longleftrightarrow> (tn_type v = 0 \<longrightarrow> pts v (tgt v) \<and> tgt v \<noteq> 0 \<and> wft n s (tgt v) \<and> tree n s (tgt v) \<noteq> Map.empty)"

lemma wft_Suc: "wft (Suc n) s t \<longleftrightarrow> live s t \<and> unat (ec s t) = card {i. i < 512 \<and> tn_valid (nd s t i) = 1} \<and>
     (\<forall>i < 512. tn_valid (nd s t i) = 1 \<longrightarrow> wfv n s (nd s t i)) \<and>
     (\<forall>i < 512. t \<notin> below n s (nd s t i)) \<and>
     (\<forall>i < 512. \<forall>j < 512. i \<noteq> j \<longrightarrow> below n s (nd s t i) \<inter> below n s (nd s t j) = {})"
  by (simp add: wfv_def)

declare wft.simps(2) [simp del]

lemma wftD:
  assumes "wft (Suc n) s t"
  shows "live s t" "unat (ec s t) = card {i. i < 512 \<and> tn_valid (nd s t i) = 1}"
    "\<And>i. i < 512 \<Longrightarrow> tn_valid (nd s t i) = 1 \<Longrightarrow> wfv n s (nd s t i)" "\<And>i. i < 512 \<Longrightarrow> t \<notin> below n s (nd s t i)"
    "\<And>i j. i < 512 \<Longrightarrow> j < 512 \<Longrightarrow> i \<noteq> j \<Longrightarrow> below n s (nd s t i) \<inter> below n s (nd s t j) = {}"
  using assms unfolding wft_Suc by auto

lemma wft_live: "wft n s t \<Longrightarrow> live s t"
  by (cases n) (auto simp: wft_Suc)

lemma wft_self: "wft n s t \<Longrightarrow> t \<in> foot n s t"
  by (cases n) (auto simp: foot_Suc)

lemma foot_live: "wft n s t \<Longrightarrow> u \<in> foot n s t \<Longrightarrow> live s u"
proof (induction n arbitrary: t)
  case (Suc n)
  from Suc.prems(2) consider "u = t" | i where "i < 512" "u \<in> below n s (nd s t i)" by (auto simp: foot_Suc)
  then show ?case
  proof cases
    case 1
    with Suc.prems(1) show ?thesis by (simp add: wft_live)
  next
    case 2
    then have v: "tn_valid (nd s t i) = 1" "tn_type (nd s t i) = 0" "u \<in> foot n s (tgt (nd s t i))"
      by (auto simp: below_def split: if_splits)
    with wftD(3) [OF Suc.prems(1) 2(1)] have "wft n s (tgt (nd s t i))" by (simp add: wfv_def)
    with Suc.IH v(3) show ?thesis by blast
  qed
qed simp

section \<open>Locality\<close>

definition agree :: "nat set \<Rightarrow> walk \<Rightarrow> walk \<Rightarrow> bool" where
  "agree F s s' \<longleftrightarrow> (\<forall>u \<in> F. live s' u = live s u \<and> ec s' u = ec s u \<and> (\<forall>i < 512. nd s' u i = nd s u i))"

lemma agree_subset: "agree F s s' \<Longrightarrow> G \<subseteq> F \<Longrightarrow> agree G s s'"
  by (auto simp: agree_def)

lemma below_subset: "i < 512 \<Longrightarrow> below n s (nd s t i) \<subseteq> foot (Suc n) s t"
  by (auto simp: foot_Suc)

lemma local_table:
  "agree (foot n s t) s s' \<Longrightarrow> foot n s' t = foot n s t \<and> tree n s' t = tree n s t \<and> wft n s' t = wft n s t"
proof (induction n arbitrary: t)
  case (Suc n)
  have t: "live s' t = live s t" "ec s' t = ec s t" "\<And>i. i < 512 \<Longrightarrow> nd s' t i = nd s t i"
    using Suc.prems by (auto simp: agree_def foot_Suc)
  have IH: "foot n s' (tgt (nd s t i)) = foot n s (tgt (nd s t i)) \<and> tree n s' (tgt (nd s t i)) = tree n s (tgt (nd s t i)) \<and>
      wft n s' (tgt (nd s t i)) = wft n s (tgt (nd s t i))"
    if "i < 512" "tn_valid (nd s t i) = 1" "tn_type (nd s t i) = 0" for i
  proof (rule Suc.IH)
    have "foot n s (tgt (nd s t i)) \<subseteq> foot (Suc n) s t" using that below_subset [of i n s t] by (simp add: below_def)
    with Suc.prems show "agree (foot n s (tgt (nd s t i))) s s'" by (rule agree_subset)
  qed
  have b: "below n s' (nd s' t i) = below n s (nd s t i)" if "i < 512" for i
    using IH [OF that] t(3) [OF that] by (simp add: below_def)
  have "foot (Suc n) s' t = foot (Suc n) s t" by (simp add: foot_Suc b)
  moreover have "tree (Suc n) s' t = tree (Suc n) s t"
    using IH t(3) by (auto simp: fun_eq_iff tree_Suc view_def)
  moreover have "{i. i < 512 \<and> tn_valid (nd s' t i) = 1} = {i. i < 512 \<and> tn_valid (nd s t i) = 1}" using t(3) by auto
  then have "wft (Suc n) s' t = wft (Suc n) s t"
    unfolding wft_Suc using IH t b by (auto simp: wfv_def)
  ultimately show ?case by blast
qed simp

lemma local_node:
  assumes "agree (below n s v) s s'" "tn_valid v = 1"
  shows "below n s' v = below n s v" "view n s' v = view n s v" "wfv n s' v = wfv n s v"
proof -
  have "below n s' v = below n s v \<and> view n s' v = view n s v \<and> wfv n s' v = wfv n s v"
  proof (cases "tn_type v = 0")
    case True
    with assms have "agree (foot n s (tgt v)) s s'" by (simp add: below_def)
    from local_table [OF this] True show ?thesis by (simp add: below_def view_def wfv_def)
  qed (simp add: below_def view_def wfv_def)
  then show "below n s' v = below n s v" "view n s' v = view n s v" "wfv n s' v = wfv n s v" by blast+
qed

text \<open>Replacing one node of a table.\<close>

lemma table_upd:
  assumes wf: "wft (Suc n) s t" and i: "i < 512"
    and nodes: "\<And>j. j < 512 \<Longrightarrow> j \<noteq> i \<Longrightarrow> nd s' t j = nd s t j" "nd s' t i = v"
    and others: "\<And>j. j < 512 \<Longrightarrow> j \<noteq> i \<Longrightarrow> agree (below n s (nd s t j)) s s'"
    and new: "tn_valid v = 1 \<Longrightarrow> wfv n s' v" "t \<notin> below n s' v"
      "\<And>j. j < 512 \<Longrightarrow> j \<noteq> i \<Longrightarrow> below n s (nd s t j) \<inter> below n s' v = {}"
    and cnt: "unat (ec s' t) = card {j. j < 512 \<and> tn_valid (nd s' t j) = 1}" and lv: "live s' t"
  shows "wft (Suc n) s' t" "tree (Suc n) s' t = (tree (Suc n) s t)(i := if tn_valid v = 1 then Some (view n s' v) else None)"
    "foot (Suc n) s' t = insert t ((\<Union>j \<in> {j. j < 512 \<and> j \<noteq> i}. below n s (nd s t j)) \<union> below n s' v)"
proof -
  note w = wftD [OF wf]
  have b: "below n s' (nd s' t j) = below n s (nd s t j)" if "j < 512" "j \<noteq> i" for j
  proof (cases "tn_valid (nd s t j) = 1")
    case True
    then show ?thesis using local_node [OF others [OF that]] nodes(1) [OF that] by simp
  qed (use nodes(1) [OF that] in \<open>simp add: below_def\<close>)
  have vw: "view n s' (nd s' t j) = view n s (nd s t j)" "wfv n s' (nd s' t j) = wfv n s (nd s t j)"
    if "j < 512" "j \<noteq> i" "tn_valid (nd s t j) = 1" for j
    using local_node [OF others [OF that(1,2)] that(3)] nodes(1) [OF that(1,2)] by simp_all
  have "wfv n s' (nd s' t j)" if "j < 512" "tn_valid (nd s' t j) = 1" for j
    using that nodes vw(2) w(3) new(1) by (cases "j = i") auto
  moreover have "t \<notin> below n s' (nd s' t j)" if "j < 512" for j
    using that nodes(2) new(2) b w(4) by (cases "j = i") auto
  moreover have "below n s' (nd s' t j) \<inter> below n s' (nd s' t k) = {}" if "j < 512" "k < 512" "j \<noteq> k" for j k
    using that nodes(2) new(3) [of j] new(3) [of k] b [of j] b [of k] w(5) [of j k]
    by (cases "j = i"; cases "k = i") (auto simp: Int_commute)
  ultimately show "wft (Suc n) s' t" unfolding wft_Suc using cnt lv by blast
  show "tree (Suc n) s' t = (tree (Suc n) s t)(i := if tn_valid v = 1 then Some (view n s' v) else None)"
  proof
    fix j show "tree (Suc n) s' t j = ((tree (Suc n) s t)(i := if tn_valid v = 1 then Some (view n s' v) else None)) j"
      using nodes vw(1) [of j] i by (cases "j = i"; cases "j < 512") (auto simp: tree_Suc)
  qed
  have "(\<Union>j<512. below n s' (nd s' t j)) = (\<Union>j \<in> {j. j < 512 \<and> j \<noteq> i}. below n s' (nd s' t j)) \<union> below n s' (nd s' t i)"
    using i by auto
  also have "\<dots> = (\<Union>j \<in> {j. j < 512 \<and> j \<noteq> i}. below n s (nd s t j)) \<union> below n s' v" using b nodes(2) by simp
  finally show "foot (Suc n) s' t = insert t ((\<Union>j \<in> {j. j < 512 \<and> j \<noteq> i}. below n s (nd s t j)) \<union> below n s' v)"
    by (simp only: foot_Suc)
qed

section \<open>What an operation on a subtree may do\<close>

definition store_ok :: "walk \<Rightarrow> bool" where
  "store_ok s \<longleftrightarrow> blocks_ok s \<and> free_ok s \<and> no_empty s \<and> live s 0"

definition outer :: "nref \<Rightarrow> nat set \<Rightarrow> bool" where
  "outer r F \<longleftrightarrow> (\<forall>u \<in> F. \<forall>i < 512. r \<noteq> lref u i)"

text \<open>
  The tables \<open>F\<close> of a subtree become \<open>F'\<close>: new ones were unused before, dropped ones are unused
  now, and outside of the subtree only the node \<open>r\<close> may change.
\<close>

definition moved :: "nat set \<Rightarrow> nat set \<Rightarrow> nref \<Rightarrow> walk \<Rightarrow> walk \<Rightarrow> bool" where
  "moved F F' r s s' \<longleftrightarrow> store_ok s' \<and> (\<forall>u. live s' u \<longleftrightarrow> live s u \<and> u \<notin> F \<or> u \<in> F') \<and>
     (\<forall>u \<in> F'. live s u \<longrightarrow> u \<in> F) \<and>
     (\<forall>u. live s u \<longrightarrow> u \<notin> F \<longrightarrow> ec s' u = ec s u \<and> (\<forall>i < 512. lref u i \<noteq> r \<longrightarrow> nd s' u i = nd s u i)) \<and>
     (r \<noteq> Local \<longrightarrow> wk_root s' = wk_root s) \<and>
     tc_granted_addr_mng (wk_ctx s') = tc_granted_addr_mng (wk_ctx s)"

lemma movedD:
  assumes "moved F F' r s s'"
  shows "store_ok s'" "live s' u \<longleftrightarrow> live s u \<and> u \<notin> F \<or> u \<in> F'" "u \<in> F' \<Longrightarrow> live s u \<Longrightarrow> u \<in> F"
    "live s u \<Longrightarrow> u \<notin> F \<Longrightarrow> ec s' u = ec s u"
    "live s u \<Longrightarrow> u \<notin> F \<Longrightarrow> i < 512 \<Longrightarrow> lref u i \<noteq> r \<Longrightarrow> nd s' u i = nd s u i"
    "r \<noteq> Local \<Longrightarrow> wk_root s' = wk_root s" "tc_granted_addr_mng (wk_ctx s') = tc_granted_addr_mng (wk_ctx s)"
  using assms unfolding moved_def by blast+

lemma moved_trans:
  assumes "moved F G r s s1" "moved G H r s1 s2"
  shows "moved F H r s s2"
proof -
  note a = movedD [OF assms(1)] and b = movedD [OF assms(2)]
  have keep: "live s1 u \<and> u \<notin> G" if "live s u" "u \<notin> F" for u using a(2) [of u] a(3) [of u] that by blast
  show ?thesis unfolding moved_def
  proof (intro conjI allI impI ballI)
    show "live s2 u \<longleftrightarrow> live s u \<and> u \<notin> F \<or> u \<in> H" for u using a(2) [of u] b(2) [of u] keep [of u] by blast
    show "u \<in> F" if "u \<in> H" "live s u" for u using b(3) [of u] keep [of u] that by blast
  qed (use a b keep in auto)
qed

lemma moved_refl: "store_ok s \<Longrightarrow> (\<And>u. u \<in> F \<Longrightarrow> live s u) \<Longrightarrow> moved F F r s s"
  by (auto simp: moved_def)

lemma moved_agree: "moved F F' (lref t i) s s' \<Longrightarrow> (\<And>u. u \<in> G \<Longrightarrow> live s u \<and> u \<notin> F \<and> u \<noteq> t) \<Longrightarrow> i < 512 \<Longrightarrow> agree G s s'"
  unfolding agree_def using movedD(2,4,5) [of F F' "lref t i" s s'] by (simp add: lref_eq)

lemma moved_widen:
  assumes m: "moved F F' (lref t i) s s'" and R: "\<And>u. u \<in> R \<Longrightarrow> live s u \<and> u \<notin> F" "t \<in> R" "i < 512"
  shows "moved (R \<union> F) (R \<union> F') r s s'"
proof -
  note m' = movedD [OF m]
  show ?thesis unfolding moved_def
  proof (intro conjI allI impI ballI)
    fix u assume u: "live s u" "u \<notin> R \<union> F"
    then show "ec s' u = ec s u" using m'(4) by simp
    fix j :: nat assume "j < 512"
    then have "lref u j \<noteq> lref t i" using u R by auto
    with u m'(5) \<open>j < 512\<close> show "nd s' u j = nd s u j" by simp
  qed (use m' R in \<open>auto simp: lref_eq\<close>)
qed

lemma outer_vref:
  assumes "moved F F' r s s'" "vref s r" "outer r F"
  shows "vref s' r" "outer r F'"
proof -
  consider "r = Local" | u i where "r = lref u i" "live s u" "i < 512" "u \<notin> F"
    using assms(2,3) unfolding vref_def outer_def by blast
  then have "vref s' r \<and> outer r F'"
  proof cases
    case 1
    then show ?thesis by (auto simp: outer_def)
  next
    case 2
    then have "live s' u" "u \<notin> F'" using movedD(2,3) [OF assms(1)] by auto
    with 2 show ?thesis by (auto simp: outer_def)
  qed
  then show "vref s' r" "outer r F'" by auto
qed

text \<open>
  After an operation the tree at table \<open>t\<close>, to which \<open>r\<close> points, is \<open>T'\<close>; an empty table is
  released and unlinked, except the root table, which stays.
\<close>

definition after :: "nat \<Rightarrow> nref \<Rightarrow> nat \<Rightarrow> walk \<Rightarrow> walk \<Rightarrow> ptree \<Rightarrow> bool" where
  "after n r t s s' T' \<longleftrightarrow>
     (if T' = Map.empty \<and> t \<noteq> 0 then moved (foot n s t) {} r s s' \<and> val r s' = unlink_next_level (val r s)
      else moved (foot n s t) (foot n s' t) r s s' \<and> wft n s' t \<and> tree n s' t = T' \<and>
        val r s' = (if T' = Map.empty then unlink_next_level (val r s) else val r s))"

lemma after_ne:
  "T' \<noteq> Map.empty \<Longrightarrow> after n r t s s' T' \<longleftrightarrow>
     moved (foot n s t) (foot n s' t) r s s' \<and> wft n s' t \<and> tree n s' t = T' \<and> val r s' = val r s"
  by (simp add: after_def)

lemma after_store: "after n r t s s' T' \<Longrightarrow> store_ok s'"
  by (auto simp: after_def dest: movedD(1) split: if_splits)

lemma after_refl:
  "store_ok s \<Longrightarrow> wft n s t \<Longrightarrow> tree n s t \<noteq> Map.empty \<Longrightarrow> after n r t s s (tree n s t)"
  by (auto simp: after_ne intro: moved_refl foot_live)

lemma after_trans:
  assumes "after n r t s s1 T1" "T1 \<noteq> Map.empty" "after n r t s1 s2 T2"
  shows "after n r t s s2 T2"
proof -
  from assms(1,2) have a: "moved (foot n s t) (foot n s1 t) r s s1" "val r s1 = val r s" by (auto simp: after_ne)
  from assms(3) a moved_trans [OF a(1)] show ?thesis unfolding after_def by (auto split: if_splits)
qed

lemma unlink_simps [simp]:
  "tn_valid (unlink_next_level v) = tn_valid v" "tn_type (unlink_next_level v) = 1"
  "attr_of (unlink_next_level v) = attr_of v" "tn_base (unlink_next_level v) = tn_base v"
  "tn_limit (unlink_next_level v) = tn_limit v"
  by (simp_all add: unlink_next_level_def attr_of_def tn_base_def tn_limit_def)

text \<open>A change of node \<open>i\<close> and of the tables below it, seen from the table.\<close>

lemma after_node:
  assumes wf: "wft (Suc n) s t" and i: "i < 512" and v: "tn_valid (nd s t i) = 1"
    and mv: "moved (below n s (nd s t i)) (below n s' v') (lref t i) s s'"
    and v': "v' = nd s' t i" "tn_valid v' = 1" "wfv n s' v'"
    and r: "outer r (foot (Suc n) s t)" "vref s r"
  shows "after (Suc n) r t s s' ((tree (Suc n) s t)(i \<mapsto> view n s' v'))"
proof -
  note w = wftD [OF wf]
  let ?F = "below n s (nd s t i)" and ?F' = "below n s' v'"
  have tF: "t \<notin> ?F" by (rule w(4) [OF i])
  define R where "R = insert t (\<Union>j \<in> {j. j < 512 \<and> j \<noteq> i}. below n s (nd s t j))"
  have R: "live s u \<and> u \<notin> ?F" if "u \<in> R" for u
  proof -
    have "u \<in> foot (Suc n) s t" using that by (auto simp: R_def foot_Suc)
    moreover have "u \<notin> ?F" using that tF w(5) [OF _ i] by (auto simp: R_def)
    ultimately show ?thesis using foot_live [OF wf] by blast
  qed
  have RF: "foot (Suc n) s t = R \<union> ?F" using i by (auto simp: foot_Suc R_def)
  have nodes: "nd s' t j = nd s t j" if "j < 512" "j \<noteq> i" for j
    using movedD(5) [OF mv w(1) tF that(1)] that i by simp
  have ect: "ec s' t = ec s t" by (rule movedD(4) [OF mv w(1) tF])
  have "tn_valid (nd s' t j) = tn_valid (nd s t j)" if "j < 512" for j
    using that nodes v v' by (cases "j = i") auto
  then have valid: "{j. j < 512 \<and> tn_valid (nd s' t j) = 1} = {j. j < 512 \<and> tn_valid (nd s t j) = 1}" by auto
  have ag: "agree (below n s (nd s t j)) s s'" if "j < 512" "j \<noteq> i" for j
    by (rule moved_agree [OF mv _ i]) (use that R w(4) in \<open>auto simp: R_def\<close>)
  have dis: "below n s (nd s t j) \<inter> ?F' = {}" if "j < 512" "j \<noteq> i" for j
  proof -
    have "u \<notin> ?F'" if "u \<in> below n s (nd s t j)" for u
      using R [of u] movedD(3) [OF mv, of u] that \<open>j < 512\<close> \<open>j \<noteq> i\<close> by (auto simp: R_def)
    then show ?thesis by auto
  qed
  have tn: "t \<notin> ?F'" using movedD(3) [OF mv, of t] w(1) tF by auto
  have lt: "live s' t" using movedD(2) [OF mv, of t] w(1) tF by simp
  have upd: "wft (Suc n) s' t" "tree (Suc n) s' t = (tree (Suc n) s t)(i := if tn_valid v' = 1 then Some (view n s' v') else None)"
      "foot (Suc n) s' t = insert t ((\<Union>j \<in> {j. j < 512 \<and> j \<noteq> i}. below n s (nd s t j)) \<union> ?F')"
    using table_upd [OF wf i nodes v'(1) [symmetric] ag v'(3) tn dis _ lt] ect valid w(2) by simp_all
  have f': "foot (Suc n) s' t = R \<union> ?F'" using upd(3) by (auto simp: R_def)
  have m: "moved (foot (Suc n) s t) (foot (Suc n) s' t) r s s'"
    unfolding RF f' by (rule moved_widen [OF mv R _ i]) (auto simp: R_def)
  have vr: "val r s' = val r s"
  proof -
    from r consider "r = Local" | u k where "r = lref u k" "live s u" "k < 512" "u \<notin> foot (Suc n) s t"
      unfolding vref_def outer_def by blast
    then show ?thesis
    proof cases
      case 1
      then show ?thesis using movedD(6) [OF mv] by simp
    next
      case 2
      then have "u \<notin> ?F" "u \<noteq> t" by (auto simp: RF R_def)
      with 2 i movedD(5) [OF mv, of u k] show ?thesis by simp
    qed
  qed
  from upd(1,2) m vr v'(2) show ?thesis by (subst after_ne) (auto simp: fun_eq_iff)
qed

text \<open>An operation on the table below node \<open>i\<close>, seen from the table.\<close>

lemma after_kids:
  assumes wf: "wft (Suc n) s t" and i: "i < 512" and v: "v = nd s t i" "tn_valid v = 1" "tn_type v = 0"
    and a: "after n (lref t i) (tgt v) s s' K'" and r: "outer r (foot (Suc n) s t)" "vref s r"
  shows "after (Suc n) r t s s' ((tree (Suc n) s t)(i \<mapsto> PNode (unat (tn_base v)) (unat (tn_limit v)) (attr_of v) K'))"
proof -
  have wv: "pts v (tgt v)" "tgt v \<noteq> 0" "wft n s (tgt v)" using wftD(3) [OF wf i] v by (auto simp: wfv_def)
  define v' where "v' = (if K' = Map.empty then unlink_next_level v else v)"
  have val: "v' = nd s' t i" using a v(1) i wv(2) by (auto simp: after_def v'_def split: if_splits)
  have mv: "moved (below n s (nd s t i)) (below n s' v') (lref t i) s s'"
    using a v wv(2) unfolding after_def v'_def below_def by (auto split: if_splits)
  have view: "view n s' v' = PNode (unat (tn_base v)) (unat (tn_limit v)) (attr_of v) K'"
    using a v wv(2) unfolding after_def v'_def view_def by (auto split: if_splits)
  have wv': "wfv n s' v'" using a v wv unfolding after_def v'_def wfv_def by (auto split: if_splits)
  have "tn_valid v' = 1" "tn_valid (nd s t i) = 1" using v by (simp_all add: v'_def)
  from after_node [OF wf i this(2) mv val this(1) wv' r] show ?thesis by (simp add: view)
qed

section \<open>Single steps on a table\<close>

lemma store_okD: "store_ok s \<Longrightarrow> blocks_ok s" "store_ok s \<Longrightarrow> free_ok s" "store_ok s \<Longrightarrow> no_empty s" "store_ok s \<Longrightarrow> live s 0"
  by (simp_all add: store_ok_def)

lemma store_ok_put_ref:
  assumes "store_ok s" "vref s r"
  shows "store_ok (put_ref r n s)"
proof -
  note pv = put_ref_view [OF store_okD(1) [OF assms(1)] assms(2), where n = n]
  have "lref u i \<noteq> r" if "\<not> live s u" "i < 512" for u i using assms(2) that by (auto simp: vref_def)
  then have "free_ok (put_ref r n s)" using store_okD(2) [OF assms(1)] pv(9) by (auto simp: free_ok_def pv(2-4))
  with pv(1-4) assms(1) show ?thesis by (simp add: store_ok_def no_empty_present)
qed

lemma store_ok_put_ec:
  assumes "store_ok s" "live s t"
  shows "store_ok (put_ec t c s)"
proof -
  note pv = put_ec_view [OF store_okD(1) [OF assms(1)] live_present [OF store_okD(1) [OF assms(1)] assms(2)]]
  have "free_ok (put_ec t c s)" using store_okD(2) [OF assms(1)] assms(2) by (auto simp: free_ok_def pv(2-4))
  with pv assms(1) show ?thesis by (simp add: store_ok_def no_empty_present)
qed

lemma arr_block:
  assumes "blocks_ok s" "live s t"
  obtains blk where "arr_rd (tc_mapt_block_array (wk_ctx s)) (t div 4) = Some (Some blk)"
proof -
  obtain blk where b: "t div 4 < 512" "blk_at (t div 4) s = Some blk"
    by (rule present_block [OF live_present [OF assms]])
  with blocks_ok_lengths(2) [OF assms(1)] show thesis by (intro that [of blk]) (simp add: blk_at_array)
qed

lemma At_lref: "At (t div 4) (512 * (t mod 4) + i) = lref t i"
  by (simp add: lref_def)

lemma find_valid_eq:
  assumes "blocks_ok s" "live s t" "i \<le> 512"
  shows "find_valid (t div 4) (512 * (t mod 4)) i s = Some (find (\<lambda>i. tn_valid (nd s t i) = 1) [i..<512])"
  using assms(3)
proof (induction "512 - i" arbitrary: i)
  case 0
  then show ?case by (simp add: find_valid.simps MAX_MAPT_ENTRY_INDEX_def)
next
  case (Suc k)
  then have i: "i < 512" by simp
  have rd: "rd_node (At (t div 4) (512 * (t mod 4) + i)) s = Some (nd s t i)"
    unfolding At_lref by (rule rd_lref [OF assms(1) live_present [OF assms(1,2)] i])
  from Suc have IH: "find_valid (t div 4) (512 * (t mod 4)) (Suc i) s = Some (find (\<lambda>i. tn_valid (nd s t i) = 1) [Suc i..<512])"
    by (intro Suc.hyps(1)) auto
  show ?case using i rd IH
    by (subst find_valid.simps) (auto simp: MAX_MAPT_ENTRY_INDEX_def upt_conv_Cons)
qed

lemma find_first:
  assumes "blocks_ok s" "live s t" "tree (Suc n) s t \<noteq> Map.empty"
  shows "find_valid (t div 4) (512 * (t mod 4)) 0 s = Some (Some (first (tree (Suc n) s t)))"
proof -
  have "find (\<lambda>i. tree (Suc n) s t i \<noteq> None) [0..<512] = find (\<lambda>i. tn_valid (nd s t i) = 1) [0..<512]"
    by (rule find_cong_set) (auto simp: tree_Suc)
  moreover have "find (\<lambda>i. tree (Suc n) s t i \<noteq> None) [0..<512] \<noteq> None"
  proof -
    from assms(3) obtain j where "tree (Suc n) s t j \<noteq> None" by (metis ext)
    then have "j < 512" "tree (Suc n) s t j \<noteq> None" by (auto simp: tree_Suc split: if_splits)
    then show ?thesis by (auto simp: find_upt_None)
  qed
  ultimately show ?thesis using find_valid_eq [OF assms(1,2), of 0] by (auto simp: first_def)
qed

text \<open>Copying the segment of a node into the node above it.\<close>

lemma region_rsize: "n \<le> 3 \<Longrightarrow> 2 ^ region_bits (3 - n) = rsize n"
proof -
  assume "n \<le> 3"
  then have "39 - 9 * (3 - n) = 9 * n + 12" by presburger
  then show ?thesis by (simp add: region_bits_def rsize_def)
qed

lemma unat_or_shift:
  fixes a :: u64
  assumes "unat a < 2 ^ k" "x < 2 ^ m" "k + m \<le> 48"
  shows "unat (a OR push_bit k (of_nat x)) = x * 2 ^ k + unat a"
proof -
  have "\<not> (bit a j \<and> bit (push_bit k (of_nat x) :: u64) j)" for j
    using bit_less_exp [OF assms(1), of j] by (auto simp: bit_push_bit_iff)
  then have e: "a OR push_bit k (of_nat x) = a + push_bit k (of_nat x)" by (subst disjunctive_add) auto
  have "x * 2 ^ k < 2 ^ m * 2 ^ k" using assms(2) by simp
  also have "\<dots> \<le> 2 ^ 48" using assms(3) unfolding power_add [symmetric] by (intro power_increasing) auto
  finally have x: "x * 2 ^ k < 2 ^ 48" .
  have k: "(2::nat) ^ k \<le> 2 ^ 48" using assms(3) by (intro power_increasing) auto
  have xs: "x < 2 ^ 48" using x by (metis le_less_trans mult.right_neutral mult_le_mono2 one_le_numeral one_le_power)
  have "unat (of_nat x :: u64) = x" using xs by (simp only: unat_of_nat) simp
  moreover have "unat (push_bit k (of_nat x) :: u64) = take_bit LENGTH(64) (push_bit k (unat (of_nat x :: u64)))"
    by (rule unsigned_push_bit_eq)
  ultimately have p: "unat (push_bit k (of_nat x) :: u64) = x * 2 ^ k"
    using x by (simp only: take_bit_eq_mod push_bit_eq_mult [where 'a = nat]) simp
  have "unat a + x * 2 ^ k < 2 ^ LENGTH(64)" using x k assms(1) by simp
  then show ?thesis unfolding e by (subst unat_plus_no_wrap) (simp_all add: p)
qed

lemma swap_info:
  assumes "m \<le> 2" "unat (tn_base w) < rsize m" "unat (tn_limit w) < rsize m" "i < 512"
  obtains v' where "ummu_swap_node_info v w i (2 - m) = Some v'"
    "unat (tn_base v') = i * rsize m + unat (tn_base w)" "unat (tn_limit v') = i * rsize m + unat (tn_limit w)"
    "attr_of v' = attr_of w" "tn_valid v' = tn_valid v" "tn_type v' = tn_type v" "tgt v' = tgt v" "pts v' = pts v"
proof -
  let ?k = "region_bits (Suc (2 - m))"
  have "Suc (2 - m) = 3 - m" using assms(1) by simp
  then have k: "2 ^ ?k = rsize m" using region_rsize [of m] assms(1) by simp
  have kb: "?k + 9 \<le> 39" using assms(1) by (simp add: region_bits_def)
  have arr: "arr_rd g_mapt_range_bits (2 - m + 1) = Some (g_mapt_range_bits ! Suc (2 - m))"
    by (simp add: g_mapt_range_bits_def)
  have sh: "snd (g_mapt_range_bits ! Suc (2 - m)) = ?k"
    using range_bits(1) [of "Suc (2 - m)"] assms(1) by (simp add: MAX_LEVEL_INDEX_def)
  define base where "base = tn_base w OR push_bit ?k (of_nat i)"
  define limit where "limit = tn_limit w OR push_bit ?k (of_nat i)"
  have ub: "unat base = i * rsize m + unat (tn_base w)" "unat limit = i * rsize m + unat (tn_limit w)"
    unfolding base_def limit_def k [symmetric]
    by (rule unat_or_shift [where m = 9]; use assms k kb in simp)+
  have "i * rsize m + rsize m \<le> 512 * rsize m" using assms(4) by (metis Suc_leI mult_Suc add.commute mult_le_mono1)
  also have "\<dots> = 2 ^ (?k + 9)" unfolding k [symmetric] by (simp add: power_add)
  also have "\<dots> \<le> 2 ^ 39" using kb by (intro power_increasing) auto
  finally have lt: "unat base < 2 ^ 39" "unat limit < 2 ^ 39" using ub assms(2,3) by linarith+
  define v' where "v' = v\<lparr>tn_base_low := TABLE_ADDR_LOW base, tn_base_high := ucast (TABLE_ADDR_HIGH base),
    tn_limit_low := TABLE_ADDR_LOW limit, tn_limit_high := ucast (TABLE_ADDR_HIGH limit), tn_nonce := tn_nonce w,
    tn_token_val_0 := tn_token_val_0 w, tn_token_val_1 := tn_token_val_1 w, tn_permission := tn_permission w,
    tn_e_bit := tn_e_bit w, tn_token_check := tn_token_check w\<rparr>"
  have "ummu_swap_node_info v w i (2 - m) = Some v'"
    unfolding ummu_swap_node_info_def arr using sh
    by (cases "g_mapt_range_bits ! Suc (2 - m)") (simp add: Let_def v'_def base_def limit_def)
  moreover have "tn_base v' = base" "tn_limit v' = limit"
    using table_addr_full [of base] table_addr_full [of limit] and_mask_id [OF lt(1)] and_mask_id [OF lt(2)]
    by (simp_all add: v'_def tn_base_def tn_limit_def)
  moreover have "attr_of v' = attr_of w" "tn_valid v' = tn_valid v" "tn_type v' = tn_type v" "tgt v' = tgt v" "pts v' = pts v"
    by (simp_all add: v'_def attr_of_def tgt_def pts_def tn_lv_offset_def fun_eq_iff)
  ultimately show thesis using that ub by simp
qed

lemma moved_put_ref:
  assumes "store_ok s" "vref s r" "outer r F" "\<And>u. u \<in> F \<Longrightarrow> live s u"
  shows "moved F F r s (put_ref r n s)" "agree F s (put_ref r n s)" "val r (put_ref r n s) = n" "vref (put_ref r n s) r"
    "live (put_ref r n s) = live s"
proof -
  note pv = put_ref_view [OF store_okD(1) [OF assms(1)] assms(2), where n = n]
  show "moved F F r s (put_ref r n s)"
    using store_ok_put_ref [OF assms(1,2)] assms(4) pv by (auto simp: moved_def)
  show "agree F s (put_ref r n s)" using pv assms(3) by (auto simp: agree_def outer_def)
  show "val r (put_ref r n s) = n" using pv(7) [OF assms(2)] by simp
  show "vref (put_ref r n s) r" using assms(2) pv(2) by (simp add: vref_def)
  show "live (put_ref r n s) = live s" by (rule pv(2))
qed

lemma put_node_view:
  assumes "store_ok s" "live s t" "i < 512" and s'_def: "s' = put_ec t c (put_nd t i w s)"
  shows "store_ok s'" "live s' = live s" "\<And>u. ec s' u = (if u = t then c else ec s u)"
    "\<And>u j. j < 512 \<Longrightarrow> nd s' u j = (if u = t \<and> j = i then w else nd s u j)"
    "wk_root s' = wk_root s" "wk_lvl s' = wk_lvl s" "tc_granted_addr_mng (wk_ctx s') = tc_granted_addr_mng (wk_ctx s)"
proof -
  note b = store_okD(1) [OF assms(1)]
  have p: "present s t" by (rule live_present [OF b assms(2)])
  note nv = put_nd_view [OF b p assms(3), where n = w]
  note ev = put_ec_view [OF nv(1), of t c] p nv(2)
  have "store_ok (put_nd t i w s)" using store_ok_put_ref [OF assms(1), of "lref t i"] assms(2,3) by simp
  then show "store_ok s'" unfolding s'_def using assms(2) by (intro store_ok_put_ec) auto
  show "live s' = live s" "wk_root s' = wk_root s" "wk_lvl s' = wk_lvl s"
    "tc_granted_addr_mng (wk_ctx s') = tc_granted_addr_mng (wk_ctx s)" by (simp_all add: s'_def)
  show "\<And>u. ec s' u = (if u = t then c else ec s u)" using ev nv(3) p nv(2) unfolding s'_def by simp
  show "\<And>u j. j < 512 \<Longrightarrow> nd s' u j = (if u = t \<and> j = i then w else nd s u j)" using ev nv p unfolding s'_def by simp
qed

lemma put_node_moved:
  assumes s: "store_ok s" and wf: "wft (Suc n) s t" and i: "i < 512" and none: "below n s (nd s t i) = {}"
    and w: "below n s' w = {}" "tn_valid w = 1 \<longrightarrow> wfv n s' w"
    and s': "s' = put_ec t c (put_nd t i w s)"
    and cnt: "unat c = card {j. j < 512 \<and> tn_valid (nd s' t j) = 1}"
  shows "wft (Suc n) s' t" "tree (Suc n) s' t = (tree (Suc n) s t)(i := if tn_valid w = 1 then Some (view n s' w) else None)"
    "foot (Suc n) s' t = foot (Suc n) s t" "moved (foot (Suc n) s t) (foot (Suc n) s' t) r s s'"
    "vref s r \<Longrightarrow> outer r (foot (Suc n) s t) \<Longrightarrow> val r s' = val r s \<and> vref s' r"
proof -
  note W = wftD [OF wf]
  note v = put_node_view [OF s W(1) i s']
  have ag: "agree (below n s (nd s t j)) s s'" if "j < 512" for j
    using v W(4) [OF that] by (auto simp: agree_def)
  have nodes: "nd s' t j = nd s t j" if "j < 512" "j \<noteq> i" for j using v(4) that by simp
  have nodei: "nd s' t i = w" using v(4) i by simp
  have upd: "wft (Suc n) s' t" "tree (Suc n) s' t = (tree (Suc n) s t)(i := if tn_valid w = 1 then Some (view n s' w) else None)"
    "foot (Suc n) s' t = insert t ((\<Union>j \<in> {j. j < 512 \<and> j \<noteq> i}. below n s (nd s t j)) \<union> below n s' w)"
    using table_upd [OF wf i nodes nodei ag w(2) [rule_format]] v(2,3) cnt W(1) w(1) by simp_all
  have "(\<Union>j \<in> {j. j < 512 \<and> j \<noteq> i}. below n s (nd s t j)) = (\<Union>j<512. below n s (nd s t j))" using none by fastforce
  then show f: "foot (Suc n) s' t = foot (Suc n) s t" using upd(3) w(1) by (simp add: foot_Suc)
  show "wft (Suc n) s' t" "tree (Suc n) s' t = (tree (Suc n) s t)(i := if tn_valid w = 1 then Some (view n s' w) else None)"
    by (rule upd)+
  have "t \<in> foot (Suc n) s t" by (simp add: foot_Suc)
  then show "moved (foot (Suc n) s t) (foot (Suc n) s' t) r s s'"
    unfolding f moved_def using v foot_live [OF wf] by (auto split: if_splits)
  assume r: "vref s r" "outer r (foot (Suc n) s t)"
  have "val r s' = val r s"
  proof -
    from r consider "r = Local" | u k where "r = lref u k" "live s u" "k < 512" "u \<noteq> t"
      unfolding vref_def outer_def using \<open>t \<in> foot (Suc n) s t\<close> by blast
    then show ?thesis using v(4,5) by cases auto
  qed
  then show "val r s' = val r s \<and> vref s' r" using r(1) v(2) by (simp add: vref_def)
qed

definition release_table :: "nref \<Rightarrow> walk \<Rightarrow> walk option" where
  "release_table r s = do {
     s4 \<leftarrow> ummu_free_level_block (Some r) s; n4 \<leftarrow> rd_node r s4; wr_node r (unlink_next_level n4) s4 }"

text \<open>The table of the root is never freed: only its link goes.\<close>

lemma release_root:
  assumes s: "store_ok s" and wf: "wft (Suc n) s 0" and emp: "tree (Suc n) s 0 = Map.empty"
    and r: "vref s r" "outer r (foot (Suc n) s 0)" "pts (val r s) 0"
  shows "\<exists>s'. release_table r s = Some s' \<and> after (Suc n) r 0 s s' Map.empty"
proof -
  note ok = store_okD [OF s]
  let ?s' = "put_ref r (unlink_next_level (val r s)) s"
  note pr = moved_put_ref [OF s r(1,2) foot_live [OF wf], where n = "unlink_next_level (val r s)"]
  from local_table [OF pr(2)] have loc: "foot (Suc n) ?s' 0 = foot (Suc n) s 0" "tree (Suc n) ?s' 0 = tree (Suc n) s 0"
    "wft (Suc n) ?s' 0" using wf by auto
  have "ummu_free_level_block (Some r) s = Some s" using free_level_root [OF ok(1) r(1)] r(3) ok(4) by simp
  then show ?thesis
    using loc emp pr(1,3) rd_val [OF ok(1) r(1)] wr_put_ref [OF ok(1) r(1)] by (simp add: release_table_def after_def)
qed

text \<open>Any other table without nodes is freed.\<close>

lemma release_other:
  assumes s: "store_ok s" and l: "live s t" "t \<noteq> 0" and emp: "ec s t = 0" "\<And>j. j < 512 \<Longrightarrow> tn_valid (nd s t j) = 0"
    and r: "vref s r" "outer r {t}" "pts (val r s) t"
  obtains s' where "release_table r s = Some s'" "moved {t} {} r s s'" "val r s' = unlink_next_level (val r s)"
proof (rule free_level_other [OF store_okD(1) [OF s] r(1,3) l store_okD(4) [OF s] store_okD(2) [OF s] emp])
  note ok = store_okD [OF s]
  fix s4
  assume f: "ummu_free_level_block (Some r) s = Some s4" "blocks_ok s4" "free_ok s4"
    "\<And>u. live s4 u \<longleftrightarrow> live s u \<and> u \<noteq> t" "\<And>u. live s4 u \<Longrightarrow> nd s4 u = nd s u" "\<And>u. live s4 u \<Longrightarrow> ec s4 u = ec s u"
    "wk_root s4 = wk_root s" "no_empty s \<Longrightarrow> no_empty s4"
    "tc_granted_addr_mng (wk_ctx s4) = tc_granted_addr_mng (wk_ctx s)"
  have ok4: "store_ok s4" using f(2-4) f(8) ok l(2) by (simp add: store_ok_def)
  from r(1,2) consider "r = Local" | u k where "r = lref u k" "live s u" "k < 512" "u \<noteq> t"
    unfolding vref_def outer_def by blast
  then have "vref s4 r \<and> val r s4 = val r s" using f(4,5,7) by cases auto
  then have r4: "vref s4 r" "val r s4 = val r s" by auto
  let ?s' = "put_ref r (unlink_next_level (val r s4)) s4"
  have "moved {t} {} r s s4" unfolding moved_def using ok4 f(4-7,9) l(1) by auto
  moreover have "moved {} {} r s4 ?s'" by (rule moved_put_ref [OF ok4 r4(1)]) (auto simp: outer_def)
  ultimately have "moved {t} {} r s ?s'" by (rule moved_trans)
  moreover have "release_table r s = Some ?s'"
    using f(1) rd_val [OF f(2) r4(1)] wr_put_ref [OF f(2) r4(1)] by (simp add: release_table_def)
  moreover have "val r ?s' = unlink_next_level (val r s)"
    using moved_put_ref(3) [OF ok4 r4(1), of "{}"] r4(2) by (simp add: outer_def)
  ultimately show thesis by (intro that)
qed (assumption | rule emp)+

text \<open>Dropping a node without a next level; an emptied table is released.\<close>

definition drop_leaf :: "nref \<Rightarrow> nat \<Rightarrow> nat \<Rightarrow> table_node \<Rightarrow> walk \<Rightarrow> walk option" where
  "drop_leaf r t i w s = do {
     s2 \<leftarrow> wr_node (lref t i) w s;
     s3 \<leftarrow> add_entry_cnt (t div 4) (t mod 4) (- 1) s2;
     k \<leftarrow> entry_cnt (t div 4) (t mod 4) s3;
     if k = 0 then release_table r s3 else Some s3 }"

lemma drop_leaf_run:
  assumes "store_ok s" "live s t" "i < 512" and s3: "s3 = put_ec t (ec s t - 1) (put_nd t i w s)"
  shows "drop_leaf r t i w s = (if ec s3 t = 0 then release_table r s3 else Some s3)"
proof -
  note b = store_okD(1) [OF assms(1)]
  have pr: "present s t" by (rule live_present [OF b assms(2)])
  note nv = put_nd_view [OF b pr assms(3), where n = w]
  have "add_entry_cnt (t div 4) (t mod 4) (- 1) (put_nd t i w s) = Some s3"
    using add_entry_cnt_eq [OF nv(1), of t "- 1"] pr nv(2,3) by (simp add: s3)
  moreover have p3: "blocks_ok s3" "present s3 t" using put_ec_view(1,2) [OF nv(1), of t "ec s t - 1"] pr nv(2) by (simp_all add: s3)
  ultimately show ?thesis using wr_lref [OF b pr assms(3)] entry_cnt_eq [OF p3] by (simp add: drop_leaf_def)
qed

lemma drop_leaf_ok:
  assumes s: "store_ok s" and wf: "wft (Suc n) s t" and i: "i < 512"
    and v: "tn_valid (nd s t i) = 1" "tn_type (nd s t i) = 1" and w: "tn_valid w = 0"
    and r: "vref s r" "outer r (foot (Suc n) s t)" "pts (val r s) t"
  shows "\<exists>s'. drop_leaf r t i w s = Some s' \<and> after (Suc n) r t s s' ((tree (Suc n) s t)(i := None))"
proof -
  note W = wftD [OF wf]
  define s3 where "s3 = put_ec t (ec s t - 1) (put_nd t i w s)"
  note pv = put_node_view [OF s W(1) i s3_def] and run = drop_leaf_run [OF s W(1) i s3_def, of r]
  have vs: "{j. j < 512 \<and> tn_valid (nd s3 t j) = 1} = {j. j < 512 \<and> tn_valid (nd s t j) = 1} - {i}"
    using pv(4) w by (auto split: if_splits)
  have iv: "i \<in> {j. j < 512 \<and> tn_valid (nd s t j) = 1}" using i v by simp
  then have "0 < unat (ec s t)" unfolding W(2) by (auto simp: card_gt_0_iff)
  then have "ec s t \<noteq> 0" by auto
  then have cnt: "unat (ec s t - 1) = card {j. j < 512 \<and> tn_valid (nd s3 t j) = 1}"
    unfolding vs using iv W(2) by (simp add: unat_minus_one)
  have none: "below n s (nd s t i) = {}" "below n s3 w = {}" using v w by (simp_all add: below_def)
  have "tn_valid w = 1 \<longrightarrow> wfv n s3 w" using w by simp
  note m = put_node_moved [OF s wf i none this s3_def cnt]
  have T: "tree (Suc n) s3 t = (tree (Suc n) s t)(i := None)" using m(2) w by simp
  have "ec s3 t = 0 \<longleftrightarrow> card {j. j < 512 \<and> tn_valid (nd s3 t j) = 1} = 0"
    using cnt pv(3) [of t] by (metis unat_eq_zero)
  also have "\<dots> \<longleftrightarrow> tree (Suc n) s3 t = Map.empty" by (auto simp: fun_eq_iff tree_Suc)
  finally have ec3: "ec s3 t = 0 \<longleftrightarrow> tree (Suc n) s3 t = Map.empty" .
  show ?thesis
  proof (cases "ec s3 t = 0")
    case False
    with run ec3 m T m(5) [OF r(1,2)] show ?thesis by (auto simp: after_ne)
  next
    case True
    then have E: "tree (Suc n) s3 t = Map.empty" using ec3 by simp
    have emp: "tn_valid (nd s3 t j) = 0" if "j < 512" for j
      using that E by (auto simp: fun_eq_iff tree_Suc split: if_splits)
    have r3: "vref s3 r" "val r s3 = val r s" using m(5) [OF r(1,2)] by auto
    have p3: "pts (val r s3) t" using r3 r(3) by simp
    have o3: "outer r (foot (Suc n) s3 t)" using m(3) r(2) by simp
    show ?thesis
    proof (cases "t = 0")
      case t0: True
      from release_root [OF pv(1), of n r] obtain s' where "release_table r s3 = Some s'" "after (Suc n) r t s3 s' Map.empty"
        using m(1) E r3(1) o3 p3 t0 by auto
      then show ?thesis using run True E T m(4) r3(2) t0 moved_trans by (fastforce simp: after_def)
    next
      case t0: False
      have F: "foot (Suc n) s t = {t}" using m(3) emp by (auto simp: foot_Suc below_def)
      have l3: "live s3 t" using pv(2) W(1) by simp
      obtain s' where "release_table r s3 = Some s'" "moved {t} {} r s3 s'" "val r s' = unlink_next_level (val r s3)"
        using release_other [OF pv(1) l3 t0 True emp r3(1) _ p3] o3 m(3) F by metis
      moreover from this(2) have "moved {t} {} r s s'" using m(3,4) F moved_trans by metis
      ultimately show ?thesis using run True E T F r3(2) t0 by (simp add: after_def)
    qed
  qed
qed

end
