(* ===== verification/Ummu_TableClear.thy ===== *)
theory Ummu_TableClear
  imports Ummu_TableRep
begin

text \<open>
  Clearing: \<^verbatim>\<open>ummu_swap_next_level_node\<close> promotes the first segment of the next level,
  \<^verbatim>\<open>ummu_table_clear_node\<close> removes a node's own segment, \<^verbatim>\<open>ummu_table_clear_head_node\<close> removes the
  pieces of a range inside one region, \<^verbatim>\<open>ummu_table_clear_node_by_level\<close> removes a range.  The
  result is \<open>clear_by_level_ok\<close>: a tiled range is removed completely, nothing else changes, and
  every level table that becomes empty is released.
\<close>

section \<open>Promoting and clearing\<close>

lemma table_pos:
  assumes "pts v t"
  shows "unat (tn_next_lv_index v) = t div 4" "unat (tn_lv_offset v) = 512 * (t mod 4)"
    "unat (tn_lv_offset v) div 512 = t mod 4" "unat (of_nat (unat (tn_lv_offset v) div 512) :: u8) = t mod 4"
proof -
  show p: "unat (tn_next_lv_index v) = t div 4" "unat (tn_lv_offset v) = 512 * (t mod 4)" by (rule pts_nat [OF assms])+
  show d: "unat (tn_lv_offset v) div 512 = t mod 4" by (simp add: p)
  have "t mod 4 < 2 ^ 8" by (rule less_trans [of _ 4]) simp_all
  then show "unat (of_nat (unat (tn_lv_offset v) div 512) :: u8) = t mod 4" unfolding d by (simp only: unat_of_nat) simp
qed

lemma tree_bounds:
  assumes "tree_ok (Suc n) (tree (Suc n) s t)" "i < 512" "tn_valid (nd s t i) = 1"
  shows "unat (tn_base (nd s t i)) \<le> unat (tn_limit (nd s t i))" "unat (tn_base (nd s t i)) < rsize n"
    "unat (tn_limit (nd s t i)) < rsize n" "tn_type (nd s t i) = 0 \<Longrightarrow> tree_ok n (tree n s (tgt (nd s t i)))"
proof -
  have "tree (Suc n) s t i = Some (PNode (unat (tn_base (nd s t i))) (unat (tn_limit (nd s t i))) (attr_of (nd s t i))
      (if tn_type (nd s t i) = 0 then tree n s (tgt (nd s t i)) else Map.empty))" using assms(2,3) by (simp add: tree_Suc view_def)
  note k = tree_okD [OF assms(1) this]
  show "unat (tn_base (nd s t i)) \<le> unat (tn_limit (nd s t i))" "unat (tn_base (nd s t i)) < rsize n"
    "unat (tn_limit (nd s t i)) < rsize n" "tn_type (nd s t i) = 0 \<Longrightarrow> tree_ok n (tree n s (tgt (nd s t i)))"
    using k(2,3,5) by auto
qed

text \<open>
  One step of \<^verbatim>\<open>ummu_swap_next_level_node\<close>: the node takes over the first node of its table; that one is
  in turn replaced from the level below, or dropped.
\<close>

lemma swap_step:
  assumes s: "store_ok s" and r: "vref s r" "outer r (foot (Suc m) s c)" and p: "pts (val r s) c"
    and wf: "wft (Suc m) s c" and K: "K = tree (Suc m) s c" "tree_ok (Suc m) K" "K \<noteq> Map.empty" and m: "m \<le> 2"
  obtains v' s1 where "s1 = put_ref r v' s"
    "unat (tn_base v') = first K * rsize m + unat (tn_base (nd s c (first K)))"
    "unat (tn_limit v') = first K * rsize m + unat (tn_limit (nd s c (first K)))"
    "attr_of v' = attr_of (nd s c (first K))" "tn_valid v' = tn_valid (val r s)" "tn_type v' = tn_type (val r s)"
    "tgt v' = tgt (val r s)" "pts v' = pts (val r s)"
    "ummu_swap_next_level_node r (2 - m) s =
      (if tn_type (nd s c (first K)) = 0 then ummu_swap_next_level_node (lref c (first K)) (3 - m) s1
       else drop_leaf r c (first K) ((nd s c (first K))\<lparr>tn_valid := 0, tn_nonce := 0\<rparr>) s1)"
    "moved (foot (Suc m) s c) (foot (Suc m) s c) r s s1" "agree (foot (Suc m) s c) s s1" "val r s1 = v'" "vref s1 r"
    "live s1 = live s" "nd s1 c (first K) = nd s c (first K)"
proof -
  note ok = store_okD [OF s] and W = wftD [OF wf] and pos = table_pos [OF p] and fp = first_props [OF K(2,3)]
  define v i w where "v = val r s" and "i = first K" and "w = nd s c i"
  have i: "i < 512" using fp(2) by (simp add: i_def)
  have wv: "tn_valid w = 1" using fp(1,2) by (auto simp: K(1) w_def i_def tree_Suc split: if_splits)
  note tb = tree_bounds [OF K(2) [unfolded K(1)] i wv [unfolded w_def], folded w_def]
  obtain v' where v': "ummu_swap_node_info v w i (2 - m) = Some v'"
    "unat (tn_base v') = i * rsize m + unat (tn_base w)" "unat (tn_limit v') = i * rsize m + unat (tn_limit w)"
    "attr_of v' = attr_of w" "tn_valid v' = tn_valid v" "tn_type v' = tn_type v" "tgt v' = tgt v" "pts v' = pts v"
    by (rule swap_info [OF m tb(2,3) i])
  define s1 where "s1 = put_ref r v' s"
  note mp = moved_put_ref [OF s r foot_live [OF wf], of v', folded s1_def]
  have ok1: "blocks_ok s1" using store_okD(1) [OF movedD(1) [OF mp(1)]] .
  have n1: "nd s1 c i = w" using mp(2) wft_self [OF wf] i by (auto simp: agree_def w_def)
  obtain blk where blk: "arr_rd (tc_mapt_block_array (wk_ctx s)) (c div 4) = Some (Some blk)"
    by (rule arr_block [OF ok(1) W(1)])
  have l1: "live s1 c" using W(1) mp(5) by simp
  have rdn: "rd_node (lref c i) s = Some w" "rd_node (lref c i) s1 = Some w"
    using rd_lref [OF ok(1) live_present [OF ok(1) W(1)] i] rd_lref [OF ok1 live_present [OF ok1 l1] i] n1
    by (simp_all add: w_def)
  have lv: "\<not> 3 < 2 - m" "Suc (2 - m) = 3 - m" using m by auto
  have "ummu_swap_next_level_node r (2 - m) s =
      (if tn_type w = 0 then ummu_swap_next_level_node (lref c i) (3 - m) s1
       else drop_leaf r c i (w\<lparr>tn_valid := 0, tn_nonce := 0\<rparr>) s1)"
    using rd_val [OF ok(1) r(1)] wr_put_ref [OF ok(1) r(1)] blk find_first [OF ok(1) W(1), of m] K(3) v'(1) rdn pos lv
    unfolding drop_leaf_def release_table_def
    by (subst ummu_swap_next_level_node.simps)
      (simp add: v_def [symmetric] MAX_LEVEL_INDEX_def MAX_MAPT_ENTRY_INDEX_def Let_def At_lref s1_def [symmetric]
        K(1) [symmetric] i_def [symmetric])
  with v'(2-8) mp n1 show thesis by (intro that [OF s1_def]) (simp_all add: v_def i_def w_def)
qed

lemma swap_ok:
  assumes "store_ok s" "vref s r" "tn_valid (val r s) = 1" "tn_type (val r s) = 0" "wfv n s (val r s)"
    "tree_ok n (tree n s (tgt (val r s)))" "outer r (foot n s (tgt (val r s)))" "n \<le> 3"
  shows "\<exists>s'. ummu_swap_next_level_node r (3 - n) s = Some s' \<and>
    moved (below n s (val r s)) (below n s' (val r s')) r s s' \<and> tn_valid (val r s') = 1 \<and> wfv n s' (val r s') \<and>
    view n s' (val r s') = promote n (tree n s (tgt (val r s)))"
  using assms
proof (induction n arbitrary: r s)
  case 0
  then show ?case by (simp add: wfv_def)
next
  case (Suc m)
  define v where "v = val r s"
  define c where "c = tgt v"
  define K where "K = tree (Suc m) s c"
  note p = Suc.prems(1-8) [folded v_def, folded c_def, folded K_def]
  have wc: "pts v c" "c \<noteq> 0" "wft (Suc m) s c" "K \<noteq> Map.empty"
    using p(4,5) by (auto simp: wfv_def K_def c_def)
  let ?i = "first K"
  define w where "w = nd s c ?i"
  note fp = first_props [OF p(6) wc(4)]
  have wv: "tn_valid w = 1" using fp(1,2) by (auto simp: K_def w_def tree_Suc split: if_splits)
  note tb = tree_bounds [OF p(6) [unfolded K_def] fp(2) wv [unfolded w_def], folded w_def]
  have m2: "m \<le> 2" and lv: "3 - Suc m = 2 - m" using p(8) by auto
  obtain v' s1 where v': "unat (tn_base v') = ?i * rsize m + unat (tn_base w)" "unat (tn_limit v') = ?i * rsize m + unat (tn_limit w)"
    "attr_of v' = attr_of w" "tn_valid v' = tn_valid v" "tn_type v' = tn_type v" "tgt v' = tgt v" "pts v' = pts v"
    and code: "ummu_swap_next_level_node r (2 - m) s =
      (if tn_type w = 0 then ummu_swap_next_level_node (lref c ?i) (3 - m) s1
       else drop_leaf r c ?i (w\<lparr>tn_valid := 0, tn_nonce := 0\<rparr>) s1)"
    and mp: "moved (foot (Suc m) s c) (foot (Suc m) s c) r s s1" "agree (foot (Suc m) s c) s s1" "val r s1 = v'" "vref s1 r"
      "live s1 = live s" and n1: "nd s1 c ?i = w"
    using swap_step [OF p(1,2,7) wc(1) [unfolded v_def] wc(3) K_def p(6) wc(4) m2, folded v_def, folded w_def] by metis
  from local_table [OF mp(2)] have loc: "foot (Suc m) s1 c = foot (Suc m) s c" "tree (Suc m) s1 c = K" "wft (Suc m) s1 c"
    using wc(3) by (auto simp: K_def)
  have ok1: "store_ok s1" by (rule movedD(1) [OF mp(1)])
  have c1: "live s1 c" by (rule wft_live [OF loc(3)])
  have ro1: "outer r (foot (Suc m) s1 c)" using p(7) loc(1) by simp
  define K' where "K' = (if tn_type w = 0 then tree m s (tgt w) else Map.empty)"
  have Ki: "K ?i = Some (PNode (unat (tn_base w)) (unat (tn_limit w)) (attr_of w) K')"
    using fp(2) wv by (simp add: K_def tree_Suc view_def w_def K'_def)
  have "\<exists>s'. ummu_swap_next_level_node r (2 - m) s = Some s' \<and> after (Suc m) r c s1 s' (K(?i := cleared m K'))"
  proof (cases "tn_type w = 0")
    case True
    have ww: "wfv m s1 w" using wftD(3) [OF loc(3) fp(2)] n1 wv by simp
    have agw: "agree (below m s w) s s1" using agree_subset [OF mp(2) below_subset [OF fp(2)]] by (simp add: w_def)
    have tw: "tree m s1 (tgt w) = tree m s (tgt w)" using local_node(2) [OF agw wv] True by (simp add: view_def)
    have bw: "below m s1 w = foot m s1 (tgt w)" using True wv by (simp add: below_def)
    have ow: "outer (lref c ?i) (foot m s1 (tgt w))"
      using wftD(4) [OF loc(3) fp(2)] n1 bw fp(2) unfolding outer_def by (metis lref_eq(1))
    from Suc.IH [OF ok1, of "lref c ?i"] n1 wv True ww tb(4) tw ow c1 fp(2) m2
    obtain s' where s': "ummu_swap_next_level_node (lref c ?i) (3 - m) s1 = Some s'"
      "moved (below m s1 w) (below m s' (nd s' c ?i)) (lref c ?i) s1 s'" "tn_valid (nd s' c ?i) = 1"
      "wfv m s' (nd s' c ?i)" "view m s' (nd s' c ?i) = promote m (tree m s (tgt w))" by auto
    have "after (Suc m) r c s1 s' ((tree (Suc m) s1 c)(?i \<mapsto> view m s' (nd s' c ?i)))"
      using s' n1 wv ro1 mp(4) by (intro after_node [OF loc(3) fp(2)]) auto
    moreover have "K' \<noteq> Map.empty" "K' = tree m s (tgt w)" using ww True tw by (auto simp: K'_def wfv_def)
    ultimately show ?thesis using code s'(1,5) True loc(2) by (simp add: cleared_def)
  next
    case False
    then have "\<exists>s'. drop_leaf r c ?i (w\<lparr>tn_valid := 0, tn_nonce := 0\<rparr>) s1 = Some s' \<and>
        after (Suc m) r c s1 s' ((tree (Suc m) s1 c)(?i := None))"
      using n1 wv mp(3,4) ro1 v'(7) wc(1) by (intro drop_leaf_ok [OF ok1 loc(3) fp(2)]) auto
    then show ?thesis using code False loc(2) by (simp add: cleared_def K'_def)
  qed
  then obtain s' where s': "ummu_swap_next_level_node r (2 - m) s = Some s'" "after (Suc m) r c s1 s' (K(?i := cleared m K'))"
    by blast
  let ?K1 = "K(?i := cleared m K')"
  have pk: "promote (Suc m) K = PNode (unat (tn_base v')) (unat (tn_limit v')) (attr_of v') ?K1"
    using Ki v'(1-3) by (simp add: promote.simps(2) cleared_def)
  have below_s: "below (Suc m) s v = foot (Suc m) s c" using p(3,4) by (simp add: below_def c_def)
  have v1: "val r s' = (if ?K1 = Map.empty then unlink_next_level v' else v')"
    using s'(2) mp(3) wc(2) by (auto simp: after_def split: if_splits)
  have mv: "moved (foot (Suc m) s1 c) (below (Suc m) s' (val r s')) r s1 s'"
    using s'(2) wc(2) p(3,4) v'(4-6) v1 c_def unfolding after_def below_def by (auto split: if_splits)
  have "moved (below (Suc m) s v) (below (Suc m) s' (val r s')) r s s'"
    unfolding below_s using mp(1) mv loc(1) moved_trans by metis
  moreover have "tn_valid (val r s') = 1" using v1 v'(4) p(3) by simp
  moreover have "view (Suc m) s' (val r s') = promote (Suc m) K"
    using s'(2) wc(2) v1 v'(5,6) p(4) c_def unfolding pk after_def view_def by (auto split: if_splits)
  moreover have "wfv (Suc m) s' (val r s')"
    using s'(2) wc v1 v'(5-7) c_def unfolding after_def wfv_def by (auto split: if_splits)
  ultimately show ?case using s'(1) lv unfolding v_def [symmetric] c_def [symmetric] K_def [symmetric] by auto
qed

text \<open>A table that an operation is called on, through the node \<open>r\<close> that points to it.\<close>

definition tab :: "nat \<Rightarrow> nref \<Rightarrow> nat \<Rightarrow> walk \<Rightarrow> bool" where
  "tab n r t s \<longleftrightarrow> store_ok s \<and> wft n s t \<and> tree_ok n (tree n s t) \<and> vref s r \<and> outer r (foot n s t) \<and>
     pts (val r s) t \<and> tn_type (val r s) = 0"

lemma tabD:
  assumes "tab n r t s"
  shows "store_ok s" "wft n s t" "tree_ok n (tree n s t)" "vref s r" "outer r (foot n s t)" "pts (val r s) t"
    "tn_type (val r s) = 0" "blocks_ok s" "live s t" "rd_node r s = Some (val r s)"
    "unat (tn_next_lv_index (val r s)) = t div 4" "unat (tn_lv_offset (val r s)) = 512 * (t mod 4)"
  using assms by (auto simp: tab_def store_ok_def rd_val wft_live table_pos)

lemma tab_rd: "tab n r t s \<Longrightarrow> i < 512 \<Longrightarrow> rd_node (lref t i) s = Some (nd s t i)"
  using rd_lref [OF tabD(8) live_present [OF tabD(8,9)]] by blast

lemma after_tab:
  assumes "tab n r t s" "after n r t s s' T'" "T' \<noteq> Map.empty" "tree_ok n T'"
  shows "tab n r t s'" "tree n s' t = T'"
proof -
  from assms(2,3) have a: "moved (foot n s t) (foot n s' t) r s s'" "wft n s' t" "tree n s' t = T'" "val r s' = val r s"
    by (auto simp: after_ne)
  show "tree n s' t = T'" by (rule a)
  note d = tabD [OF assms(1)]
  show "tab n r t s'" unfolding tab_def
    using movedD(1) [OF a(1)] a(2-4) assms(4) outer_vref [OF a(1) d(4,5)] d(6,7) by simp
qed

lemma tab_node:
  assumes "tab (Suc n) r t s" "tree (Suc n) s t i = Some (PNode b l a K)"
  shows "i < 512" "tn_valid (nd s t i) = 1" "b = unat (tn_base (nd s t i))" "l = unat (tn_limit (nd s t i))" "a = attr_of (nd s t i)"
    "K = (if tn_type (nd s t i) = 0 then tree n s (tgt (nd s t i)) else Map.empty)"
    "K \<noteq> Map.empty \<longleftrightarrow> tn_type (nd s t i) = 0"
proof -
  from assms(2) show c: "i < 512" "tn_valid (nd s t i) = 1" "b = unat (tn_base (nd s t i))" "l = unat (tn_limit (nd s t i))"
    "a = attr_of (nd s t i)" "K = (if tn_type (nd s t i) = 0 then tree n s (tgt (nd s t i)) else Map.empty)"
    by (auto simp: tree_Suc view_def split: if_splits)
  show "K \<noteq> Map.empty \<longleftrightarrow> tn_type (nd s t i) = 0"
    using wftD(3) [OF tabD(2) [OF assms(1)] c(1,2)] c(6) by (auto simp: wfv_def)
qed

lemma tab_kids:
  assumes "tab (Suc n) r t s" "i < 512" "tn_valid (nd s t i) = 1" "tn_type (nd s t i) = 0"
  shows "tab n (lref t i) (tgt (nd s t i)) s"
proof -
  note d = tabD [OF assms(1)]
  note W = wftD [OF d(2)]
  have "outer (lref t i) (foot n s (tgt (nd s t i)))"
    using W(4) [OF assms(2)] assms unfolding outer_def below_def by (metis lref_eq(1))
  then show ?thesis unfolding tab_def
    using W(1) W(3) [OF assms(2,3)] tree_bounds(4) [OF d(3) assms(2,3,4)] d(1) assms by (auto simp: wfv_def)
qed

lemma clear_node_ok:
  assumes t: "tab (Suc n) r t s" and p: "tree (Suc n) s t i = Some (PNode b l a K)" and n: "n \<le> 3"
  shows "\<exists>s'. ummu_table_clear_node (lref t i) (3 - n) r s = Some s' \<and>
    after (Suc n) r t s s' ((tree (Suc n) s t)(i := cleared n K))"
proof -
  note d = tabD [OF t] and c = tab_node [OF t p]
  obtain blk where blk: "arr_rd (tc_mapt_block_array (wk_ctx s)) (t div 4) = Some (Some blk)"
    by (rule arr_block [OF d(8,9)])
  have i: "i < 512" by (rule c(1))
  show ?thesis
  proof (cases "tn_type (nd s t i) = 0")
    case True
    note k = tabD [OF tab_kids [OF t i c(2) True]]
    have ne: "K \<noteq> Map.empty" and K: "K = tree n s (tgt (nd s t i))" using c(6,7) True by auto
    from swap_ok [OF k(1,4), of n] c(2) True wftD(3) [OF d(2) i c(2)] k(3,5) n i
    obtain s' where s': "ummu_swap_next_level_node (lref t i) (3 - n) s = Some s'"
      "moved (below n s (nd s t i)) (below n s' (nd s' t i)) (lref t i) s s'" "tn_valid (nd s' t i) = 1"
      "wfv n s' (nd s' t i)" "view n s' (nd s' t i) = promote n K" using K by auto
    from after_node [OF d(2) i c(2) s'(2) refl s'(3,4) d(5,4)]
    have "after (Suc n) r t s s' ((tree (Suc n) s t)(i := cleared n K))" using s'(5) ne by (simp add: cleared_def)
    moreover have "ummu_table_clear_node (lref t i) (3 - n) r s = Some s'"
      using d(10-12) blk tab_rd [OF t i] True s'(1) by (simp add: ummu_table_clear_node_def Let_def)
    ultimately show ?thesis by blast
  next
    case False
    then have type: "tn_type (nd s t i) = 1" and K: "K = Map.empty" using c(6) by auto
    have "tn_valid zero_table_node = 0" by (simp add: zero_table_node_def table_of_words_def)
    from drop_leaf_ok [OF d(1,2) i c(2) type this d(4-6)] obtain s' where s': "drop_leaf r t i zero_table_node s = Some s'"
      "after (Suc n) r t s s' ((tree (Suc n) s t)(i := None))" by blast
    have "ummu_table_clear_node (lref t i) (3 - n) r s = drop_leaf r t i zero_table_node s"
      using d(10-12) blk tab_rd [OF t i] type
      unfolding drop_leaf_def release_table_def
      by (simp add: ummu_table_clear_node_def ummu_modify_entry_cnt_def INDEX_MAX_SIZE_def MAX_MAPT_ENTRY_INDEX_def Let_def)
    with s' K show ?thesis by (auto simp: cleared_def)
  qed
qed

section \<open>Clearing the head of a range\<close>

definition erased :: "nat \<Rightarrow> ptree \<Rightarrow> ptree \<Rightarrow> nat \<Rightarrow> nat \<Rightarrow> bool" where
  "erased n T T' b l \<longleftrightarrow> changed n T T' b l \<and> (\<forall>x. b \<le> x \<longrightarrow> x \<le> l \<longrightarrow> perm_at n T' x = None)"

lemma erased_trans:
  assumes "erased n T T1 b m" "erased n T1 T2 (Suc m) l" "b \<le> Suc m" "m \<le> l"
  shows "erased n T T2 b l"
proof -
  from assms have c: "changed n T T1 b m" "changed n T1 T2 (Suc m) l" by (auto simp: erased_def)
  have "changed n T T2 b l"
    using changed_trans [OF changed_mono [OF c(1), of b l] changed_mono [OF c(2), of b l]] assms(3,4) by simp
  moreover have "perm_at n T2 x = None" if "b \<le> x" "x \<le> l" for x
    using that assms(1,2) changedD(2) [OF c(2), of x] by (cases "x \<le> m") (auto simp: erased_def)
  ultimately show ?thesis by (simp add: erased_def)
qed

lemma erased_clear:
  assumes "tree_ok (Suc n) T" "T i = Some (PNode b l a K)"
  shows "erased (Suc n) T (T(i := cleared n K)) (i * rsize n + b) (i * rsize n + l)"
  using changed_clear [OF assms] by (simp add: erased_def)

lemma limit_Suc:
  fixes x :: u64
  assumes "unat x < rsize n" "n \<le> 3"
  shows "unat (x + 1) = Suc (unat x)"
proof -
  have "rsize n \<le> 2 ^ 39" unfolding rsize_def using assms(2) by (intro power_increasing) auto
  then have "unat x + unat (1 :: u64) < 2 ^ LENGTH(64)" using assms(1) by simp
  then show ?thesis using unat_plus_no_wrap [of x 1] by simp
qed

text \<open>
  One round of the loop: the entry is cleared, and what promotion puts in its place is the next
  segment of the range, or a segment outside it with the rest of the range below.
\<close>

lemma loop_round:
  assumes t: "tab (Suc n) r t s" and T: "T = tree (Suc n) s t" and p: "T i = Some (PNode nb l g K)" and n: "n \<le> 3"
  obtains s1 where "ummu_table_clear_node (lref t i) (3 - n) r s = Some s1" "after (Suc n) r t s s1 (T(i := cleared n K))"
    "erased (Suc n) T (T(i := cleared n K)) (i * rsize n + nb) (i * rsize n + l)" "tree_ok (Suc n) (T(i := cleared n K))"
    "rd_node r s1 = Some (val r s1)" "i < 512" "nb \<le> l" "tree_ok n K"
proof -
  note d = tabD [OF t]
  have okT: "tree_ok (Suc n) T" using d(3) T by simp
  from clear_node_ok [OF t p [unfolded T] n] obtain s1 where s1: "ummu_table_clear_node (lref t i) (3 - n) r s = Some s1"
    "after (Suc n) r t s s1 (T(i := cleared n K))" using T by auto
  have e: "erased (Suc n) T (T(i := cleared n K)) (i * rsize n + nb) (i * rsize n + l)" by (rule erased_clear [OF okT p])
  have "\<exists>F'. moved (foot (Suc n) s t) F' r s s1" using s1(2) by (auto simp: after_def split: if_splits)
  then have "vref s1 r" using outer_vref(1) d(4,5) by blast
  then have "rd_node r s1 = Some (val r s1)" using rd_val [OF store_okD(1)] after_store [OF s1(2)] by blast
  with s1 e tree_okD(1,2,5) [OF okT p] show thesis by (intro that) (auto simp: erased_def changed_def)
qed

lemma loop_next:
  assumes t: "tab (Suc n) r t s" and e: "tree (Suc n) s t = T(i := cleared n K)"
    and k: "tree_ok n K" "tiled n g K (Suc l) nl" and w: "unat lw = Suc l" "unat nlw = nl"
  shows "if tn_valid (nd s t i) = 1 \<and> lw = tn_base (nd s t i) \<and> tn_limit (nd s t i) \<le> nlw
    then \<exists>l' K'. tree (Suc n) s t i = Some (PNode (Suc l) l' g K') \<and> unat (tn_limit (nd s t i)) = l' \<and> Suc l \<le> l' \<and>
      (l' = nl \<or> l' < nl \<and> tiled n g K' (Suc l') nl) \<and>
      pieces_in (pieces n) (PNode (Suc l) l' g K') (Suc l) nl = pieces n K (Suc l) nl
    else \<exists>b' l' a' K'. tree (Suc n) s t i = Some (PNode b' l' a' K') \<and> apart b' l' (Suc l) nl \<and> tiled n g K' (Suc l) nl"
proof -
  obtain b' l' a' K' where P: "promote n K = PNode b' l' a' K'" by (cases "promote n K")
  have "K \<noteq> Map.empty" using k(2) by auto
  then have T1i: "tree (Suc n) s t i = Some (PNode b' l' a' K')" using P by (simp add: e cleared_def)
  note c = tab_node [OF t T1i] and le = tree_okD(2) [OF tabD(3) [OF t] T1i]
  from promote_tiled [OF k] have pk: "tiled_in (tiled n g) (PNode b' l' a' K') (Suc l) nl g"
    "pieces_in (pieces n) (PNode b' l' a' K') (Suc l) nl = pieces n K (Suc l) nl" by (auto simp: P)
  have base: "lw = tn_base (nd s t i) \<longleftrightarrow> b' = Suc l" using c(3) w(1) by (auto simp: word_unat_eq_iff)
  show ?thesis
  proof (cases "b' = Suc l")
    case True
    then have "l' \<le> nl" "a' = g" "l' = nl \<or> l' < nl \<and> tiled n g K' (Suc l') nl" using pk(1) by (auto simp: tiled_in_def)
    then show ?thesis using True T1i c(2,4) le pk(2) base w(2) by (simp add: word_le_nat_alt)
  next
    case False
    then have "apart b' l' (Suc l) nl" "tiled n g K' (Suc l) nl" using pk(1) by (auto simp: tiled_in_def)
    then show ?thesis using False base T1i by auto
  qed
qed

lemma clear_loop_ok:
  assumes "tab (Suc n) r t s" "T = tree (Suc n) s t" "T i = Some (PNode nb l g K)" "l = nl \<or> l < nl \<and> tiled n g K (Suc l) nl"
    "nl < rsize n" "n \<le> 3" "k + pieces_in (pieces n) (PNode nb l g K) nb nl \<le> 4095" "unat lw = l" "unat nlw = nl"
  shows "\<exists>rest s' T'. clear_head_loop (3 - n) r (lref t i) nlw k lw s = Some (0, rest, s') \<and> after (Suc n) r t s s' T' \<and>
    nb < unat rest \<and> unat rest \<le> Suc nl \<and> erased (Suc n) T T' (i * rsize n + nb) (i * rsize n + (unat rest - 1)) \<and>
    (unat rest \<le> nl \<longrightarrow> (\<exists>b' l' a' K'. T' i = Some (PNode b' l' a' K') \<and> apart b' l' (unat rest) nl \<and> tiled n g K' (unat rest) nl)) \<and>
    (\<forall>x. x \<noteq> i \<longrightarrow> T' x = T x)"
  using assms
proof (induction "nl - l" arbitrary: s T nb l g K k lw rule: less_induct)
  case less
  note t = less.prems(1) and n = less.prems(6)
  let ?z = "rsize n" and ?T1 = "T(i := cleared n K)"
  have l: "l \<le> nl" "l < ?z" using less.prems(4,5) by auto
  obtain s1 where s1: "ummu_table_clear_node (lref t i) (3 - n) r s = Some s1" "after (Suc n) r t s s1 ?T1"
    and e1: "erased (Suc n) T ?T1 (i * ?z + nb) (i * ?z + l)" and ok1: "tree_ok (Suc n) ?T1"
    and rd: "rd_node r s1 = Some (val r s1)" and k: "i < 512" "nb \<le> l" "tree_ok n K"
    by (rule loop_round [OF less.prems(1-3) n])
  have rest: "unat (lw + 1) = Suc l" using limit_Suc [of lw n] less.prems(8) l n by simp
  have cnt: "\<not> MAX_CLEAR_LOOP \<le> Suc k"
  proof -
    have "0 < pieces_in (pieces n) (PNode nb l g K) nb nl" using less.prems(4) by (auto simp: pieces_in_def)
    with less.prems(7) have "Suc k \<le> 4095" by linarith
    then show ?thesis by (simp add: MAX_CLEAR_LOOP_def MAX_LEVEL_INDEX_def MAX_MAPT_ENTRY_INDEX_def)
  qed
  have stops: ?case if "clear_head_loop (3 - n) r (lref t i) nlw k lw s = Some (0, lw + 1, s1)"
    "l < nl \<Longrightarrow> \<exists>b' l' a' K'. ?T1 i = Some (PNode b' l' a' K') \<and> apart b' l' (Suc l) nl \<and> tiled n g K' (Suc l) nl"
    using that s1(2) e1 rest k(2) l(1)
    by (intro exI [of _ "lw + 1"] exI [of _ s1] exI [of _ ?T1]) auto
  show ?case
  proof (cases "tn_type (val r s1) = 0")
    case False
    then have E: "?T1 = Map.empty" using s1(2) tabD(7) [OF t] by (auto simp: after_def split: if_splits)
    then have "K = Map.empty" by (auto simp: cleared_def fun_eq_iff split: if_splits)
    then have "l = nl" using less.prems(4) by auto
    then show ?thesis using s1(1) cnt rd False by (intro stops, subst clear_head_loop.simps) (simp_all add: Let_def)
  next
    case True
    then have ne: "?T1 \<noteq> Map.empty" using s1(2) by (auto simp: after_def split: if_splits)
    note t1 = after_tab [OF t s1(2) ne ok1]
    note rd1 = tab_rd [OF t1(1) k(1)]
    define w where "w = nd s1 t i"
    let ?go = "tn_valid w = 1 \<and> lw + 1 = tn_base w \<and> tn_limit w \<le> nlw"
    have code: "clear_head_loop (3 - n) r (lref t i) nlw k lw s =
        (if ?go then clear_head_loop (3 - n) r (lref t i) nlw (Suc k) (tn_limit w) s1 else Some (0, lw + 1, s1))"
      using s1(1) cnt rd True rd1 by (subst clear_head_loop.simps) (simp add: Let_def w_def)
    note nxt = loop_next [OF t1(1,2) k(3) _ rest less.prems(9), folded w_def]
    show ?thesis
    proof (cases "l < nl \<and> ?go")
      case True
      then have tk: "tiled n g K (Suc l) nl" using less.prems(4) by auto
      from nxt [OF tk] True obtain l' K' where P1: "tree (Suc n) s1 t i = Some (PNode (Suc l) l' g K')"
        and lw': "unat (tn_limit w) = l'" and l': "Suc l \<le> l'" "l' = nl \<or> l' < nl \<and> tiled n g K' (Suc l') nl"
        and pc: "pieces_in (pieces n) (PNode (Suc l) l' g K') (Suc l) nl = pieces n K (Suc l) nl" by auto
      have dec: "nl - l' < nl - l" using True l' by linarith
      have cnt': "Suc k + pieces_in (pieces n) (PNode (Suc l) l' g K') (Suc l) nl \<le> 4095"
        using less.prems(7) True unfolding pc by (simp add: pieces_in_def)
      from less.hyps [OF dec t1(1) refl P1 l'(2) less.prems(5,6) cnt' lw' less.prems(9)] obtain rst s' T' where
        h: "clear_head_loop (3 - n) r (lref t i) nlw (Suc k) (tn_limit w) s1 = Some (0, rst, s')" "after (Suc n) r t s1 s' T'"
          "Suc l < unat rst" "unat rst \<le> Suc nl" "erased (Suc n) (tree (Suc n) s1 t) T' (i * ?z + Suc l) (i * ?z + (unat rst - 1))"
          "unat rst \<le> nl \<longrightarrow> (\<exists>b' l' a' K'. T' i = Some (PNode b' l' a' K') \<and> apart b' l' (unat rst) nl \<and> tiled n g K' (unat rst) nl)"
          "\<forall>x. x \<noteq> i \<longrightarrow> T' x = tree (Suc n) s1 t x"
        by blast
      have "clear_head_loop (3 - n) r (lref t i) nlw k lw s = Some (0, rst, s')" using code h(1) True by simp
      moreover have "after (Suc n) r t s s' T'" by (rule after_trans [OF s1(2) ne h(2)])
      moreover have "erased (Suc n) T T' (i * ?z + nb) (i * ?z + (unat rst - 1))"
        by (rule erased_trans [OF e1]) (use h(3,5) t1(2) k(2) in auto)
      moreover have "nb < unat rst" using h(3) k(2) by linarith
      moreover have "\<forall>x. x \<noteq> i \<longrightarrow> T' x = T x" using h(7) t1(2) by simp
      ultimately show ?thesis using h(4,6) by blast
    next
      case False
      have stop: "\<not> ?go"
      proof
        assume a: ?go
        then have "unat (tn_base w) \<le> unat (tn_limit w)"
          using tree_bounds(1) [OF tabD(3) [OF t1(1)] k(1)] by (simp add: w_def)
        moreover have "unat (tn_base w) = Suc l" using a rest by metis
        moreover have "unat (tn_limit w) \<le> nl" using a less.prems(9) by (simp add: word_le_nat_alt)
        ultimately show False using False a by linarith
      qed
      show ?thesis
      proof (rule stops)
        show "clear_head_loop (3 - n) r (lref t i) nlw k lw s = Some (0, lw + 1, s1)" using code stop by simp
        show "\<exists>b' l' a' K'. ?T1 i = Some (PNode b' l' a' K') \<and> apart b' l' (Suc l) nl \<and> tiled n g K' (Suc l) nl" if "l < nl"
          using nxt [of g] that less.prems(4) stop unfolding t1(2) by auto
      qed
    qed
  qed
qed

text \<open>Only the views of the tables matter, not \<^verbatim>\<open>data_info->lvl\<close>.\<close>

lemma tab_lvl:
  "tree n (s\<lparr>wk_lvl := x\<rparr>) t = tree n s t" "foot n (s\<lparr>wk_lvl := x\<rparr>) t = foot n s t"
  "tab n r t (s\<lparr>wk_lvl := x\<rparr>) = tab n r t s" "after n r t (s\<lparr>wk_lvl := x\<rparr>) s' T' = after n r t s s' T'"
proof -
  have "agree (foot n s t) s (s\<lparr>wk_lvl := x\<rparr>)" by (simp add: agree_def)
  from local_table [OF this] have w: "wft n (s\<lparr>wk_lvl := x\<rparr>) t = wft n s t"
    and e: "tree n (s\<lparr>wk_lvl := x\<rparr>) t = tree n s t" "foot n (s\<lparr>wk_lvl := x\<rparr>) t = foot n s t" by auto
  show "tree n (s\<lparr>wk_lvl := x\<rparr>) t = tree n s t" "foot n (s\<lparr>wk_lvl := x\<rparr>) t = foot n s t" by (rule e)+
  have v: "val q (s\<lparr>wk_lvl := x\<rparr>) = val q s" for q by (simp add: val_def split: nref.splits)
  have "store_ok (s\<lparr>wk_lvl := x\<rparr>) = store_ok s" by (simp add: store_ok_def free_ok_def no_empty_present)
  then show "tab n r t (s\<lparr>wk_lvl := x\<rparr>) = tab n r t s" by (simp add: tab_def e w v vref_def)
  have "moved F F' r (s\<lparr>wk_lvl := x\<rparr>) s' = moved F F' r s s'" for F F' by (simp add: moved_def)
  then show "after n r t (s\<lparr>wk_lvl := x\<rparr>) s' T' = after n r t s s' T'" by (simp add: after_def e v)
qed

lemma erased_kids:
  assumes "tree_ok (Suc n) T" "T i = Some (PNode b l a K)" "erased n K K' nb nl" "apart b l nb nl" "nb \<le> nl" "nl < rsize n"
  shows "erased (Suc n) T (T(i \<mapsto> PNode b l a K')) (i * rsize n + nb) (i * rsize n + nl)"
proof -
  note c = changed_kids [OF assms(1,2) _ assms(4-6), of K']
  have ch: "changed n K K' nb nl" using assms(3) by (simp add: erased_def)
  have "perm_at (Suc n) (T(i \<mapsto> PNode b l a K')) x = None" if "i * rsize n + nb \<le> x" "x \<le> i * rsize n + nl" for x
  proof -
    define y where "y = x - i * rsize n"
    have y: "x = i * rsize n + y" using that(1) by (simp add: y_def)
    with that have "nb \<le> y" "y \<le> nl" by auto
    with c(2) [OF ch] y assms(3) show ?thesis by (simp add: erased_def)
  qed
  with c(1) [OF ch] show ?thesis by (simp add: erased_def)
qed

text \<open>What clearing a range one level down does; \<open>f\<close> is the call.\<close>

definition clears :: "nat \<Rightarrow> (nref \<Rightarrow> u64 \<Rightarrow> u64 \<Rightarrow> walk \<Rightarrow> (int \<times> walk) option) \<Rightarrow> bool" where
  "clears n f \<longleftrightarrow> (\<forall>r t s g b l. tab n r t s \<longrightarrow> tiled n g (tree n s t) (unat b) (unat l) \<longrightarrow> unat l < rsize n \<longrightarrow>
     (\<exists>s' T'. f r b l s = Some (0, s') \<and> after n r t s s' T' \<and> erased n (tree n s t) T' (unat b) (unat l)))"

lemma clears_kids:
  assumes f: "clears n f" and t: "tab (Suc n) r t s" and p: "tree (Suc n) s t i = Some (PNode b l a K)"
    and k: "tiled n g K (unat nb) (unat nl)" "apart b l (unat nb) (unat nl)" "unat nl < rsize n"
  shows "\<exists>s' K'. f (lref t i) nb nl s = Some (0, s') \<and> after (Suc n) r t s s' ((tree (Suc n) s t)(i \<mapsto> PNode b l a K')) \<and>
    erased (Suc n) (tree (Suc n) s t) ((tree (Suc n) s t)(i \<mapsto> PNode b l a K')) (i * rsize n + unat nb) (i * rsize n + unat nl)"
proof -
  note c = tab_node [OF t p] and d = tabD [OF t]
  have ty: "tn_type (nd s t i) = 0" using c(7) k(1) by auto
  have K: "K = tree n s (tgt (nd s t i))" using c(6) ty by simp
  from f tab_kids [OF t c(1,2) ty] k(1,3) K obtain s' K' where
    s': "f (lref t i) nb nl s = Some (0, s')" "after n (lref t i) (tgt (nd s t i)) s s' K'" "erased n K K' (unat nb) (unat nl)"
    unfolding clears_def by metis
  from after_kids [OF d(2) c(1) refl c(2) ty s'(2) d(5,4)] c(3-5)
  have "after (Suc n) r t s s' ((tree (Suc n) s t)(i \<mapsto> PNode b l a K'))" by simp
  moreover have "erased (Suc n) (tree (Suc n) s t) ((tree (Suc n) s t)(i \<mapsto> PNode b l a K')) (i * rsize n + unat nb) (i * rsize n + unat nl)"
    by (rule erased_kids [OF d(3) p s'(3) k(2) tiled_le [OF k(1)] k(3)])
  ultimately show ?thesis using s'(1) by blast
qed

lemma max_pieces_bound: "n \<le> 3 \<Longrightarrow> max_pieces n \<le> 3585"
proof -
  assume "n \<le> 3"
  then consider "n = 0" | "n = Suc 0" | "n = Suc (Suc 0)" | "n = Suc (Suc (Suc 0))" by linarith
  then show ?thesis by cases simp_all
qed

lemma clear_head_ok:
  assumes f: "clears n f" and t: "tab (Suc n) r t s" and n: "n \<le> 3"
    and p: "tree (Suc n) s t i = Some p" "tiled_in (tiled n g) p (unat nb) (unat nl) g" "unat nb \<le> unat nl" "unat nl < rsize n"
  shows "\<exists>s' T'. ummu_table_clear_head_node f (3 - n) r (lref t i) nb nl s = Some (0, s') \<and> after (Suc n) r t s s' T' \<and>
    erased (Suc n) (tree (Suc n) s t) T' (i * rsize n + unat nb) (i * rsize n + unat nl) \<and>
    (\<forall>x. x \<noteq> i \<longrightarrow> T' x = tree (Suc n) s t x)"
proof -
  obtain b l a K where P: "p = PNode b l a K" by (cases p)
  note pT = p(1) [unfolded P]
  note c = tab_node [OF t pT] and d = tabD [OF t]
  note rd = tab_rd [OF t c(1)]
  let ?T = "tree (Suc n) s t" and ?z = "rsize n"
  show ?thesis
  proof (cases "b = unat nb")
    case True
    then have base: "tn_base (nd s t i) = nb" using c(3) by (simp add: word_unat_eq_iff)
    from p(2) True have a: "a = g" and l: "l = unat nl \<or> l < unat nl \<and> tiled n g K (Suc l) (unat nl)"
      by (auto simp: P tiled_in_def)
    have pT': "?T i = Some (PNode (unat nb) l g K)" using pT True a by simp
    have cnt: "0 + pieces_in (pieces n) (PNode (unat nb) l g K) (unat nb) (unat nl) \<le> 4095"
      using pieces_in_bound [OF p(2) p(4) p(3)] max_pieces_bound [OF n] P True a by simp
    define s0 where "s0 = s\<lparr>wk_lvl := min (3 - n) (wk_lvl s)\<rparr>"
    have t0: "tab (Suc n) r t s0" "?T = tree (Suc n) s0 t" using t by (simp_all add: s0_def tab_lvl)
    have lw: "unat (tn_limit (nd s t i)) = l" using c(4) by simp
    from clear_loop_ok [OF t0 pT' l p(4) n cnt lw refl] obtain rest s1 T1 where
      h: "clear_head_loop (3 - n) r (lref t i) nl 0 (tn_limit (nd s t i)) s0 = Some (0, rest, s1)" "after (Suc n) r t s0 s1 T1"
        "unat nb < unat rest" "unat rest \<le> Suc (unat nl)" "erased (Suc n) ?T T1 (i * ?z + unat nb) (i * ?z + (unat rest - 1))"
        "unat rest \<le> unat nl \<longrightarrow> (\<exists>b' l' a' K'. T1 i = Some (PNode b' l' a' K') \<and> apart b' l' (unat rest) (unat nl) \<and> tiled n g K' (unat rest) (unat nl))"
        "\<forall>x. x \<noteq> i \<longrightarrow> T1 x = ?T x" by blast
    have a1: "after (Suc n) r t s s1 T1" using h(2) by (simp add: s0_def tab_lvl)
    have ok1: "tree_ok (Suc n) T1" using h(5) by (simp add: erased_def changed_def)
    have vr1: "rd_node r s1 = Some (val r s1)"
    proof -
      have "\<exists>F'. moved (foot (Suc n) s t) F' r s s1" using a1 by (auto simp: after_def split: if_splits)
      then have "vref s1 r" using outer_vref(1) d(4,5) by blast
      then show ?thesis using rd_val [OF store_okD(1)] after_store [OF a1] by simp
    qed
    have code: "ummu_table_clear_head_node f (3 - n) r (lref t i) nb nl s =
      (if tn_type (val r s1) = 0 \<and> rest \<le> nl then do {
         cur1 \<leftarrow> rd_node (lref t i) s1;
         if tn_valid cur1 = 1 \<and> tn_type cur1 = 0 then f (lref t i) rest nl s1 else Some (0, s1) } else Some (0, s1))"
      using rd base h(1) vr1 by (simp add: ummu_table_clear_head_node_def s0_def [symmetric] Let_def)
    show ?thesis
    proof (cases "unat rest \<le> unat nl")
      case False
      then have "i * ?z + (unat rest - 1) = i * ?z + unat nl" using h(4) by simp
      with h(5) have "erased (Suc n) ?T T1 (i * ?z + unat nb) (i * ?z + unat nl)" by (simp only:)
      moreover have "ummu_table_clear_head_node f (3 - n) r (lref t i) nb nl s = Some (0, s1)"
        unfolding code using False by (simp add: word_le_nat_alt)
      ultimately show ?thesis using a1 h(7) by blast
    next
      case True
      from h(6) True obtain b' l' a' K' where k: "T1 i = Some (PNode b' l' a' K')" "apart b' l' (unat rest) (unat nl)" "tiled n g K' (unat rest) (unat nl)"
        by blast
      have ne: "T1 \<noteq> Map.empty" using k(1) by auto
      note t1 = after_tab [OF t a1 ne ok1]
      have k1: "tree (Suc n) s1 t i = Some (PNode b' l' a' K')" using k(1) t1(2) by simp
      note c1 = tab_node [OF t1(1) k1]
      have ty: "tn_type (nd s1 t i) = 0" using c1(7) k(3) by auto
      from clears_kids [OF f t1(1) k1 k(3,2) p(4)] obtain s' K'' where
        e: "f (lref t i) rest nl s1 = Some (0, s')" "after (Suc n) r t s1 s' (T1(i \<mapsto> PNode b' l' a' K''))"
          "erased (Suc n) T1 (T1(i \<mapsto> PNode b' l' a' K'')) (i * ?z + unat rest) (i * ?z + unat nl)" using t1(2) by auto
      have "ummu_table_clear_head_node f (3 - n) r (lref t i) nb nl s = Some (0, s')"
        unfolding code using tabD(7) [OF t1(1)] True tab_rd [OF t1(1) c1(1)] c1(2) ty e(1) by (simp add: word_le_nat_alt)
      moreover have "after (Suc n) r t s s' (T1(i \<mapsto> PNode b' l' a' K''))" by (rule after_trans [OF a1 ne e(2)])
      moreover have "erased (Suc n) ?T (T1(i \<mapsto> PNode b' l' a' K'')) (i * ?z + unat nb) (i * ?z + unat nl)"
        by (rule erased_trans [OF h(5)]) (use e(3) h(3) True in auto)
      moreover have "\<forall>x. x \<noteq> i \<longrightarrow> (T1(i \<mapsto> PNode b' l' a' K'')) x = ?T x" using h(7) by simp
      ultimately show ?thesis by blast
    qed
  next
    case False
    then have base: "tn_base (nd s t i) \<noteq> nb" using c(3) by auto
    from p(2) False have k: "tiled n g K (unat nb) (unat nl)" "apart b l (unat nb) (unat nl)" by (auto simp: P tiled_in_def)
    have ty: "tn_type (nd s t i) = 0" using c(7) k(1) by auto
    have "ummu_table_clear_head_node f (3 - n) r (lref t i) nb nl s = f (lref t i) nb nl s"
      using rd base ty by (simp add: ummu_table_clear_head_node_def)
    with clears_kids [OF f t pT k p(4)] show ?thesis by (metis fun_upd_other)
  qed
qed

section \<open>Clearing a range\<close>

text \<open>The parts of a range in node \<open>i\<close>, as the code computes them.\<close>

lemma level_words:
  fixes b l :: u64
  assumes "n \<le> 3" "unat b < rsize (Suc n)" "unat l < rsize (Suc n)"
  shows "unat (GET_LEVEL_BLOCK_INDEX b (3 - n)) = unat b div rsize n"
    "unat (if i = unat b div rsize n then b AND GET_LEVEL_RANGE_MASK (3 - n) else 0) = lo (rsize n) (unat b) i"
    "unat (if i = unat l div rsize n then l AND GET_LEVEL_RANGE_MASK (3 - n) else GET_LEVEL_RANGE_MASK (3 - n)) = hi (rsize n) (unat l) i"
    "unat b div rsize n < 512"
proof -
  have lv: "3 - n \<le> MAX_LEVEL_INDEX" by (simp add: MAX_LEVEL_INDEX_def)
  note r = region_rsize [OF assms(1)]
  show d: "unat b div rsize n < 512" using assms(2) by (simp add: rsize_Suc less_mult_imp_div_less)
  show "unat (GET_LEVEL_BLOCK_INDEX b (3 - n)) = unat b div rsize n" using d by (simp add: unat_block_index [OF lv] r)
  show "unat (if i = unat b div rsize n then b AND GET_LEVEL_RANGE_MASK (3 - n) else 0) = lo (rsize n) (unat b) i"
    by (simp add: lo_def unat_and_range_mask [OF lv] r)
  show "unat (if i = unat l div rsize n then l AND GET_LEVEL_RANGE_MASK (3 - n) else GET_LEVEL_RANGE_MASK (3 - n)) = hi (rsize n) (unat l) i"
    by (simp add: hi_def unat_and_range_mask [OF lv] unat_range_mask [OF lv] r)
qed

definition lo_word :: "nat \<Rightarrow> u64 \<Rightarrow> nat \<Rightarrow> u64" where
  "lo_word n b i = (if i = unat b div rsize n then b AND GET_LEVEL_RANGE_MASK (3 - n) else 0)"

definition hi_word :: "nat \<Rightarrow> u64 \<Rightarrow> nat \<Rightarrow> u64" where
  "hi_word n l i = (if i = unat l div rsize n then l AND GET_LEVEL_RANGE_MASK (3 - n) else GET_LEVEL_RANGE_MASK (3 - n))"

definition clear_body :: "nat \<Rightarrow> nref \<Rightarrow> nat \<Rightarrow> u64 \<Rightarrow> u64 \<Rightarrow> nat \<Rightarrow> walk \<Rightarrow> (int \<times> walk) option" where
  "clear_body n r t b l i s = do {
     cur_node \<leftarrow> rd_node (lref t i) s;
     if tn_valid cur_node = 0 then Some (- EINVAL, s)
     else if unat b div rsize n < i \<and> i < unat l div rsize n then do {
       s1 \<leftarrow> ummu_table_clear_node (lref t i) (3 - n) r s; Some (0, s1) }
     else ummu_table_clear_head_node (ummu_table_clear_node_by_level (Suc (3 - n))) (3 - n) r (lref t i)
       (lo_word n b i) (hi_word n l i) s }"

lemma clear_by_level_eq:
  assumes t: "tab (Suc n) r t s" and n: "n \<le> 3" and b: "unat b < rsize (Suc n)" "unat l < rsize (Suc n)"
  shows "ummu_table_clear_node_by_level (3 - n) r b l s =
    for_ret (clear_body n r t b l) [unat b div rsize n..<Suc (unat l div rsize n)] s"
proof -
  note d = tabD [OF t]
  obtain blk where blk: "arr_rd (tc_mapt_block_array (wk_ctx s)) (t div 4) = Some (Some blk)"
    by (rule arr_block [OF d(8,9)])
  note bw = level_words [OF n b] and lw = level_words(1) [OF n b(2,2)]
  have lv: "(MAX_LEVEL_INDEX < 3 - n) = False" by (simp add: MAX_LEVEL_INDEX_def)
  show ?thesis
    by (subst ummu_table_clear_node_by_level.simps)
      (simp only: d(10-12) blk lv Let_def At_lref bw(1) lw clear_body_def [abs_def] lo_word_def hi_word_def
        bind.simps if_False option.distinct Suc_eq_plus1 [symmetric])
qed

definition good_node :: "nat \<Rightarrow> grant_attr \<Rightarrow> ptree \<Rightarrow> nat \<Rightarrow> nat \<Rightarrow> nat \<Rightarrow> bool" where
  "good_node n g T b l i \<longleftrightarrow> (\<exists>p. T i = Some p \<and> tiled_in (tiled n g) p (lo (rsize n) b i) (hi (rsize n) l i) g \<and>
     (b div rsize n < i \<longrightarrow> i < l div rsize n \<longrightarrow> p = PNode 0 (rsize n - 1) g Map.empty))"

lemma tiled_good: "tiled (Suc n) g T b l \<Longrightarrow> b div rsize n \<le> k \<Longrightarrow> k \<le> l div rsize n \<Longrightarrow> good_node n g T b l k"
  using tiled_node [of n g T b l k] unfolding good_node_def by metis

lemma good_tiled:
  assumes "b \<le> l" "\<And>k. b div rsize n \<le> k \<Longrightarrow> k \<le> l div rsize n \<Longrightarrow> good_node n g T b l k"
  shows "tiled (Suc n) g T b l"
proof (rule tiledI [OF assms(1)])
  fix i assume "b div rsize n \<le> i" "i \<le> l div rsize n"
  from assms(2) [OF this] show "\<exists>p. T i = Some p \<and> tiled_in (tiled n g) p (lo (rsize n) b i) (hi (rsize n) l i) g"
    by (auto simp: good_node_def)
next
  fix i assume i: "b div rsize n < i" "i < l div rsize n"
  with assms(2) [of i] show "T i = Some (PNode 0 (rsize n - 1) g Map.empty)" by (auto simp: good_node_def)
qed

lemma clear_body_ok:
  assumes f: "clears n (ummu_table_clear_node_by_level (Suc (3 - n)))" and t: "tab (Suc n) r t s" and n: "n \<le> 3"
    and b: "unat b < rsize (Suc n)" "unat l < rsize (Suc n)" "unat b \<le> unat l"
    and g: "good_node n g (tree (Suc n) s t) (unat b) (unat l) i"
  shows "\<exists>s' T'. clear_body n r t b l i s = Some (0, s') \<and> after (Suc n) r t s s' T' \<and>
    erased (Suc n) (tree (Suc n) s t) T' (i * rsize n + lo (rsize n) (unat b) i) (i * rsize n + hi (rsize n) (unat l) i) \<and>
    (\<forall>x. x \<noteq> i \<longrightarrow> T' x = tree (Suc n) s t x)"
proof -
  let ?z = "rsize n" and ?T = "tree (Suc n) s t"
  from g obtain p where p: "?T i = Some p" "tiled_in (tiled n g) p (lo ?z (unat b) i) (hi ?z (unat l) i) g"
    "unat b div ?z < i \<Longrightarrow> i < unat l div ?z \<Longrightarrow> p = PNode 0 (?z - 1) g Map.empty" by (auto simp: good_node_def)
  obtain b' l' a K where P: "p = PNode b' l' a K" by (cases p)
  note c = tab_node [OF t p(1) [unfolded P]]
  note rd = tab_rd [OF t c(1)]
  note w = level_words(2,3) [OF n b(1,2), of i, folded lo_word_def hi_word_def]
  show ?thesis
  proof (cases "unat b div ?z < i \<and> i < unat l div ?z")
    case True
    with p(3) P have e: "b' = 0" "l' = ?z - 1" "K = Map.empty" by auto
    from clear_node_ok [OF t p(1) [unfolded P] n] obtain s' where s': "ummu_table_clear_node (lref t i) (3 - n) r s = Some s'"
      "after (Suc n) r t s s' (?T(i := cleared n K))" by blast
    have "erased (Suc n) ?T (?T(i := cleared n K)) (i * ?z + b') (i * ?z + l')"
      by (rule erased_clear [OF tabD(3) [OF t] p(1) [unfolded P]])
    moreover have "lo ?z (unat b) i = 0" "hi ?z (unat l) i = ?z - 1" using True by (auto simp: lo_def hi_def)
    moreover have "clear_body n r t b l i s = Some (0, s')" using rd c(2) True s'(1) by (simp add: clear_body_def)
    ultimately show ?thesis using s'(2) e by (intro exI [of _ s'] exI [of _ "?T(i := cleared n K)"]) simp
  next
    case False
    have "clear_body n r t b l i s = ummu_table_clear_head_node (ummu_table_clear_node_by_level (Suc (3 - n))) (3 - n) r (lref t i)
       (lo_word n b i) (hi_word n l i) s" using rd c(2) False by (auto simp: clear_body_def)
    moreover have "unat (lo_word n b i) \<le> unat (hi_word n l i)" "unat (hi_word n l i) < ?z"
      unfolding w using lo_le_hi [OF rsize_pos(1) b(3)] by auto
    ultimately show ?thesis using clear_head_ok [OF f t n p(1)] p(2) w by metis
  qed
qed

lemma clear_loop_nodes:
  assumes f: "clears n (ummu_table_clear_node_by_level (Suc (3 - n)))" and n: "n \<le> 3"
    and b: "unat b < rsize (Suc n)" "unat l < rsize (Suc n)" "unat b \<le> unat l"
  shows "i < j \<Longrightarrow> j \<le> Suc (unat l div rsize n) \<Longrightarrow> unat b div rsize n \<le> i \<Longrightarrow> tab (Suc n) r t s \<Longrightarrow>
    (\<And>k. i \<le> k \<Longrightarrow> k < j \<Longrightarrow> good_node n g (tree (Suc n) s t) (unat b) (unat l) k) \<Longrightarrow>
    \<exists>s' T'. for_ret (clear_body n r t b l) [i..<j] s = Some (0, s') \<and> after (Suc n) r t s s' T' \<and>
      erased (Suc n) (tree (Suc n) s t) T' (i * rsize n + lo (rsize n) (unat b) i) ((j - 1) * rsize n + hi (rsize n) (unat l) (j - 1)) \<and>
      (\<forall>x. x < i \<or> j \<le> x \<longrightarrow> T' x = tree (Suc n) s t x)"
proof (induction "j - i" arbitrary: i s)
  case 0
  then show ?case by simp
next
  case (Suc k)
  let ?z = "rsize n" and ?T = "tree (Suc n) s t"
  from clear_body_ok [OF f Suc.prems(4) n b Suc.prems(5) [OF order_refl Suc.prems(1)]] obtain s1 T1 where
    s1: "clear_body n r t b l i s = Some (0, s1)" "after (Suc n) r t s s1 T1"
      "erased (Suc n) ?T T1 (i * ?z + lo ?z (unat b) i) (i * ?z + hi ?z (unat l) i)" "\<forall>x. x \<noteq> i \<longrightarrow> T1 x = ?T x" by blast
  have list: "[i..<j] = i # [Suc i..<j]" using Suc.prems(1) by (rule upt_conv_Cons)
  show ?case
  proof (cases "Suc i = j")
    case True
    then show ?thesis using s1 list by auto
  next
    case False
    then have lt: "Suc i < j" using Suc.prems(1) by simp
    have good: "good_node n g T1 (unat b) (unat l) x" if "Suc i \<le> x" "x < j" for x
      using Suc.prems(5) [of x] that s1(4) by (auto simp: good_node_def)
    then have ne: "T1 \<noteq> Map.empty" using good [of "Suc i"] lt by (auto simp: good_node_def)
    have ok1: "tree_ok (Suc n) T1" using s1(3) by (simp add: erased_def changed_def)
    note t1 = after_tab [OF Suc.prems(4) s1(2) ne ok1]
    from Suc.hyps(2) have "k = j - Suc i" by simp
    from Suc.hyps(1) [OF this lt Suc.prems(2) _ t1(1)] good Suc.prems(3) t1(2) obtain s' T' where
      h: "for_ret (clear_body n r t b l) [Suc i..<j] s1 = Some (0, s')" "after (Suc n) r t s1 s' T'"
        "erased (Suc n) T1 T' (Suc i * ?z + lo ?z (unat b) (Suc i)) ((j - 1) * ?z + hi ?z (unat l) (j - 1))"
        "\<forall>x. x < Suc i \<or> j \<le> x \<longrightarrow> T' x = T1 x" by auto
    have il: "i < unat l div ?z" using lt Suc.prems(2) by simp
    have lo0: "lo ?z (unat b) (Suc i) = 0" using Suc.prems(3) by (simp add: lo_def)
    then have edge: "Suc (i * ?z + hi ?z (unat l) i) = Suc i * ?z + lo ?z (unat b) (Suc i)"
      using il by (simp add: hi_def)
    have mono: "i * ?z + hi ?z (unat l) i \<le> (j - 1) * ?z + hi ?z (unat l) (j - 1)"
    proof -
      have "Suc i * ?z \<le> (j - 1) * ?z" using lt by (intro mult_le_mono1) simp
      then show ?thesis using edge lo0 by simp
    qed
    have "erased (Suc n) ?T T' (i * ?z + lo ?z (unat b) i) ((j - 1) * ?z + hi ?z (unat l) (j - 1))"
      by (rule erased_trans [OF s1(3) h(3) [folded edge] _ mono]) (use lo_le_hi [OF rsize_pos(1) b(3), of n i] in simp)
    moreover have "after (Suc n) r t s s' T'" by (rule after_trans [OF s1(2) ne h(2)])
    moreover have "for_ret (clear_body n r t b l) [i..<j] s = Some (0, s')" using list s1(1) h(1) by simp
    moreover have "\<forall>x. x < i \<or> j \<le> x \<longrightarrow> T' x = ?T x"
    proof (intro allI impI)
      fix x assume x: "x < i \<or> j \<le> x"
      then have "x \<noteq> i" using Suc.prems(1) by auto
      with x h(4) s1(4) show "T' x = ?T x" by auto
    qed
    ultimately show ?thesis by blast
  qed
qed

lemma clear_by_level_ok: "n \<le> 4 \<Longrightarrow> clears n (ummu_table_clear_node_by_level (4 - n))"
proof (induction n)
  case 0
  then show ?case by (simp add: clears_def)
next
  case (Suc n)
  then have n: "n \<le> 3" by simp
  have "Suc (3 - n) = 4 - n" using n by simp
  with Suc have f: "clears n (ummu_table_clear_node_by_level (Suc (3 - n)))" by simp
  show ?case unfolding clears_def
  proof (intro allI impI)
    fix r t s g and b l :: u64
    assume t: "tab (Suc n) r t s" and tl: "tiled (Suc n) g (tree (Suc n) s t) (unat b) (unat l)" and l: "unat l < rsize (Suc n)"
    have bl: "unat b \<le> unat l" by (rule tiled_le [OF tl])
    then have b: "unat b < rsize (Suc n)" using l by simp
    let ?z = "rsize n"
    have dv: "unat b div ?z \<le> unat l div ?z" using bl by (rule div_le_mono)
    have good: "good_node n g (tree (Suc n) s t) (unat b) (unat l) k" if "unat b div ?z \<le> k" "k < Suc (unat l div ?z)" for k
      using tiled_node [OF tl, of k] that by (metis good_node_def less_Suc_eq_le)
    have ends: "unat b div ?z * ?z + lo ?z (unat b) (unat b div ?z) = unat b"
      "(Suc (unat l div ?z) - 1) * ?z + hi ?z (unat l) (Suc (unat l div ?z) - 1) = unat l" by (simp_all add: lo_def hi_def)
    from clear_loop_nodes [OF f n b l bl _ order_refl order_refl t good] dv
    show "\<exists>s' T'. ummu_table_clear_node_by_level (4 - Suc n) r b l s = Some (0, s') \<and>
      after (Suc n) r t s s' T' \<and> erased (Suc n) (tree (Suc n) s t) T' (unat b) (unat l)"
      unfolding ends diff_Suc_Suc using clear_by_level_eq [OF t n b l] by auto
  qed
qed

end
