(* ===== verification/Ummu_TableFill.thy ===== *)
theory Ummu_TableFill
  imports Ummu_TableClear
begin

text \<open>
  Granting: \<^verbatim>\<open>ummu_table_fill_node_by_level\<close> either grants all of a free range, and leaves it in
  the shape that clearing expects, or stops when no level table can be allocated; then clearing
  the range takes back what was granted.
\<close>

section \<open>Filling a range\<close>

definition req_attr :: "data_info \<Rightarrow> grant_attr" where
  "req_attr di = \<lparr>ga_perm = ucast (di_perm di), ga_ebit = ucast (di_e_bit di),
     ga_tokens = (if di_token_check di = 1 then Some (di_tokenval di, di_tokenval di, 1) else None)\<rparr>"

lemma fill_node_attr:
  assumes "di_token_check di \<in> {0, 1}" "unat nb < rsize n" "unat nl < rsize n" "n \<le> 3"
    and w: "w = ummu_table_fill_node v nb nl di"
  shows "tn_valid w = 1" "tn_type w = 1" "view m s w = PNode (unat nb) (unat nl) (req_attr di) Map.empty"
proof -
  have "rsize n \<le> 2 ^ 39" unfolding rsize_def using assms(4) by (intro power_increasing) auto
  then have b: "unat nb < 2 ^ 39" "unat nl < 2 ^ 39" using assms(2,3) by auto
  note f = table_fill_fields [OF w b]
  show "tn_valid w = 1" "tn_type w = 1" by (rule f)+
  have "attr_of w = req_attr di" using f assms(1) by (auto simp: attr_of_def req_attr_def)
  with f show "view m s w = PNode (unat nb) (unat nl) (req_attr di) Map.empty" by (simp add: view_def)
qed

text \<open>
  What a failed fill leaves: a filled beginning of the range, then a node where the next level
  could not be allocated, and nothing of the range after it.
\<close>

primrec partial :: "nat \<Rightarrow> grant_attr \<Rightarrow> ptree \<Rightarrow> nat \<Rightarrow> nat \<Rightarrow> bool" where
  "partial 0 g T b l \<longleftrightarrow> False"
| "partial (Suc n) g T b l \<longleftrightarrow> (\<exists>j. b div rsize n \<le> j \<and> j \<le> l div rsize n \<and> \<not> (b div rsize n < j \<and> j < l div rsize n) \<and>
     (\<forall>k. b div rsize n \<le> k \<longrightarrow> k < j \<longrightarrow> good_node n g T b l k) \<and>
     (\<forall>x \<le> l. j < x div rsize n \<longrightarrow> perm_at (Suc n) T x = None) \<and>
     (\<exists>b' l' a K. T j = Some (PNode b' l' a K) \<and> apart b' l' (lo (rsize n) b j) (hi (rsize n) l j) \<and>
        (K = Map.empty \<or> partial n g K (lo (rsize n) b j) (hi (rsize n) l j))))"

declare partial.simps(2) [simp del]

definition fills :: "os_env \<Rightarrow> u32 \<Rightarrow> int \<Rightarrow> nat \<Rightarrow> grant_attr \<Rightarrow> (nref \<Rightarrow> u64 \<Rightarrow> u64 \<Rightarrow> walk \<Rightarrow> (int \<times> walk) option) \<Rightarrow> bool" where
  "fills E tid fd n g f \<longleftrightarrow> (\<forall>r t s b l. tab n r t s \<longrightarrow> 4096 dvd unat b \<longrightarrow> unat b \<le> unat l \<longrightarrow> unat l < rsize n \<longrightarrow>
     (\<forall>x. unat b \<le> x \<longrightarrow> x \<le> unat l \<longrightarrow> perm_at n (tree n s t) x = None) \<longrightarrow>
     (\<exists>ret s' T'. f r b l s = Some (ret, s') \<and> after n r t s s' T' \<and> T' \<noteq> Map.empty \<and>
        changed n (tree n s t) T' (unat b) (unat l) \<and> fill_ret E tid fd s' ret \<and>
        (if ret = 0 then tiled n g T' (unat b) (unat l) else partial n g T' (unat b) (unat l))))"

lemma fill_kids:
  assumes f: "fills E tid fd n g f" and t: "tab (Suc n) r t s" and p: "tree (Suc n) s t i = Some (PNode b l a K)" "K \<noteq> Map.empty"
    and k: "\<And>x. unat nb \<le> x \<Longrightarrow> x \<le> unat nl \<Longrightarrow> perm_at n K x = None" "4096 dvd unat nb" "unat nb \<le> unat nl" "unat nl < rsize n"
  shows "\<exists>ret s' K'. f (lref t i) nb nl s = Some (ret, s') \<and> after (Suc n) r t s s' ((tree (Suc n) s t)(i \<mapsto> PNode b l a K')) \<and>
    changed n K K' (unat nb) (unat nl) \<and> fill_ret E tid fd s' ret \<and>
    (if ret = 0 then tiled n g K' (unat nb) (unat nl) else partial n g K' (unat nb) (unat nl))"
proof -
  note c = tab_node [OF t p(1)] and d = tabD [OF t]
  have ty: "tn_type (nd s t i) = 0" using c(7) p(2) by simp
  have K: "K = tree n s (tgt (nd s t i))" using c(6) ty by simp
  from f tab_kids [OF t c(1,2) ty] k K obtain ret s' K' where
    s': "f (lref t i) nb nl s = Some (ret, s')" "after n (lref t i) (tgt (nd s t i)) s s' K'" "changed n K K' (unat nb) (unat nl)"
      "fill_ret E tid fd s' ret" "if ret = 0 then tiled n g K' (unat nb) (unat nl) else partial n g K' (unat nb) (unat nl)"
    unfolding fills_def by metis
  from after_kids [OF d(2) c(1) refl c(2) ty s'(2) d(5,4)] c(3-5)
  have "after (Suc n) r t s s' ((tree (Suc n) s t)(i \<mapsto> PNode b l a K'))" by simp
  with s' show ?thesis by blast
qed

text \<open>A node gets a new, empty next level.\<close>

lemma alloc_next_level:
  assumes t: "tab (Suc (Suc m)) r t s" and p: "tree (Suc (Suc m)) s t i = Some (PNode b l a Map.empty)" and E: "fresh_mem E"
  obtains (fail) s1 where "ummu_alloc_level_block E tid fd (lref t i) (Some (t div 4)) s = Some (None, s1)"
      "errno (wk_world s1) \<in> {ERANGE, ENOMEM}" "fill_ret E tid fd s1 (- errno (wk_world s1))" "after (Suc (Suc m)) r t s s1 (tree (Suc (Suc m)) s t)"
  | (new) s1 q v c where "ummu_alloc_level_block E tid fd (lref t i) (Some (t div 4)) s = Some (Some q, s1)"
      "rd_node (lref t i) s1 = Some v" "wr_node (lref t i) (v\<lparr>tn_type := 0\<rparr>) s1 = Some (put_nd t i (v\<lparr>tn_type := 0\<rparr>) s1)"
      "tab (Suc m) (lref t i) c (put_nd t i (v\<lparr>tn_type := 0\<rparr>) s1)" "tree (Suc m) (put_nd t i (v\<lparr>tn_type := 0\<rparr>) s1) c = Map.empty"
      "moved {} {c} (lref t i) s (put_nd t i (v\<lparr>tn_type := 0\<rparr>) s1)" "foot (Suc m) (put_nd t i (v\<lparr>tn_type := 0\<rparr>) s1) c = {c}" "c \<noteq> 0"
      "tn_valid v = 1" "\<And>n' s'. view n' s' (v\<lparr>tn_type := 0\<rparr>) = PNode b l a (tree n' s' c)" "pts (v\<lparr>tn_type := 0\<rparr>) c"
      "val (lref t i) (put_nd t i (v\<lparr>tn_type := 0\<rparr>) s1) = v\<lparr>tn_type := 0\<rparr>"
proof -
  note c = tab_node [OF t p] and d = tabD [OF t]
  note ok = store_okD [OF d(1)]
  let ?n = "Suc m" and ?u = "nd s t i"
  have ty: "tn_type ?u = 1" using c(7) by simp
  have i: "i < 512" by (rule c(1))
  have vr: "vref s (lref t i)" using i d(9) by simp
  have bel: "below ?n s ?u = {}" using ty by (simp add: below_def)
  show thesis
  proof (rule alloc_level_cases [OF ok(1,2) vr E, of tid fd "Some (t div 4)"])
    fix s1 nb
    assume a: "ummu_alloc_level_block E tid fd (lref t i) (Some (t div 4)) s = Some (None, s1)"
      "errno (wk_world s1) \<in> {ERANGE, ENOMEM}" "blocks_ok s1" "free_ok s1" "live s1 = live s" "ec s1 = ec s"
      "\<And>q. vref s q \<Longrightarrow> val q s1 = (if q = lref t i then (val (lref t i) s)\<lparr>tn_next_block := nb\<rparr> else val q s)"
      "wk_root s1 = (if lref t i = Local then (val (lref t i) s)\<lparr>tn_next_block := nb\<rparr> else wk_root s)"
      "tc_granted_addr_mng (wk_ctx s1) = tc_granted_addr_mng (wk_ctx s)" "no_empty s \<Longrightarrow> no_empty s1"
      "fill_ret E tid fd s1 (- errno (wk_world s1))"
    have ndv: "nd s1 u j = (if u = t \<and> j = i then ?u\<lparr>tn_next_block := nb\<rparr> else nd s u j)" if "live s u" "j < 512" for u j
      using a(7) [of "lref u j"] that i by simp
    let ?v = "?u\<lparr>tn_next_block := nb\<rparr>"
    have st: "store_ok s1" using a(3-5,10) ok by (simp add: store_ok_def)
    have bel': "below ?n s1 ?v = {}" using ty by (simp add: below_def)
    have mv: "moved (below ?n s ?u) (below ?n s1 ?v) (lref t i) s s1"
      unfolding bel bel' moved_def using st a(5,6,8,9) ndv i by auto
    have vw: "view ?n s1 ?v = PNode b l a Map.empty"
      using c(3-5) ty by (simp add: view_def attr_of_def tn_base_def tn_limit_def)
    have "wfv ?n s1 ?v" using ty by (simp add: wfv_def)
    from after_node [OF d(2) i c(2) mv _ _ this d(5,4)] ndv [OF d(9) i] c(2)
    have "after (Suc ?n) r t s s1 ((tree (Suc ?n) s t)(i \<mapsto> view ?n s1 ?v))" by simp
    moreover have "(tree (Suc ?n) s t)(i \<mapsto> view ?n s1 ?v) = tree (Suc ?n) s t" using vw p by auto
    ultimately show thesis using fail a(1,2,11) by simp
  next
    fix s1 k nb
    assume a: "ummu_alloc_level_block E tid fd (lref t i) (Some (t div 4)) s = Some (Some (lref k 0), s1)"
      "k < 2048" "\<not> live s k" "blocks_ok s1" "free_ok s1" "\<And>u. live s1 u \<longleftrightarrow> live s u \<or> u = k"
      "\<And>u. live s u \<Longrightarrow> ec s1 u = ec s u" "ec s1 k = 0" "\<And>j. j < 512 \<Longrightarrow> tn_valid (nd s1 k j) = 0"
      "\<And>q. vref s q \<Longrightarrow> val q s1 = (if q = lref t i then link k nb (val (lref t i) s) else val q s)"
      "wk_root s1 = (if lref t i = Local then link k nb (val (lref t i) s) else wk_root s)"
      "tc_granted_addr_mng (wk_ctx s1) = tc_granted_addr_mng (wk_ctx s)" "no_empty s \<Longrightarrow> no_empty s1"
    define v where "v = link k nb ?u"
    have ndv: "nd s1 u j = (if u = t \<and> j = i then v else nd s u j)" if "live s u" "j < 512" for u j
      using a(10) [of "lref u j"] that i by (simp add: v_def)
    have st: "store_ok s1" using a(4-6,13) ok by (simp add: store_ok_def)
    have l1: "live s1 t" using a(6) d(9) by simp
    have kt: "k \<noteq> t" using a(3) d(9) by auto
    have v1: "vref s1 (lref t i)" "val (lref t i) s1 = v" using l1 i ndv [OF d(9) i] by simp_all
    define s2 where "s2 = put_nd t i (v\<lparr>tn_type := 0\<rparr>) s1"
    note nv = put_nd_view [OF a(4) live_present [OF a(4) l1] i, where n = "v\<lparr>tn_type := 0\<rparr>", folded s2_def]
    have live2: "live s2 = live s1" and fields2: "wk_root s2 = wk_root s1" "tc_granted_addr_mng (wk_ctx s2) = tc_granted_addr_mng (wk_ctx s1)"
      by (simp_all add: s2_def)
    have st2: "store_ok s2" using store_ok_put_ref [OF st v1(1), of "v\<lparr>tn_type := 0\<rparr>"] i by (simp add: s2_def)
    have pt: "pts (v\<lparr>tn_type := 0\<rparr>) k"
      using link_pts [OF a(2), of nb ?u] by (simp add: v_def pts_def tn_lv_offset_def)
    have k0: "k \<noteq> 0" using a(3) ok(4) by metis
    have ndk: "tn_valid (nd s2 k j) = 0" if "j < 512" for j using a(9) [OF that] nv(4) [OF that] kt by simp
    have below0: "below m s2 (nd s2 k j) = {}" if "j < 512" for j using ndk [OF that] by (simp add: below_def)
    have fk: "foot (Suc m) s2 k = {k}" using below0 by (simp add: foot_Suc)
    have tk: "tree (Suc m) s2 k = Map.empty" using ndk by (auto simp: fun_eq_iff tree_Suc)
    have wk: "wft (Suc m) s2 k" unfolding wft_Suc using ndk below0 live2 a(6,8) nv(3) by auto
    have v2: "val (lref t i) s2 = v\<lparr>tn_type := 0\<rparr>" using nv(4) [OF i, of t] i by simp
    have tabk: "tab (Suc m) (lref t i) k s2"
      unfolding tab_def using st2 wk tk fk v2 pt l1 i live2 kt by (auto simp: outer_def)
    have "moved {} {k} (lref t i) s s2"
      unfolding moved_def using st2 live2 a(3,6,7,11,12) nv(3,4) ndv fields2 i by auto
    moreover have "view n' s' (v\<lparr>tn_type := 0\<rparr>) = PNode b l a (tree n' s' k)" for n' s'
      using c(3-5) pts_tgt [OF pt] by (simp add: view_def attr_of_def tn_base_def tn_limit_def v_def link_def Let_def)
    moreover have "tn_valid v = 1" using c(2) by (simp add: v_def link_def Let_def)
    moreover have "rd_node (lref t i) s1 = Some v" using rd_val [OF a(4) v1(1)] v1(2) by simp
    moreover have "wr_node (lref t i) (v\<lparr>tn_type := 0\<rparr>) s1 = Some s2"
      using wr_lref [OF a(4) live_present [OF a(4) l1] i] by (simp add: s2_def)
    ultimately show thesis using new [of "lref k 0" s1 v k] a(1) tabk tk fk k0 pt v2 by (simp add: s2_def)
  qed
qed

text \<open>The next level of node \<open>i\<close> of table \<open>t\<close>, allocated when it has none.\<close>

definition next_level :: "os_env \<Rightarrow> u32 \<Rightarrow> int \<Rightarrow> nat \<Rightarrow> nat \<Rightarrow> table_node \<Rightarrow> walk \<Rightarrow> (bool \<times> walk) option" where
  "next_level E tid fd t i v s =
     (if tn_type v = 1 then do {
        (next, s') \<leftarrow> ummu_alloc_level_block E tid fd (lref t i) (Some (t div 4)) s;
        if next = None then Some (False, s')
        else do {
          n \<leftarrow> rd_node (lref t i) s';
          s'' \<leftarrow> wr_node (lref t i) (n\<lparr>tn_type := 0\<rparr>) s';
          Some (True, s'') } }
      else Some (True, s))"

definition fill_body :: "os_env \<Rightarrow> u32 \<Rightarrow> int \<Rightarrow> data_info \<Rightarrow> nat \<Rightarrow> nref \<Rightarrow> nat \<Rightarrow> u64 \<Rightarrow> u64 \<Rightarrow> nat \<Rightarrow> walk \<Rightarrow> (int \<times> walk) option" where
  "fill_body E tid fd di n r t b l i s = do {
     cur_node \<leftarrow> rd_node (lref t i) s;
     if unat b div rsize n < i \<and> i < unat l div rsize n then
       if tn_valid cur_node = 1 then Some (- EINVAL, s)
       else do {
         s1 \<leftarrow> wr_node (lref t i) (ummu_table_fill_node cur_node (lo_word n b i) (hi_word n l i) di) s;
         s2 \<leftarrow> add_entry_cnt (t div 4) (t mod 4) 1 s1;
         Some (0, s2) }
     else if tn_valid cur_node = 1 then do {
       (ok, s1) \<leftarrow> next_level E tid fd t i cur_node s;
       if \<not> ok then Some (- errno (wk_world s1), s1)
       else ummu_table_fill_node_by_level E tid fd di (Suc (3 - n)) (lref t i) (lo_word n b i) (hi_word n l i) s1 }
     else do {
       s1 \<leftarrow> wr_node (lref t i) (ummu_table_fill_node cur_node (lo_word n b i) (hi_word n l i) di) s;
       s2 \<leftarrow> add_entry_cnt (t div 4) (t mod 4) 1 s1;
       Some (0, s2) } }"

lemma fill_by_level_eq:
  assumes t: "tab (Suc n) r t s" and n: "n \<le> 3" and b: "unat b < rsize (Suc n)" "unat l < rsize (Suc n)"
  shows "ummu_table_fill_node_by_level E tid fd di (3 - n) r b l s =
    for_ret (fill_body E tid fd di n r t b l) [unat b div rsize n..<Suc (unat l div rsize n)] s"
proof -
  note d = tabD [OF t]
  obtain blk where blk: "arr_rd (tc_mapt_block_array (wk_ctx s)) (t div 4) = Some (Some blk)"
    by (rule arr_block [OF d(8,9)])
  note bw = level_words [OF n b] and lw = level_words(1) [OF n b(2,2)]
  have lv: "(MAX_LEVEL_INDEX < 3 - n) = False" by (simp add: MAX_LEVEL_INDEX_def)
  have cnt: "ummu_modify_entry_cnt (t div 4) (tn_lv_offset (val r s)) 1 = add_entry_cnt (t div 4) (t mod 4) 1"
    using d(12) by (simp add: ummu_modify_entry_cnt_def MAX_MAPT_ENTRY_INDEX_def fun_eq_iff)
  show ?thesis
    unfolding fill_body_def [abs_def] next_level_def lo_word_def hi_word_def
    by (subst ummu_table_fill_node_by_level.simps)
      (simp only: d(10-12) blk lv cnt Let_def At_lref bw(1) lw bind.simps if_False option.distinct Suc_eq_plus1 [symmetric])
qed

text \<open>A new node in a free place.\<close>

lemma fill_new_node:
  assumes t: "tab (Suc n) r t s" and n: "n \<le> 3" and i: "i < 512" and none: "tree (Suc n) s t i = None"
    and di: "di_token_check di \<in> {0, 1}" and w: "unat nb \<le> unat nl" "unat nl < rsize n"
  shows "\<exists>s'. do { s1 \<leftarrow> wr_node (lref t i) (ummu_table_fill_node (nd s t i) nb nl di) s; add_entry_cnt (t div 4) (t mod 4) 1 s1 } = Some s' \<and>
    after (Suc n) r t s s' ((tree (Suc n) s t)(i \<mapsto> PNode (unat nb) (unat nl) (req_attr di) Map.empty))"
proof -
  note d = tabD [OF t] and W = wftD [OF tabD(2) [OF t]]
  define w where "w = ummu_table_fill_node (nd s t i) nb nl di"
  have nbz: "unat nb < rsize n" using assms(6,7) by simp
  note fa = fill_node_attr [OF di nbz assms(7) n w_def]
  have pr: "present s t" by (rule live_present [OF d(8,9)])
  note nv = put_nd_view [OF d(8) pr i, where n = w]
  define s' where "s' = put_ec t (ec s t + 1) (put_nd t i w s)"
  note pv = put_node_view [OF d(1,9) i s'_def]
  have inv: "tn_valid (nd s t i) = 0" using none i by (auto simp: tree_Suc split: if_splits)
  have vs: "{j. j < 512 \<and> tn_valid (nd s' t j) = 1} = insert i {j. j < 512 \<and> tn_valid (nd s t j) = 1}"
    using pv(4) fa(1) i by (auto split: if_splits)
  have "{j. j < 512 \<and> tn_valid (nd s t j) = 1} \<subseteq> {..<512} - {i}" using inv by auto
  then have "card {j. j < 512 \<and> tn_valid (nd s t j) = 1} \<le> 511"
    using card_mono [of "{..<512} - {i}" "{j. j < 512 \<and> tn_valid (nd s t j) = 1}"] i by simp
  then have e: "unat (ec s t) \<le> 511" by (simp add: W(2))
  have "unat (ec s t) + unat (1 :: u16) < 2 ^ LENGTH(16)" using e by simp
  then have "unat (ec s t + 1) = Suc (unat (ec s t))" using unat_plus_no_wrap [of "ec s t" 1] by simp
  then have cnt: "unat (ec s t + 1) = card {j. j < 512 \<and> tn_valid (nd s' t j) = 1}" unfolding vs W(2) using inv by simp
  have none': "below n s (nd s t i) = {}" "below n s' w = {}" using inv fa(2) by (simp_all add: below_def)
  have "tn_valid w = 1 \<longrightarrow> wfv n s' w" using fa(2) by (simp add: wfv_def)
  note m = put_node_moved [OF d(1,2) i none' this s'_def cnt]
  have "after (Suc n) r t s s' ((tree (Suc n) s t)(i \<mapsto> PNode (unat nb) (unat nl) (req_attr di) Map.empty))"
    using m(1,2) m(4) [of r] m(5) [OF d(4,5)] fa(1,3) by (subst after_ne) (auto simp: fun_eq_iff)
  moreover have "wr_node (lref t i) w s = Some (put_nd t i w s)" by (rule wr_lref [OF d(8) pr i])
  moreover have "add_entry_cnt (t div 4) (t mod 4) 1 (put_nd t i w s) = Some s'"
    using add_entry_cnt_eq [OF nv(1), of t 1] pr nv(2,3) by (simp add: s'_def)
  ultimately show ?thesis by (auto simp: w_def)
qed

lemma fill_below:
  assumes f: "fills E tid fd n g f" and t: "tab (Suc n) r t s" and p: "tree (Suc n) s t i = Some (PNode b l a K)" and E: "fresh_mem E"
    and free: "\<And>y. unat nb \<le> y \<Longrightarrow> y \<le> unat nl \<Longrightarrow> perm_at (Suc n) (tree (Suc n) s t) (i * rsize n + y) = None"
    and w: "4096 dvd unat nb" "unat nb \<le> unat nl" "unat nl < rsize n"
  defines "T \<equiv> tree (Suc n) s t"
  shows "\<exists>ret s' K'. do {
       (ok, s1) \<leftarrow> next_level E tid fd t i (nd s t i) s;
       if \<not> ok then Some (- errno (wk_world s1), s1) else f (lref t i) nb nl s1 } = Some (ret, s') \<and>
    after (Suc n) r t s s' (T(i \<mapsto> PNode b l a K')) \<and> changed n K K' (unat nb) (unat nl) \<and> fill_ret E tid fd s' ret \<and>
    apart b l (unat nb) (unat nl) \<and>
    (if ret = 0 then tiled n g K' (unat nb) (unat nl) else K' = Map.empty \<or> partial n g K' (unat nb) (unat nl))"
proof -
  note c = tab_node [OF t p] and d = tabD [OF t]
  note fa = free_apart [OF d(3) p w(2,3) free]
  note kd = tree_okD [OF d(3) p]
  have n0: "n \<noteq> 0"
  proof
    assume n: "n = 0"
    have "unat nb < rsize 0" using w n by simp
    from free_page [OF d(3) [unfolded n] p [unfolded n] w(1) this] free [of "unat nb"] w(2) n show False by simp
  qed
  then obtain m where m: "n = Suc m" by (cases n) auto
  show ?thesis
  proof (cases "tn_type (nd s t i) = 0")
    case True
    then have K: "K \<noteq> Map.empty" using c(7) by simp
    from fill_kids [OF f t p K fa(2) w] obtain ret s' K' where
      h: "f (lref t i) nb nl s = Some (ret, s')" "after (Suc n) r t s s' (T(i \<mapsto> PNode b l a K'))"
        "changed n K K' (unat nb) (unat nl)" "fill_ret E tid fd s' ret"
        "if ret = 0 then tiled n g K' (unat nb) (unat nl) else partial n g K' (unat nb) (unat nl)" unfolding T_def by blast
    have "if ret = 0 then tiled n g K' (unat nb) (unat nl) else K' = Map.empty \<or> partial n g K' (unat nb) (unat nl)"
      using h(5) by (simp split: if_splits)
    with h(1-4) True fa(1) show ?thesis by (intro exI [of _ ret] exI [of _ s'] exI [of _ K']) (simp add: next_level_def)
  next
    case False
    then have ty: "tn_type (nd s t i) = 1" and K: "K = Map.empty" using c(7) by auto
    note p' = p [unfolded K m]
    show ?thesis
    proof (rule alloc_next_level [OF t [unfolded m] p' E, of tid fd])
      fix s1 assume a: "ummu_alloc_level_block E tid fd (lref t i) (Some (t div 4)) s = Some (None, s1)"
        "errno (wk_world s1) \<in> {ERANGE, ENOMEM}" "fill_ret E tid fd s1 (- errno (wk_world s1))"
        "after (Suc (Suc m)) r t s s1 (tree (Suc (Suc m)) s t)"
      have "T(i \<mapsto> PNode b l a Map.empty) = T" using p K by (auto simp: T_def)
      moreover have "changed n K Map.empty (unat nb) (unat nl)" using K by (simp add: changed_refl)
      moreover have "- errno (wk_world s1) \<noteq> 0" "fill_ret E tid fd s1 (- errno (wk_world s1))" using a(2,3) by (auto simp: errno_defs)
      ultimately show ?thesis using a(1,4) ty fa(1) m
        by (intro exI [of _ "- errno (wk_world s1)"] exI [of _ s1] exI [of _ Map.empty]) (simp add: T_def next_level_def)
    next
      fix s1 q v c'
      let ?s2 = "put_nd t i (v\<lparr>tn_type := 0\<rparr>) s1"
      assume a: "ummu_alloc_level_block E tid fd (lref t i) (Some (t div 4)) s = Some (Some q, s1)"
        "rd_node (lref t i) s1 = Some v" "wr_node (lref t i) (v\<lparr>tn_type := 0\<rparr>) s1 = Some ?s2"
        "tab (Suc m) (lref t i) c' ?s2" "tree (Suc m) ?s2 c' = Map.empty"
        "moved {} {c'} (lref t i) s ?s2" "foot (Suc m) ?s2 c' = {c'}" "c' \<noteq> 0"
        "tn_valid v = 1" "\<And>n' s'. view n' s' (v\<lparr>tn_type := 0\<rparr>) = PNode b l a (tree n' s' c')" "pts (v\<lparr>tn_type := 0\<rparr>) c'"
        "val (lref t i) ?s2 = v\<lparr>tn_type := 0\<rparr>"
      from f a(4,5) w obtain ret s' K' where s': "f (lref t i) nb nl ?s2 = Some (ret, s')" "after n (lref t i) c' ?s2 s' K'"
        "K' \<noteq> Map.empty" "changed n Map.empty K' (unat nb) (unat nl)" "fill_ret E tid fd s' ret"
        "if ret = 0 then tiled n g K' (unat nb) (unat nl) else partial n g K' (unat nb) (unat nl)"
        unfolding fills_def m by (metis perm_at_empty)
      from s'(2,3) m a(7) have af: "moved {c'} (foot n s' c') (lref t i) ?s2 s'" "wft n s' c'" "tree n s' c' = K'"
        "val (lref t i) s' = v\<lparr>tn_type := 0\<rparr>" using a(12) by (auto simp: after_ne)
      let ?v = "v\<lparr>tn_type := 0\<rparr>"
      have tg: "tgt ?v = c'" by (rule pts_tgt [OF a(11)])
      have bel: "below n s (nd s t i) = {}" "below n s' ?v = foot n s' c'" using ty a(9) tg by (simp_all add: below_def)
      have mv: "moved (below n s (nd s t i)) (below n s' ?v) (lref t i) s s'" unfolding bel by (rule moved_trans [OF a(6) af(1)])
      have vi: "?v = nd s' t i" using af(4) c(1) by simp
      have wv: "wfv n s' ?v" using a(8,11) af(2,3) s'(3) tg by (simp add: wfv_def)
      have "tn_valid ?v = 1" using a(9) by simp
      from after_node [OF d(2) c(1,2) mv vi this wv d(5,4)] a(10) af(3)
      have "after (Suc n) r t s s' (T(i \<mapsto> PNode b l a K'))" by (simp add: T_def)
      moreover have "do {
       (ok, s1) \<leftarrow> next_level E tid fd t i (nd s t i) s;
       if \<not> ok then Some (- errno (wk_world s1), s1) else f (lref t i) nb nl s1 } = Some (ret, s')"
        using ty a(1-3) s'(1) by (simp add: next_level_def)
      moreover have "if ret = 0 then tiled n g K' (unat nb) (unat nl) else K' = Map.empty \<or> partial n g K' (unat nb) (unat nl)"
        using s'(6) by (simp split: if_splits)
      ultimately show ?thesis using s'(4,5) K fa(1) by (intro exI [of _ ret] exI [of _ s'] exI [of _ K']) simp
    qed
  qed
qed

lemma fill_body_ok:
  assumes f: "fills E tid fd n (req_attr di) (ummu_table_fill_node_by_level E tid fd di (Suc (3 - n)))" and t: "tab (Suc n) r t s" and n: "n \<le> 3"
    and b: "unat b < rsize (Suc n)" "unat l < rsize (Suc n)" "unat b \<le> unat l" "4096 dvd unat b" and E: "fresh_mem E"
    and di: "di_token_check di \<in> {0, 1}" and i: "unat b div rsize n \<le> i" "i \<le> unat l div rsize n"
    and free: "\<And>x. i * rsize n + lo (rsize n) (unat b) i \<le> x \<Longrightarrow> x \<le> unat l \<Longrightarrow> perm_at (Suc n) (tree (Suc n) s t) x = None"
  shows "\<exists>ret s' T'. fill_body E tid fd di n r t b l i s = Some (ret, s') \<and> after (Suc n) r t s s' T' \<and> T' i \<noteq> None \<and>
    changed (Suc n) (tree (Suc n) s t) T' (i * rsize n + lo (rsize n) (unat b) i) (i * rsize n + hi (rsize n) (unat l) i) \<and>
    (\<forall>x. x \<noteq> i \<longrightarrow> T' x = tree (Suc n) s t x) \<and> fill_ret E tid fd s' ret \<and>
    (if ret = 0 then good_node n (req_attr di) T' (unat b) (unat l) i
     else \<not> (unat b div rsize n < i \<and> i < unat l div rsize n) \<and>
       (\<exists>b' l' a K. T' i = Some (PNode b' l' a K) \<and> apart b' l' (lo (rsize n) (unat b) i) (hi (rsize n) (unat l) i) \<and>
         (K = Map.empty \<or> partial n (req_attr di) K (lo (rsize n) (unat b) i) (hi (rsize n) (unat l) i))))"
proof -
  let ?z = "rsize n" and ?T = "tree (Suc n) s t" and ?g = "req_attr di"
  let ?lo = "lo ?z (unat b) i" and ?hi = "hi ?z (unat l) i"
  note d = tabD [OF t]
  note w = level_words(2,3) [OF n b(1,2), of i, folded lo_word_def hi_word_def]
  have i5: "i < 512" using i(2) level_words(4) [OF n b(2,2)] by simp
  note rd = tab_rd [OF t i5]
  have le: "?lo \<le> ?hi" "?hi < ?z" using lo_le_hi [OF rsize_pos(1) b(3)] by auto
  have dv: "4096 dvd ?lo" using b(4) page_dvd_rsize [of n] by (simp add: lo_def dvd_mod)
  have fr: "perm_at (Suc n) ?T (i * ?z + y) = None" if "?lo \<le> y" "y \<le> ?hi" for y
  proof (rule free)
    have "i * ?z + y \<le> i * ?z + ?hi" using that by simp
    also have "\<dots> \<le> unat l" by (rule hi_le [OF rsize_pos(1) i(2)])
    finally show "i * ?z + y \<le> unat l" .
  qed (use that in simp)
  show ?thesis
  proof (cases "?T i")
    case None
    have inv: "tn_valid (nd s t i) = 0" using None i5 by (auto simp: tree_Suc split: if_splits)
    have w': "unat (lo_word n b i) \<le> unat (hi_word n l i)" "unat (hi_word n l i) < ?z" unfolding w by (rule le)+
    let ?T' = "?T(i \<mapsto> PNode ?lo ?hi ?g Map.empty)"
    from fill_new_node [OF t n i5 None di w'] obtain s' where
      s': "do { s1 \<leftarrow> wr_node (lref t i) (ummu_table_fill_node (nd s t i) (lo_word n b i) (hi_word n l i) di) s;
           add_entry_cnt (t div 4) (t mod 4) 1 s1 } = Some s'" "after (Suc n) r t s s' ?T'" unfolding w by blast
    from s'(1) obtain s1 where s1: "wr_node (lref t i) (ummu_table_fill_node (nd s t i) (lo_word n b i) (hi_word n l i) di) s = Some s1"
      "add_entry_cnt (t div 4) (t mod 4) 1 s1 = Some s'" by (auto simp: bind_eq_Some_conv)
    have "fill_body E tid fd di n r t b l i s = Some (0, s')"
      using rd inv s1 by (simp add: fill_body_def)
    moreover have "changed (Suc n) ?T ?T' (i * ?z + ?lo) (i * ?z + ?hi)" by (rule changed_new(1) [OF d(3) None i5 le dv])
    moreover have "good_node n ?g ?T' (unat b) (unat l) i"
      by (auto simp: good_node_def tiled_in_def lo_def hi_def)
    ultimately show ?thesis using s'(2) by (intro exI [of _ 0] exI [of _ s'] exI [of _ ?T']) simp
  next
    case (Some p)
    obtain b' l' a K where P: "p = PNode b' l' a K" by (cases p)
    note pT = Some [unfolded P]
    note c = tab_node [OF t pT] and k = tree_okD [OF d(3) pT]
    have nomid: "\<not> (unat b div ?z < i \<and> i < unat l div ?z)"
    proof
      assume "unat b div ?z < i \<and> i < unat l div ?z"
      then have "?lo = 0" "?hi = ?z - 1" by (auto simp: lo_def hi_def)
      then have "perm_at (Suc n) ?T (i * ?z + b') = None" using fr [of b'] k by simp
      moreover have "perm_at (Suc n) ?T (i * ?z + b') = Some a" using pT k by (simp add: perm_at_Suc glue perm_in_PNode)
      ultimately show False by simp
    qed
    have w': "4096 dvd unat (lo_word n b i)" "unat (lo_word n b i) \<le> unat (hi_word n l i)" "unat (hi_word n l i) < ?z"
      unfolding w using dv le by auto
    from fill_below [OF f t pT E _ w'] fr obtain ret s' K' where
      h: "do {
       (ok, s1) \<leftarrow> next_level E tid fd t i (nd s t i) s;
       if \<not> ok then Some (- errno (wk_world s1), s1)
       else ummu_table_fill_node_by_level E tid fd di (Suc (3 - n)) (lref t i) (lo_word n b i) (hi_word n l i) s1 } = Some (ret, s')"
      "after (Suc n) r t s s' (?T(i \<mapsto> PNode b' l' a K'))" "changed n K K' ?lo ?hi" "fill_ret E tid fd s' ret" "apart b' l' ?lo ?hi"
      "if ret = 0 then tiled n ?g K' ?lo ?hi else K' = Map.empty \<or> partial n ?g K' ?lo ?hi" unfolding w by blast
    have "fill_body E tid fd di n r t b l i s = Some (ret, s')"
      unfolding fill_body_def rd bind.simps using nomid c(2) h(1) by (simp only: if_False if_True simp_thms)
    moreover have "changed (Suc n) ?T (?T(i \<mapsto> PNode b' l' a K')) (i * ?z + ?lo) (i * ?z + ?hi)"
      by (rule changed_kids(1) [OF d(3) pT h(3,5) le])
    moreover have "b' \<noteq> ?lo" using h(5) k(2) le(1) by (auto simp: apart_def)
    then have "ret = 0 \<Longrightarrow> good_node n ?g (?T(i \<mapsto> PNode b' l' a K')) (unat b) (unat l) i"
      using h(5,6) nomid by (auto simp: good_node_def tiled_in_def)
    ultimately show ?thesis using h(2,4-6) nomid
      by (intro exI [of _ ret] exI [of _ s'] exI [of _ "?T(i \<mapsto> PNode b' l' a K')"]) simp
  qed
qed

lemma good_node_agree: "T' i = T i \<Longrightarrow> good_node n g T' b l i = good_node n g T b l i"
  by (simp add: good_node_def)

lemma fill_step:
  assumes f: "fills E tid fd n (req_attr di) (ummu_table_fill_node_by_level E tid fd di (Suc (3 - n)))" and n: "n \<le> 3"
    and b: "unat b < rsize (Suc n)" "unat l < rsize (Suc n)" "unat b \<le> unat l" "4096 dvd unat b" and E: "fresh_mem E"
    and di: "di_token_check di \<in> {0, 1}" and i: "unat b div rsize n \<le> i" "i \<le> unat l div rsize n" and t: "tab (Suc n) r t s"
    and good: "\<And>k. unat b div rsize n \<le> k \<Longrightarrow> k < i \<Longrightarrow> good_node n (req_attr di) (tree (Suc n) s t) (unat b) (unat l) k"
    and free: "\<And>x. i * rsize n + lo (rsize n) (unat b) i \<le> x \<Longrightarrow> x \<le> unat l \<Longrightarrow> perm_at (Suc n) (tree (Suc n) s t) x = None"
  obtains ret s' T' where "fill_body E tid fd di n r t b l i s = Some (ret, s')" "after (Suc n) r t s s' T'" "T' \<noteq> Map.empty"
    "changed (Suc n) (tree (Suc n) s t) T' (i * rsize n + lo (rsize n) (unat b) i) (unat l)" "fill_ret E tid fd s' ret"
    "ret = 0 \<longrightarrow> (\<forall>k. unat b div rsize n \<le> k \<longrightarrow> k \<le> i \<longrightarrow> good_node n (req_attr di) T' (unat b) (unat l) k)"
    "ret \<noteq> 0 \<longrightarrow> partial (Suc n) (req_attr di) T' (unat b) (unat l)"
    "\<forall>x \<le> unat l. i < x div rsize n \<longrightarrow> perm_at (Suc n) T' x = None"
proof -
  let ?z = "rsize n" and ?g = "req_attr di" and ?T = "tree (Suc n) s t"
  from fill_body_ok [OF f t n b E di i free] obtain ret s1 T1 where
    h: "fill_body E tid fd di n r t b l i s = Some (ret, s1)" "after (Suc n) r t s s1 T1" "T1 i \<noteq> None"
      "changed (Suc n) ?T T1 (i * ?z + lo ?z (unat b) i) (i * ?z + hi ?z (unat l) i)" "\<forall>x. x \<noteq> i \<longrightarrow> T1 x = ?T x"
      "fill_ret E tid fd s1 ret"
      "if ret = 0 then good_node n ?g T1 (unat b) (unat l) i
       else \<not> (unat b div ?z < i \<and> i < unat l div ?z) \<and>
         (\<exists>b' l' a K. T1 i = Some (PNode b' l' a K) \<and> apart b' l' (lo ?z (unat b) i) (hi ?z (unat l) i) \<and>
           (K = Map.empty \<or> partial n ?g K (lo ?z (unat b) i) (hi ?z (unat l) i)))" by blast
  have good1: "good_node n ?g T1 (unat b) (unat l) k" if "unat b div ?z \<le> k" "k < i" for k
    using good [OF that] h(5) that good_node_agree [of T1 k ?T] by simp
  have free1: "perm_at (Suc n) T1 x = None" if "i < x div ?z" "x \<le> unat l" for x
  proof -
    have "Suc i * ?z \<le> x" using that(1) div_times_less_eq_dividend [of x ?z] by (metis Suc_leI le_trans mult_le_mono1)
    then have "i * ?z + ?z \<le> x" by (simp add: add.commute)
    then have x: "i * ?z + hi ?z (unat l) i < x" "i * ?z + lo ?z (unat b) i \<le> x"
      using hi_less [OF rsize_pos(1), of n "unat l" i] lo_less [OF rsize_pos(1), of n "unat b" i] by linarith+
    then have "perm_at (Suc n) T1 x = perm_at (Suc n) ?T x" using changedD(2) [OF h(4), of x] by blast
    with free [OF x(2) that(2)] show ?thesis by simp
  qed
  show thesis
  proof (rule that [OF h(1,2)])
    show "T1 \<noteq> Map.empty" using h(3) by auto
    show "changed (Suc n) ?T T1 (i * ?z + lo ?z (unat b) i) (unat l)"
      by (rule changed_mono [OF h(4) order_refl hi_le [OF rsize_pos(1) i(2)]])
    show "fill_ret E tid fd s1 ret" by (rule h(6))
    have "good_node n ?g T1 (unat b) (unat l) k" if "ret = 0" "unat b div ?z \<le> k" "k \<le> i" for k
      using that h(7) good1 by (cases "k = i") auto
    then show "ret = 0 \<longrightarrow> (\<forall>k. unat b div ?z \<le> k \<longrightarrow> k \<le> i \<longrightarrow> good_node n ?g T1 (unat b) (unat l) k)" by blast
    have "partial (Suc n) ?g T1 (unat b) (unat l)" if "ret \<noteq> 0"
      unfolding partial.simps(2) using that h(7) i good1 free1 by (intro exI [of _ i]) auto
    then show "ret \<noteq> 0 \<longrightarrow> partial (Suc n) ?g T1 (unat b) (unat l)" by blast
    show "\<forall>x \<le> unat l. i < x div ?z \<longrightarrow> perm_at (Suc n) T1 x = None" using free1 by blast
  qed
qed

lemma fill_loop_ok:
  assumes f: "fills E tid fd n (req_attr di) (ummu_table_fill_node_by_level E tid fd di (Suc (3 - n)))" and n: "n \<le> 3"
    and b: "unat b < rsize (Suc n)" "unat l < rsize (Suc n)" "unat b \<le> unat l" "4096 dvd unat b" and E: "fresh_mem E"
    and di: "di_token_check di \<in> {0, 1}"
  shows "unat b div rsize n \<le> i \<Longrightarrow> i \<le> unat l div rsize n \<Longrightarrow> tab (Suc n) r t s \<Longrightarrow>
    (\<And>k. unat b div rsize n \<le> k \<Longrightarrow> k < i \<Longrightarrow> good_node n (req_attr di) (tree (Suc n) s t) (unat b) (unat l) k) \<Longrightarrow>
    (\<And>x. i * rsize n + lo (rsize n) (unat b) i \<le> x \<Longrightarrow> x \<le> unat l \<Longrightarrow> perm_at (Suc n) (tree (Suc n) s t) x = None) \<Longrightarrow>
    \<exists>ret s' T'. for_ret (fill_body E tid fd di n r t b l) [i..<Suc (unat l div rsize n)] s = Some (ret, s') \<and>
      after (Suc n) r t s s' T' \<and> T' \<noteq> Map.empty \<and>
      changed (Suc n) (tree (Suc n) s t) T' (i * rsize n + lo (rsize n) (unat b) i) (unat l) \<and> fill_ret E tid fd s' ret \<and>
      (if ret = 0 then \<forall>k. unat b div rsize n \<le> k \<longrightarrow> k \<le> unat l div rsize n \<longrightarrow> good_node n (req_attr di) T' (unat b) (unat l) k
       else partial (Suc n) (req_attr di) T' (unat b) (unat l))"
proof (induction "unat l div rsize n - i" arbitrary: i s rule: less_induct)
  case less
  let ?z = "rsize n" and ?g = "req_attr di" and ?li = "unat l div rsize n" and ?T = "tree (Suc n) s t"
  have list: "[i..<Suc ?li] = i # [Suc i..<Suc ?li]" using less.prems(2) by (simp add: upt_conv_Cons del: upt_Suc)
  obtain ret s1 T1 where h: "fill_body E tid fd di n r t b l i s = Some (ret, s1)" "after (Suc n) r t s s1 T1" "T1 \<noteq> Map.empty"
    "changed (Suc n) ?T T1 (i * ?z + lo ?z (unat b) i) (unat l)" "fill_ret E tid fd s1 ret"
    "ret = 0 \<longrightarrow> (\<forall>k. unat b div ?z \<le> k \<longrightarrow> k \<le> i \<longrightarrow> good_node n ?g T1 (unat b) (unat l) k)"
    "ret \<noteq> 0 \<longrightarrow> partial (Suc n) ?g T1 (unat b) (unat l)"
    "\<forall>x \<le> unat l. i < x div ?z \<longrightarrow> perm_at (Suc n) T1 x = None"
    by (rule fill_step [OF f n b E di less.prems]) blast
  show ?case
  proof (cases "ret = 0 \<and> i < ?li")
    case False
    then have "for_ret (fill_body E tid fd di n r t b l) [i..<Suc ?li] s = Some (ret, s1)"
      using h(1) less.prems(2) unfolding list by auto
    moreover have "if ret = 0 then \<forall>k. unat b div ?z \<le> k \<longrightarrow> k \<le> ?li \<longrightarrow> good_node n ?g T1 (unat b) (unat l) k
       else partial (Suc n) ?g T1 (unat b) (unat l)" using h(6,7) False less.prems(2) by auto
    ultimately show ?thesis using h(2-5) by blast
  next
    case True
    have ok1: "tree_ok (Suc n) T1" by (rule changedD(1) [OF h(4)])
    note t1 = after_tab [OF less.prems(3) h(2,3) ok1]
    have bi: "unat b div ?z \<le> Suc i" using less.prems(1) by simp
    have free1: "perm_at (Suc n) T1 x = None" if "Suc i * ?z + lo ?z (unat b) (Suc i) \<le> x" "x \<le> unat l" for x
    proof -
      have "Suc i * ?z \<le> x" using that(1) by linarith
      then have "Suc i \<le> x div ?z" using div_le_mono [of "Suc i * ?z" x ?z] by simp
      then show ?thesis using h(8) that(2) by simp
    qed
    have dec: "?li - Suc i < ?li - i" by (rule diff_less_mono2) (use True in simp_all)
    from less.hyps [OF dec bi _ t1(1)] True h(6) free1 t1(2) obtain ret' s' T' where
      k: "for_ret (fill_body E tid fd di n r t b l) [Suc i..<Suc ?li] s1 = Some (ret', s')" "after (Suc n) r t s1 s' T'"
        "T' \<noteq> Map.empty" "changed (Suc n) T1 T' (Suc i * ?z + lo ?z (unat b) (Suc i)) (unat l)" "fill_ret E tid fd s' ret'"
        "if ret' = 0 then \<forall>k. unat b div ?z \<le> k \<longrightarrow> k \<le> ?li \<longrightarrow> good_node n ?g T' (unat b) (unat l) k
         else partial (Suc n) ?g T' (unat b) (unat l)" by auto
    have "i * ?z + lo ?z (unat b) i \<le> Suc i * ?z + lo ?z (unat b) (Suc i)"
      using lo_less [OF rsize_pos(1), of n "unat b" i] by (simp add: trans_le_add1 less_imp_le)
    from changed_trans [OF h(4) changed_mono [OF k(4) this order_refl]]
    have "changed (Suc n) ?T T' (i * ?z + lo ?z (unat b) i) (unat l)" .
    moreover have "for_ret (fill_body E tid fd di n r t b l) [i..<Suc ?li] s = Some (ret', s')"
      unfolding list using h(1) True k(1) by simp
    moreover have "after (Suc n) r t s s' T'" by (rule after_trans [OF h(2,3) k(2)])
    ultimately show ?thesis using k(3,5,6) by blast
  qed
qed

lemma fill_by_level_ok:
  assumes E: "fresh_mem E" and di: "di_token_check di \<in> {0, 1}"
  shows "n \<le> 4 \<Longrightarrow> fills E tid fd n (req_attr di) (ummu_table_fill_node_by_level E tid fd di (4 - n))"
proof (induction n)
  case 0
  then show ?case by (simp add: fills_def tab_def)
next
  case (Suc n)
  then have n: "n \<le> 3" by simp
  have "Suc (3 - n) = 4 - n" using n by simp
  with Suc have f: "fills E tid fd n (req_attr di) (ummu_table_fill_node_by_level E tid fd di (Suc (3 - n)))" by simp
  show ?case unfolding fills_def
  proof (intro allI impI)
    fix r t s and b l :: u64
    let ?z = "rsize n" and ?T = "tree (Suc n) s t" and ?g = "req_attr di"
    assume t: "tab (Suc n) r t s" and b: "4096 dvd unat b" and bl: "unat b \<le> unat l" and l: "unat l < rsize (Suc n)"
      and free: "\<forall>x. unat b \<le> x \<longrightarrow> x \<le> unat l \<longrightarrow> perm_at (Suc n) ?T x = None"
    have b': "unat b < rsize (Suc n)" using bl l by simp
    have dv: "unat b div ?z \<le> unat l div ?z" using bl by (rule div_le_mono)
    have start: "unat b div ?z * ?z + lo ?z (unat b) (unat b div ?z) = unat b" by (simp add: lo_def)
    from fill_loop_ok [OF f n b' l bl b E di order_refl dv t] free
    obtain ret s' T' where h: "for_ret (fill_body E tid fd di n r t b l) [unat b div ?z..<Suc (unat l div ?z)] s = Some (ret, s')"
      "after (Suc n) r t s s' T'" "T' \<noteq> Map.empty" "changed (Suc n) ?T T' (unat b) (unat l)" "fill_ret E tid fd s' ret"
      "if ret = 0 then \<forall>k. unat b div ?z \<le> k \<longrightarrow> k \<le> unat l div ?z \<longrightarrow> good_node n ?g T' (unat b) (unat l) k
       else partial (Suc n) ?g T' (unat b) (unat l)" unfolding start by auto
    have "tiled (Suc n) ?g T' (unat b) (unat l)" if "ret = 0"
    proof (rule tiledI [OF bl])
      fix i assume "unat b div ?z \<le> i" "i \<le> unat l div ?z"
      with h(6) that show "\<exists>p. T' i = Some p \<and> tiled_in (tiled n ?g) p (lo ?z (unat b) i) (hi ?z (unat l) i) ?g"
        by (auto simp: good_node_def)
    next
      fix i assume "unat b div ?z < i" "i < unat l div ?z"
      with h(6) that have "good_node n ?g T' (unat b) (unat l) i" by simp
      with \<open>unat b div ?z < i\<close> \<open>i < unat l div ?z\<close> show "T' i = Some (PNode 0 (?z - 1) ?g Map.empty)" by (auto simp: good_node_def)
    qed
    then have "if ret = 0 then tiled (Suc n) ?g T' (unat b) (unat l) else partial (Suc n) ?g T' (unat b) (unat l)"
      using h(6) by (simp split: if_splits)
    moreover have "ummu_table_fill_node_by_level E tid fd di (4 - Suc n) r b l s = Some (ret, s')"
      using fill_by_level_eq [OF t n b' l, of E tid fd di] h(1) by (simp del: upt_Suc)
    ultimately show "\<exists>ret s' T'. ummu_table_fill_node_by_level E tid fd di (4 - Suc n) r b l s = Some (ret, s') \<and>
        after (Suc n) r t s s' T' \<and> T' \<noteq> Map.empty \<and> changed (Suc n) ?T T' (unat b) (unat l) \<and> fill_ret E tid fd s' ret \<and>
        (if ret = 0 then tiled (Suc n) ?g T' (unat b) (unat l) else partial (Suc n) ?g T' (unat b) (unat l))"
      using h(2-5) by blast
  qed
qed

section \<open>Taking back a failed grant\<close>

text \<open>
  A failed fill is taken back by clearing its range; that stops at the node where the fill
  failed, with \<open>-EINVAL\<close>, after it has removed everything the fill had granted.
\<close>

definition takes_back :: "nat \<Rightarrow> (nref \<Rightarrow> u64 \<Rightarrow> u64 \<Rightarrow> walk \<Rightarrow> (int \<times> walk) option) \<Rightarrow> bool" where
  "takes_back n f \<longleftrightarrow> (\<forall>r t s g b l. tab n r t s \<longrightarrow> partial n g (tree n s t) (unat b) (unat l) \<longrightarrow> unat b \<le> unat l \<longrightarrow>
     unat l < rsize n \<longrightarrow> (\<exists>s' T'. f r b l s = Some (- EINVAL, s') \<and> after n r t s s' T' \<and> T' \<noteq> Map.empty \<and>
       erased n (tree n s t) T' (unat b) (unat l)))"

lemma partial_ne [simp]: "\<not> partial n g Map.empty b l"
  by (cases n) (auto simp: partial.simps(2))

lemma erased_apart:
  assumes "tree_ok (Suc n) T" "T i = Some (PNode b l a Map.empty)" "apart b l nb nl" "nb \<le> nl" "nl < rsize n"
  shows "erased (Suc n) T T (i * rsize n + nb) (i * rsize n + nl)"
proof -
  have "erased n Map.empty Map.empty nb nl" by (simp add: erased_def changed_refl)
  from erased_kids [OF assms(1,2) this assms(3-5)] assms(2) show ?thesis by (simp add: fun_upd_idem)
qed

lemma back_node:
  assumes f: "takes_back n (ummu_table_clear_node_by_level (Suc (3 - n)))" and t: "tab (Suc n) r t s" and n: "n \<le> 3"
    and b: "unat b < rsize (Suc n)" "unat l < rsize (Suc n)" "unat b \<le> unat l"
    and j: "\<not> (unat b div rsize n < j \<and> j < unat l div rsize n)"
    and p: "tree (Suc n) s t j = Some (PNode b' l' a K)" "apart b' l' (lo (rsize n) (unat b) j) (hi (rsize n) (unat l) j)"
      "K = Map.empty \<or> partial n g K (lo (rsize n) (unat b) j) (hi (rsize n) (unat l) j)"
  shows "\<exists>s' T'. clear_body n r t b l j s = Some (- EINVAL, s') \<and> after (Suc n) r t s s' T' \<and> T' \<noteq> Map.empty \<and>
    erased (Suc n) (tree (Suc n) s t) T' (j * rsize n + lo (rsize n) (unat b) j) (j * rsize n + hi (rsize n) (unat l) j)"
proof -
  let ?z = "rsize n" and ?T = "tree (Suc n) s t" and ?nb = "lo_word n b j" and ?nl = "hi_word n l j"
  note c = tab_node [OF t p(1)] and d = tabD [OF t]
  note rd = tab_rd [OF t c(1)] and ok = tree_okD [OF d(3) p(1)]
  note w = level_words(2,3) [OF n b(1,2), of j, folded lo_word_def hi_word_def]
  have r: "unat ?nb \<le> unat ?nl" "unat ?nl < ?z" unfolding w using lo_le_hi [OF rsize_pos(1) b(3)] by auto
  have ap: "apart b' l' (unat ?nb) (unat ?nl)" using p(2) w by simp
  have "unat (tn_base (nd s t j)) \<noteq> unat ?nb" using apart_base [OF ap ok(2) r(1)] c(3) by simp
  then have base: "tn_base (nd s t j) \<noteq> ?nb" by auto
  have head: "clear_body n r t b l j s = (if tn_type (nd s t j) = 0
      then ummu_table_clear_node_by_level (Suc (3 - n)) (lref t j) ?nb ?nl s else Some (- EINVAL, s))"
    using rd c(2) j base by (auto simp: clear_body_def ummu_table_clear_head_node_def)
  have ne: "?T \<noteq> Map.empty" using p(1) by auto
  show ?thesis
  proof (cases "K = Map.empty")
    case True
    then have "clear_body n r t b l j s = Some (- EINVAL, s)" using head c(7) by simp
    moreover have "erased (Suc n) ?T ?T (j * ?z + unat ?nb) (j * ?z + unat ?nl)"
      by (rule erased_apart [OF d(3) p(1) [unfolded True] ap r])
    ultimately show ?thesis using after_refl [OF d(1,2) ne, of r] ne w by metis
  next
    case False
    then have ty: "tn_type (nd s t j) = 0" and K: "K = tree n s (tgt (nd s t j))" using c(6,7) by auto
    have "partial n g (tree n s (tgt (nd s t j))) (unat ?nb) (unat ?nl)" using p(3) False K w by simp
    with f tab_kids [OF t c(1,2) ty] r obtain s' K' where
      s': "ummu_table_clear_node_by_level (Suc (3 - n)) (lref t j) ?nb ?nl s = Some (- EINVAL, s')"
        "after n (lref t j) (tgt (nd s t j)) s s' K'" "erased n K K' (unat ?nb) (unat ?nl)"
      unfolding takes_back_def K by metis
    have "after (Suc n) r t s s' (?T(j \<mapsto> PNode b' l' a K'))"
      using after_kids [OF d(2) c(1) refl c(2) ty s'(2) d(5,4)] c(3-5) by simp
    moreover have "erased (Suc n) ?T (?T(j \<mapsto> PNode b' l' a K')) (j * ?z + unat ?nb) (j * ?z + unat ?nl)"
      by (rule erased_kids [OF d(3) p(1) s'(3) ap r])
    moreover have "clear_body n r t b l j s = Some (- EINVAL, s')" using head ty s'(1) by simp
    moreover have "?T(j \<mapsto> PNode b' l' a K') \<noteq> Map.empty" by simp
    ultimately show ?thesis unfolding w by blast
  qed
qed

text \<open>The nodes before the one where the fill failed are cleared first.\<close>

lemma back_prefix:
  assumes f: "clears n (ummu_table_clear_node_by_level (Suc (3 - n)))" and t: "tab (Suc n) r t s" and n: "n \<le> 3"
    and b: "unat b < rsize (Suc n)" "unat l < rsize (Suc n)" "unat b \<le> unat l"
    and j: "unat b div rsize n \<le> j" "j \<le> unat l div rsize n" and p: "tree (Suc n) s t j = Some p"
    and good: "\<And>k. unat b div rsize n \<le> k \<Longrightarrow> k < j \<Longrightarrow> good_node n g (tree (Suc n) s t) (unat b) (unat l) k"
  shows "\<exists>s' T'. for_ret (clear_body n r t b l) [unat b div rsize n..<j] s = Some (0, s') \<and> after (Suc n) r t s s' T' \<and>
    T' j = Some p \<and> changed (Suc n) (tree (Suc n) s t) T' (unat b) (unat l) \<and>
    (\<forall>x. unat b \<le> x \<longrightarrow> x div rsize n < j \<longrightarrow> perm_at (Suc n) T' x = None) \<and>
    (\<forall>x. j \<le> x div rsize n \<longrightarrow> perm_at (Suc n) T' x = perm_at (Suc n) (tree (Suc n) s t) x)"
proof (cases "j = unat b div rsize n")
  case True
  note d = tabD [OF t]
  have "tree (Suc n) s t \<noteq> Map.empty" using p by auto
  with True show ?thesis using after_refl [OF d(1,2), of r] p changed_refl [OF d(3)]
    by (intro exI [of _ s] exI [of _ "tree (Suc n) s t"]) (auto dest: div_le_mono [of _ _ "rsize n"])
next
  case False
  let ?z = "rsize n" and ?T = "tree (Suc n) s t" and ?i = "unat b div rsize n"
  have lt: "?i < j" using False j(1) by simp
  have le: "j \<le> Suc (unat l div ?z)" using j(2) by simp
  from clear_loop_nodes [OF f n b lt le order_refl t good] obtain s1 T1 where
    h: "for_ret (clear_body n r t b l) [?i..<j] s = Some (0, s1)" "after (Suc n) r t s s1 T1"
      "erased (Suc n) ?T T1 (?i * ?z + lo ?z (unat b) ?i) ((j - 1) * ?z + hi ?z (unat l) (j - 1))"
      "\<forall>x. x < ?i \<or> j \<le> x \<longrightarrow> T1 x = ?T x" by auto
  have j1: "j - 1 < unat l div ?z" using lt j(2) by linarith
  have ends: "?i * ?z + lo ?z (unat b) ?i = unat b" "(j - 1) * ?z + hi ?z (unat l) (j - 1) = j * ?z - 1"
  proof -
    show "?i * ?z + lo ?z (unat b) ?i = unat b" by (simp add: lo_def)
    have "Suc (j - 1) * ?z = j * ?z" using lt by simp
    moreover have "Suc 0 \<le> ?z" by simp
    ultimately show "(j - 1) * ?z + hi ?z (unat l) (j - 1) = j * ?z - 1" using j1 unfolding hi_def mult_Suc by auto
  qed
  note e = h(3) [unfolded ends]
  have jl: "j * ?z \<le> unat l" using j(2) by (metis div_times_less_eq_dividend le_trans mult_le_mono1)
  have "changed (Suc n) ?T T1 (unat b) (unat l)"
    by (rule changed_mono [where b = "unat b" and l = "j * ?z - 1"]) (use e jl in \<open>auto simp: erased_def\<close>)
  moreover have "perm_at (Suc n) T1 x = None" if "unat b \<le> x" "x div ?z < j" for x
  proof -
    have "x < j * ?z" using that(2) by (simp add: div_less_iff_less_mult)
    with e that(1) show ?thesis by (simp add: erased_def)
  qed
  moreover have "perm_at (Suc n) T1 x = perm_at (Suc n) ?T x" if "j \<le> x div ?z" for x
    using h(4) that by (simp add: perm_at_Suc)
  moreover have "T1 j = Some p" using h(4) p by simp
  ultimately show ?thesis using h(1,2) by blast
qed

lemma clear_by_level_back: "n \<le> 4 \<Longrightarrow> takes_back n (ummu_table_clear_node_by_level (4 - n))"
proof (induction n)
  case 0
  then show ?case by (simp add: takes_back_def)
next
  case (Suc n)
  then have n: "n \<le> 3" by simp
  have lv: "Suc (3 - n) = 4 - n" using n by simp
  with Suc have f: "takes_back n (ummu_table_clear_node_by_level (Suc (3 - n)))" by simp
  have cl: "clears n (ummu_table_clear_node_by_level (Suc (3 - n)))" using clear_by_level_ok [of n] n lv by simp
  show ?case unfolding takes_back_def
  proof (intro allI impI)
    fix r t s g and b l :: u64
    let ?z = "rsize n" and ?T = "tree (Suc n) s t"
    assume t: "tab (Suc n) r t s" and pa: "partial (Suc n) g ?T (unat b) (unat l)" and bl: "unat b \<le> unat l"
      and l: "unat l < rsize (Suc n)"
    have b: "unat b < rsize (Suc n)" using bl l by simp
    from pa obtain j b' l' a K where j: "unat b div ?z \<le> j" "j \<le> unat l div ?z" "\<not> (unat b div ?z < j \<and> j < unat l div ?z)"
      and good: "\<forall>k. unat b div ?z \<le> k \<longrightarrow> k < j \<longrightarrow> good_node n g ?T (unat b) (unat l) k"
      and tail: "\<forall>x \<le> unat l. j < x div ?z \<longrightarrow> perm_at (Suc n) ?T x = None"
      and p: "?T j = Some (PNode b' l' a K)" "apart b' l' (lo ?z (unat b) j) (hi ?z (unat l) j)"
        "K = Map.empty \<or> partial n g K (lo ?z (unat b) j) (hi ?z (unat l) j)"
      unfolding partial.simps(2) by blast
    from back_prefix [OF cl t n b l bl j(1,2) p(1) good [rule_format]] obtain s1 T1 where
      h: "for_ret (clear_body n r t b l) [unat b div ?z..<j] s = Some (0, s1)" "after (Suc n) r t s s1 T1" "T1 j = Some (PNode b' l' a K)"
        "changed (Suc n) ?T T1 (unat b) (unat l)" "\<forall>x. unat b \<le> x \<longrightarrow> x div ?z < j \<longrightarrow> perm_at (Suc n) T1 x = None"
        "\<forall>x. j \<le> x div ?z \<longrightarrow> perm_at (Suc n) T1 x = perm_at (Suc n) ?T x" by blast
    have ne: "T1 \<noteq> Map.empty" using h(3) by auto
    note t1 = after_tab [OF t h(2) ne changedD(1) [OF h(4)]]
    from back_node [OF f t1(1) n b l bl j(3) _ p(2,3)] h(3) t1(2) obtain s2 T2 where
      k: "clear_body n r t b l j s1 = Some (- EINVAL, s2)" "after (Suc n) r t s1 s2 T2" "T2 \<noteq> Map.empty"
        "erased (Suc n) T1 T2 (j * ?z + lo ?z (unat b) j) (j * ?z + hi ?z (unat l) j)" by auto
    have split: "[unat b div ?z..<Suc (unat l div ?z)] = [unat b div ?z..<j] @ j # [Suc j..<Suc (unat l div ?z)]"
      using upt_add_eq_append [OF j(1), of "Suc (unat l div ?z) - j"] j(2) by (simp add: upt_conv_Cons del: upt_Suc)
    have "ummu_table_clear_node_by_level (4 - Suc n) r b l s = Some (- EINVAL, s2)"
      using clear_by_level_eq [OF t n b l] h(1) k(1) unfolding split by (simp add: for_ret_append EINVAL_def)
    moreover have "after (Suc n) r t s s2 T2" by (rule after_trans [OF h(2) ne k(2)])
    moreover have "erased (Suc n) ?T T2 (unat b) (unat l)"
    proof -
      have c2: "changed (Suc n) T1 T2 (j * ?z + lo ?z (unat b) j) (j * ?z + hi ?z (unat l) j)" using k(4) by (simp add: erased_def)
      have ends: "unat b \<le> j * ?z + lo ?z (unat b) j" "j * ?z + hi ?z (unat l) j \<le> unat l"
        using cut_iff [OF rsize_pos(1), of "unat b" n "j * ?z + lo ?z (unat b) j" "unat l"]
          cut_iff [OF rsize_pos(1), of "unat b" n "j * ?z + hi ?z (unat l) j" "unat l"] lo_le_hi [OF rsize_pos(1) bl, of n j] j(1,2)
        by (auto simp: glue)
      have "changed (Suc n) ?T T2 (unat b) (unat l)" by (rule changed_trans [OF h(4) changed_mono [OF c2 ends]])
      moreover have "perm_at (Suc n) T2 x = None" if x: "unat b \<le> x" "x \<le> unat l" for x
      proof (cases "j * ?z + lo ?z (unat b) j \<le> x \<and> x \<le> j * ?z + hi ?z (unat l) j")
        case True
        with k(4) show ?thesis by (simp add: erased_def)
      next
        case False
        note c = cut_range [OF rsize_pos(1) x, of n]
        have "x div ?z \<noteq> j"
        proof
          assume "x div ?z = j"
          then have "x = j * ?z + x mod ?z" by (metis div_mult_mod_eq)
          with c \<open>x div ?z = j\<close> False show False by (metis add_le_cancel_left)
        qed
        moreover have "perm_at (Suc n) T2 x = perm_at (Suc n) T1 x" using changedD(2) [OF c2] False by (simp add: not_le)
        ultimately show ?thesis using h(5,6) tail x by (cases "x div ?z < j") auto
      qed
      ultimately show ?thesis by (simp add: erased_def)
    qed
    ultimately show "\<exists>s' T'. ummu_table_clear_node_by_level (4 - Suc n) r b l s = Some (- EINVAL, s') \<and>
        after (Suc n) r t s s' T' \<and> T' \<noteq> Map.empty \<and> erased (Suc n) ?T T' (unat b) (unat l)" using k(3) by blast
  qed
qed

end
