(* ===== verification/Ummu_TableToken.thy ===== *)
theory Ummu_TableToken
  imports Ummu_TableFill
begin

text \<open>
  Token operations on a granted range: \<^verbatim>\<open>ummu_table_update_token_by_level\<close> changes the tokens of
  every piece of the range in the same way, or refuses and changes nothing.
\<close>

section \<open>Changing the tokens of a range\<close>

text \<open>The effect of a token operation on the attributes of a grant.\<close>

definition token_attr :: "data_info \<Rightarrow> grant_attr \<Rightarrow> int \<times> grant_attr" where
  "token_attr di g = (case ga_tokens g of None \<Rightarrow> (- EINVAL, g) | Some (v0, v1, k) \<Rightarrow>
     (case di_op di of
        UMMU_ADD_TOKEN \<Rightarrow> if k = 1 then (0, g\<lparr>ga_tokens := Some (v0, di_tokenval di, 2)\<rparr>) else (- EINVAL, g)
      | UMMU_REMOVE_TOKEN \<Rightarrow> if v0 = di_tokenval di then (0, g\<lparr>ga_tokens := Some (v1, v1, 1)\<rparr>)
          else if v1 = di_tokenval di then (0, g\<lparr>ga_tokens := Some (v0, v0, 1)\<rparr>) else (- EINVAL, g)
      | _ \<Rightarrow> (- EINVAL, g)))"

lemma token_attr_ret: "fst (token_attr di g) \<in> {0, - EINVAL}" "fst (token_attr di g) \<noteq> 0 \<Longrightarrow> snd (token_attr di g) = g"
  by (auto simp: token_attr_def split: option.splits grant_op.splits if_splits)

lemma cast_update_attr:
  assumes "tn_valid v = 1" "ga_tokens (attr_of v) \<noteq> None" "cast_update_token v di = (ret, w)"
  shows "ret = fst (token_attr di (attr_of v))" "attr_of w = snd (token_attr di (attr_of v))"
    "tn_valid w = 1" "tn_type w = tn_type v" "tn_base w = tn_base v" "tn_limit w = tn_limit v" "tgt w = tgt v" "pts w = pts v"
    "tn_next_lv_index w = tn_next_lv_index v" "tn_lv_offset w = tn_lv_offset v" "ret \<noteq> 0 \<Longrightarrow> w = v"
proof -
  have c: "tn_token_check v = 1" using assms(2) by (auto simp: attr_of_def split: if_splits)
  have "ret = fst (token_attr di (attr_of v)) \<and> attr_of w = snd (token_attr di (attr_of v)) \<and>
    tn_valid w = 1 \<and> tn_type w = tn_type v \<and> tn_base w = tn_base v \<and> tn_limit w = tn_limit v \<and> tgt w = tgt v \<and> pts w = pts v \<and>
    tn_next_lv_index w = tn_next_lv_index v \<and> tn_lv_offset w = tn_lv_offset v \<and> (ret \<noteq> 0 \<longrightarrow> w = v)"
    using assms(1,3) c unfolding cast_update_token_eq
    by (cases "di_op di")
      (auto simp: token_attr_def attr_of_def tn_base_def tn_limit_def tgt_def pts_def tn_lv_offset_def fun_eq_iff split: if_splits)
  then show "ret = fst (token_attr di (attr_of v))" "attr_of w = snd (token_attr di (attr_of v))"
    "tn_valid w = 1" "tn_type w = tn_type v" "tn_base w = tn_base v" "tn_limit w = tn_limit v" "tgt w = tgt v" "pts w = pts v"
    "tn_next_lv_index w = tn_next_lv_index v" "tn_lv_offset w = tn_lv_offset v" "ret \<noteq> 0 \<Longrightarrow> w = v"
    by auto
qed

text \<open>A node is overwritten by one with the same next level.\<close>

lemma overwrite_node:
  assumes t: "tab (Suc n) r t s" and p: "tree (Suc n) s t i = Some (PNode b l a K)"
    and w: "tn_valid w = 1" "tn_type w = tn_type (nd s t i)" "tn_base w = tn_base (nd s t i)" "tn_limit w = tn_limit (nd s t i)"
      "tgt w = tgt (nd s t i)" "pts w = pts (nd s t i)"
  shows "\<exists>s'. wr_node (lref t i) w s = Some s' \<and> after (Suc n) r t s s' ((tree (Suc n) s t)(i \<mapsto> PNode b l (attr_of w) K))"
proof -
  note d = tabD [OF t] and c = tab_node [OF t p]
  note W = wftD [OF d(2)]
  have i: "i < 512" by (rule c(1))
  let ?s' = "put_nd t i w s"
  have pr: "present s t" by (rule live_present [OF d(8,9)])
  have wr: "wr_node (lref t i) w s = Some ?s'" by (rule wr_lref [OF d(8) pr i])
  note nv = put_nd_view [OF d(8) pr i, where n = w]
  have vr: "vref s (lref t i)" using i d(9) by simp
  let ?F = "below n s (nd s t i)"
  have out: "outer (lref t i) ?F" using W(4) [OF i] by (auto simp: outer_def lref_eq i)
  have lv: "live s u" if "u \<in> ?F" for u using foot_live [OF d(2)] below_subset [OF i, of n s t] that by blast
  note mv = moved_put_ref [OF d(1) vr out lv, where n = w]
  have e: "put_ref (lref t i) w s = ?s'" using i by simp
  have ag: "agree ?F s ?s'" using mv(2) by (simp only: e)
  note ln = local_node [OF ag c(2)]
  have same: "below n ?s' w = below n ?s' (nd s t i)" "wfv n ?s' w = wfv n ?s' (nd s t i)"
    using w c(2) by (simp_all add: below_def wfv_def)
  have m: "moved ?F (below n ?s' w) (lref t i) s ?s'" using mv(1) by (simp only: e same(1) ln(1))
  have nw: "w = nd ?s' t i" using nv(4) [OF i, of t] by simp
  have wv: "wfv n ?s' w" using W(3) [OF i c(2)] same(2) ln(3) by simp
  have "view n ?s' (nd s t i) = PNode b l a K" using ln(2) p i c(2) by (simp add: tree_Suc)
  then have "view n ?s' w = PNode b l (attr_of w) K" using w by (auto simp: view_def)
  with after_node [OF d(2) i c(2) m nw w(1) wv d(5,4)] wr show ?thesis by auto
qed

definition updates :: "nat \<Rightarrow> data_info \<Rightarrow> (nref \<Rightarrow> u64 \<Rightarrow> u64 \<Rightarrow> walk \<Rightarrow> (int \<times> walk) option) \<Rightarrow> bool" where
  "updates n di f \<longleftrightarrow> (\<forall>r t s g b l. tab n r t s \<longrightarrow> tiled n g (tree n s t) (unat b) (unat l) \<longrightarrow> unat l < rsize n \<longrightarrow>
     ga_tokens g \<noteq> None \<longrightarrow>
     (\<exists>s' T'. f r b l s = Some (fst (token_attr di g), s') \<and> after n r t s s' T' \<and> changed n (tree n s t) T' (unat b) (unat l) \<and>
        (if fst (token_attr di g) = 0 then tiled n (snd (token_attr di g)) T' (unat b) (unat l) else T' = tree n s t)))"

definition token_body :: "data_info \<Rightarrow> nat \<Rightarrow> nref \<Rightarrow> nat \<Rightarrow> u64 \<Rightarrow> u64 \<Rightarrow> nat \<Rightarrow> walk \<Rightarrow> (int \<times> walk) option" where
  "token_body di n r t b l i s = do {
     cur_node \<leftarrow> rd_node (lref t i) s;
     if tn_valid cur_node = 0 then Some (- EINVAL, s)
     else let (ret, updated) = cast_update_token cur_node di
       in if unat b div rsize n < i \<and> i < unat l div rsize n then do { s1 \<leftarrow> wr_node (lref t i) updated s; Some (ret, s1) }
          else if tn_base cur_node = lo_word n b i \<and> tn_limit cur_node \<le> hi_word n l i then do {
            s1 \<leftarrow> wr_node (lref t i) updated s;
            if ret \<noteq> 0 then Some (ret, s1)
            else if tn_type updated = 0 \<and> tn_limit cur_node < hi_word n l i
            then ummu_table_update_token_by_level di (Suc (3 - n)) (lref t i) (tn_limit cur_node + 1) (hi_word n l i) s1
            else Some (0, s1) }
          else if tn_type cur_node = 0
          then ummu_table_update_token_by_level di (Suc (3 - n)) (lref t i) (lo_word n b i) (hi_word n l i) s
          else Some (- EINVAL, s) }"

lemma update_by_level_eq:
  assumes t: "tab (Suc n) r t s" and n: "n \<le> 3" and b: "unat b < rsize (Suc n)" "unat l < rsize (Suc n)"
  shows "ummu_table_update_token_by_level di (3 - n) r b l s =
    for_ret (token_body di n r t b l) [unat b div rsize n..<Suc (unat l div rsize n)] s"
proof -
  note d = tabD [OF t]
  obtain blk where blk: "arr_rd (tc_mapt_block_array (wk_ctx s)) (t div 4) = Some (Some blk)"
    by (rule arr_block [OF d(8,9)])
  note bw = level_words [OF n b] and lw = level_words(1) [OF n b(2,2)]
  have lv: "(MAX_LEVEL_INDEX < 3 - n) = False" by (simp add: MAX_LEVEL_INDEX_def)
  show ?thesis
    by (subst ummu_table_update_token_by_level.simps)
      (simp only: d(10-12) blk lv Let_def At_lref bw(1) lw token_body_def [abs_def] lo_word_def hi_word_def
        bind.simps if_False option.distinct Suc_eq_plus1 [symmetric])
qed

text \<open>A token operation on the range below a node.\<close>

lemma update_kids:
  assumes f: "updates n di f" and t: "tab (Suc n) r t s" and p: "tree (Suc n) s t i = Some (PNode b l a K)"
    and k: "tiled n g K (unat nb) (unat nl)" "apart b l (unat nb) (unat nl)" "unat nl < rsize n" and g: "ga_tokens g \<noteq> None"
    and e: "(ret, g') = token_attr di g"
  shows "\<exists>s' K'. f (lref t i) nb nl s = Some (ret, s') \<and> after (Suc n) r t s s' ((tree (Suc n) s t)(i \<mapsto> PNode b l a K')) \<and>
    changed (Suc n) (tree (Suc n) s t) ((tree (Suc n) s t)(i \<mapsto> PNode b l a K')) (i * rsize n + unat nb) (i * rsize n + unat nl) \<and>
    (if ret = 0 then tiled n g' K' (unat nb) (unat nl) else K' = K)"
proof -
  note c = tab_node [OF t p] and d = tabD [OF t]
  have ty: "tn_type (nd s t i) = 0" using c(7) k(1) by auto
  have K: "K = tree n s (tgt (nd s t i))" using c(6) ty by simp
  have r: "ret = fst (token_attr di g)" "g' = snd (token_attr di g)" using e by (metis fst_conv, metis snd_conv)
  from f tab_kids [OF t c(1,2) ty] k(1,3) g obtain s' K' where
    s': "f (lref t i) nb nl s = Some (ret, s')" "after n (lref t i) (tgt (nd s t i)) s s' K'" "changed n K K' (unat nb) (unat nl)"
      "if ret = 0 then tiled n g' K' (unat nb) (unat nl) else K' = K"
    unfolding updates_def K r by metis
  from after_kids [OF d(2) c(1) refl c(2) ty s'(2) d(5,4)] c(3-5)
  have "after (Suc n) r t s s' ((tree (Suc n) s t)(i \<mapsto> PNode b l a K'))" by simp
  with s' changed_kids(1) [OF d(3) p s'(3) k(2) tiled_le [OF k(1)] k(3)] show ?thesis by blast
qed

text \<open>The node at one end of the range.\<close>

lemma update_own:
  assumes t: "tab (Suc n) r t s" and p: "tree (Suc n) s t i = Some (PNode b l g K)" and g: "ga_tokens g \<noteq> None"
    and e: "(ret, g') = token_attr di g" and w: "cast_update_token (nd s t i) di = (ret', w)"
  shows "ret' = ret" "tn_type w = tn_type (nd s t i)"
    "\<exists>s'. wr_node (lref t i) w s = Some s' \<and> after (Suc n) r t s s' ((tree (Suc n) s t)(i \<mapsto> PNode b l g' K))"
proof -
  note c = tab_node [OF t p]
  have g': "ga_tokens (attr_of (nd s t i)) \<noteq> None" using g c(5) by simp
  note u = cast_update_attr [OF c(2) g' w]
  have a: "ret = fst (token_attr di (attr_of (nd s t i)))" "g' = snd (token_attr di (attr_of (nd s t i)))"
    using e c(5) by (metis fst_conv, metis snd_conv)
  show "ret' = ret" using u(1) a by simp
  show "tn_type w = tn_type (nd s t i)" by (rule u)
  show "\<exists>s'. wr_node (lref t i) w s = Some s' \<and> after (Suc n) r t s s' ((tree (Suc n) s t)(i \<mapsto> PNode b l g' K))"
    using overwrite_node [OF t p u(3-8)] a(2) u(2) by simp
qed

text \<open>The node that begins the range's part, and what of the part lies below it.\<close>

lemma update_head:
  assumes f: "updates n di (ummu_table_update_token_by_level di (Suc (3 - n)))" and t: "tab (Suc n) r t s" and n: "n \<le> 3"
    and p: "tree (Suc n) s t i = Some (PNode (unat nb) l' g K)" "l' \<le> unat nl" "l' = unat nl \<or> tiled n g K (Suc l') (unat nl)"
      "unat nl < rsize n"
    and g: "ga_tokens g \<noteq> None" and e: "(ret, g') = token_attr di g" and u: "cast_update_token (nd s t i) di = (ret', u)"
  shows "\<exists>s' K'. do {
      s1 \<leftarrow> wr_node (lref t i) u s;
      if ret \<noteq> 0 then Some (ret, s1)
      else if tn_type (nd s t i) = 0 \<and> l' < unat nl
        then ummu_table_update_token_by_level di (Suc (3 - n)) (lref t i) (tn_limit (nd s t i) + 1) nl s1 else Some (0, s1) } = Some (ret, s') \<and>
    after (Suc n) r t s s' ((tree (Suc n) s t)(i \<mapsto> PNode (unat nb) l' g' K')) \<and>
    changed (Suc n) (tree (Suc n) s t) ((tree (Suc n) s t)(i \<mapsto> PNode (unat nb) l' g' K')) (i * rsize n + unat nb) (i * rsize n + unat nl) \<and>
    (if ret = 0 then l' = unat nl \<or> tiled n g' K' (Suc l') (unat nl) else K' = K \<and> g' = g)"
proof -
  let ?T = "tree (Suc n) s t" and ?z = "rsize n"
  let ?T1 = "?T(i \<mapsto> PNode (unat nb) l' g' K)"
  note c = tab_node [OF t p(1)] and d = tabD [OF t] and o = update_own [OF t p(1) g e u]
  from o(3) obtain s1 where s1: "wr_node (lref t i) u s = Some s1" "after (Suc n) r t s s1 ?T1" by blast
  have ok: "unat nb \<le> l'" "l' < ?z" using tree_okD(2,3) [OF d(3) p(1)] by auto
  have same: "g' = g" if "ret \<noteq> 0" using token_attr_ret(2) [of di g] that e by (metis fst_conv snd_conv)
  have c1: "changed (Suc n) ?T ?T1 (i * ?z + unat nb) (i * ?z + unat nl)"
    by (rule changed_mono [OF changed_attr [OF d(3) p(1)]]) (use p in simp_all)
  have ne: "?T1 \<noteq> Map.empty" by simp
  show ?thesis
  proof (cases "ret = 0 \<and> l' < unat nl")
    case False
    then show ?thesis using s1 c1 p(2) same by (intro exI [of _ s1] exI [of _ K]) auto
  next
    case True
    then have tk: "tiled n g K (Suc l') (unat nl)" using p(3) by auto
    then have ty: "tn_type (nd s t i) = 0" using c(7) by auto
    note t1 = after_tab [OF t s1(2) ne changedD(1) [OF c1]]
    have p1: "tree (Suc n) s1 t i = Some (PNode (unat nb) l' g' K)" using t1(2) by simp
    have nx: "unat (tn_limit (nd s t i) + 1) = Suc l'" using limit_Suc [of "tn_limit (nd s t i)" n] c(4) ok(2) n by simp
    have ap: "apart (unat nb) l' (unat (tn_limit (nd s t i) + 1)) (unat nl)" by (simp add: nx apart_def)
    from update_kids [OF f t1(1) p1 tk [folded nx] ap p(4) g e] obtain s' K' where
      k: "ummu_table_update_token_by_level di (Suc (3 - n)) (lref t i) (tn_limit (nd s t i) + 1) nl s1 = Some (ret, s')"
        "after (Suc n) r t s1 s' (?T1(i \<mapsto> PNode (unat nb) l' g' K'))"
        "changed (Suc n) ?T1 (?T1(i \<mapsto> PNode (unat nb) l' g' K')) (i * ?z + unat (tn_limit (nd s t i) + 1)) (i * ?z + unat nl)"
        "if ret = 0 then tiled n g' K' (unat (tn_limit (nd s t i) + 1)) (unat nl) else K' = K" using t1(2) by auto
    have "changed (Suc n) ?T (?T1(i \<mapsto> PNode (unat nb) l' g' K')) (i * ?z + unat nb) (i * ?z + unat nl)"
      by (rule changed_trans [OF c1 changed_mono [OF k(3)]]) (use nx ok in simp_all)
    moreover have "after (Suc n) r t s s' (?T1(i \<mapsto> PNode (unat nb) l' g' K'))" by (rule after_trans [OF s1(2) ne k(2)])
    ultimately show ?thesis using True ty k(1,4) s1(1) nx by (intro exI [of _ s'] exI [of _ K']) simp
  qed
qed

lemma token_body_ok:
  assumes f: "updates n di (ummu_table_update_token_by_level di (Suc (3 - n)))" and t: "tab (Suc n) r t s" and n: "n \<le> 3"
    and b: "unat b < rsize (Suc n)" "unat l < rsize (Suc n)" "unat b \<le> unat l"
    and gd: "good_node n g (tree (Suc n) s t) (unat b) (unat l) i" and g: "ga_tokens g \<noteq> None" and e: "(ret, g') = token_attr di g"
  shows "\<exists>s' T'. token_body di n r t b l i s = Some (ret, s') \<and> after (Suc n) r t s s' T' \<and>
    changed (Suc n) (tree (Suc n) s t) T' (i * rsize n + lo (rsize n) (unat b) i) (i * rsize n + hi (rsize n) (unat l) i) \<and>
    (\<forall>x. x \<noteq> i \<longrightarrow> T' x = tree (Suc n) s t x) \<and> (if ret = 0 then good_node n g' T' (unat b) (unat l) i else T' = tree (Suc n) s t)"
proof -
  let ?z = "rsize n" and ?T = "tree (Suc n) s t" and ?nb = "lo_word n b i" and ?nl = "hi_word n l i"
  from gd obtain p where p: "?T i = Some p" "tiled_in (tiled n g) p (lo ?z (unat b) i) (hi ?z (unat l) i) g"
    "unat b div ?z < i \<Longrightarrow> i < unat l div ?z \<Longrightarrow> p = PNode 0 (?z - 1) g Map.empty" by (auto simp: good_node_def)
  obtain b' l' a K where P: "p = PNode b' l' a K" by (cases p)
  note pT = p(1) [unfolded P]
  note c = tab_node [OF t pT] and d = tabD [OF t]
  note rd = tab_rd [OF t c(1)] and ok = tree_okD [OF d(3) pT]
  note w = level_words(2,3) [OF n b(1,2), of i, folded lo_word_def hi_word_def]
  have lh: "unat ?nb \<le> unat ?nl" "unat ?nl < ?z" unfolding w using lo_le_hi [OF rsize_pos(1) b(3)] by auto
  have same: "g' = g" if "ret \<noteq> 0" using token_attr_ret(2) [of di g] that e by (metis fst_conv snd_conv)
  obtain ret' u where u: "cast_update_token (nd s t i) di = (ret', u)" by (cases "cast_update_token (nd s t i) di")
  consider (mid) "unat b div ?z < i \<and> i < unat l div ?z" "b' = 0" "l' = ?z - 1" "a = g" "K = Map.empty"
    | (own) "\<not> (unat b div ?z < i \<and> i < unat l div ?z)" "b' = unat ?nb" "l' \<le> unat ?nl" "a = g" "l' = unat ?nl \<or> tiled n g K (Suc l') (unat ?nl)"
    | (kids) "\<not> (unat b div ?z < i \<and> i < unat l div ?z)" "b' \<noteq> unat ?nb" "apart b' l' (unat ?nb) (unat ?nl)" "tiled n g K (unat ?nb) (unat ?nl)"
  proof (cases "unat b div ?z < i \<and> i < unat l div ?z")
    case True
    with p(3) P show ?thesis using mid by auto
  next
    case False
    from p(2) [unfolded P tiled_in_def pnode.case, folded w] show ?thesis using own [OF False] kids [OF False] less_imp_le by blast
  qed
  then show ?thesis
  proof cases
    case mid
    note o = update_own [OF t pT [unfolded mid(4)] g e u]
    from o(3) obtain s' where s': "wr_node (lref t i) u s = Some s'" "after (Suc n) r t s s' (?T(i \<mapsto> PNode b' l' g' K))" by blast
    have "token_body di n r t b l i s = Some (ret, s')" using rd c(2) u o(1) s'(1) mid(1) by (simp add: token_body_def)
    moreover have "lo ?z (unat b) i = 0" "hi ?z (unat l) i = ?z - 1" using mid(1) by (auto simp: lo_def hi_def)
    moreover have "changed (Suc n) ?T (?T(i \<mapsto> PNode b' l' g' K)) (i * ?z + b') (i * ?z + l')" by (rule changed_attr [OF d(3) pT])
    moreover have "good_node n g' (?T(i \<mapsto> PNode b' l' g' K)) (unat b) (unat l) i"
      using mid calculation(2,3) by (simp add: good_node_def tiled_in_def)
    moreover have "?T(i \<mapsto> PNode b' l' g' K) = ?T" if "ret \<noteq> 0" using same [OF that] pT mid(4) by auto
    ultimately show ?thesis using s'(2) mid(2,3) by (intro exI [of _ s'] exI [of _ "?T(i \<mapsto> PNode b' l' g' K)"]) simp
  next
    case own
    from update_head [OF f t n pT [unfolded own(2,4)] own(3,5) lh(2) g e u] obtain s' K' where
      k: "do {
        s1 \<leftarrow> wr_node (lref t i) u s;
        if ret \<noteq> 0 then Some (ret, s1)
        else if tn_type (nd s t i) = 0 \<and> l' < unat ?nl
          then ummu_table_update_token_by_level di (Suc (3 - n)) (lref t i) (tn_limit (nd s t i) + 1) ?nl s1 else Some (0, s1) } = Some (ret, s')"
      "after (Suc n) r t s s' (?T(i \<mapsto> PNode (unat ?nb) l' g' K'))"
      "changed (Suc n) ?T (?T(i \<mapsto> PNode (unat ?nb) l' g' K')) (i * ?z + unat ?nb) (i * ?z + unat ?nl)"
      "if ret = 0 then l' = unat ?nl \<or> tiled n g' K' (Suc l') (unat ?nl) else K' = K \<and> g' = g" by blast
    note o = update_own [OF t pT [unfolded own(4)] g e u]
    have "unat (tn_limit (nd s t i)) = l'" "tn_limit (nd s t i) \<le> ?nl" "tn_base (nd s t i) = ?nb"
      using c(3,4) own(2,3) by (simp_all add: word_le_nat_alt word_unat_eq_iff)
    then have "token_body di n r t b l i s = Some (ret, s')"
      unfolding k(1) [symmetric] using rd c(2) u o(1,2) own(1)
      by (auto simp: token_body_def word_less_nat_alt intro!: Option.bind_cong)
    moreover have "?T(i \<mapsto> PNode (unat ?nb) l' g' K') = ?T" if "ret \<noteq> 0" using that k(4) pT own(2,4) by auto
    moreover have "good_node n g' (?T(i \<mapsto> PNode (unat ?nb) l' g' K')) (unat b) (unat l) i" if "ret = 0"
      using that k(4) own(1,3) w by (auto simp: good_node_def tiled_in_def)
    ultimately show ?thesis using k(2,3) w
      by (intro exI [of _ s'] exI [of _ "?T(i \<mapsto> PNode (unat ?nb) l' g' K')"]) simp
  next
    case kids
    have ty: "tn_type (nd s t i) = 0" using c(7) kids(4) by auto
    have base: "tn_base (nd s t i) \<noteq> ?nb" using c(3) kids(2) by auto
    from update_kids [OF f t pT kids(4,3) lh(2) g e] obtain s' K' where
      k: "ummu_table_update_token_by_level di (Suc (3 - n)) (lref t i) ?nb ?nl s = Some (ret, s')"
        "after (Suc n) r t s s' (?T(i \<mapsto> PNode b' l' a K'))"
        "changed (Suc n) ?T (?T(i \<mapsto> PNode b' l' a K')) (i * ?z + unat ?nb) (i * ?z + unat ?nl)"
        "if ret = 0 then tiled n g' K' (unat ?nb) (unat ?nl) else K' = K" by auto
    have "token_body di n r t b l i s = Some (ret, s')"
      using rd c(2) u kids(1) base ty k(1) by (auto simp: token_body_def)
    moreover have "?T(i \<mapsto> PNode b' l' a K') = ?T" if "ret \<noteq> 0" using that k(4) pT by auto
    moreover have "good_node n g' (?T(i \<mapsto> PNode b' l' a K')) (unat b) (unat l) i" if "ret = 0"
      using that kids(1-3) w k(4) by (auto simp: good_node_def tiled_in_def)
    ultimately show ?thesis using k(2,3) w by (intro exI [of _ s'] exI [of _ "?T(i \<mapsto> PNode b' l' a K')"]) simp
  qed
qed

lemma token_loop_ok:
  assumes f: "updates n di (ummu_table_update_token_by_level di (Suc (3 - n)))" and n: "n \<le> 3"
    and b: "unat b < rsize (Suc n)" "unat l < rsize (Suc n)" "unat b \<le> unat l" and g: "ga_tokens g \<noteq> None"
    and e: "(0, g') = token_attr di g"
  shows "unat b div rsize n \<le> i \<Longrightarrow> i \<le> Suc (unat l div rsize n) \<Longrightarrow> tab (Suc n) r t s \<Longrightarrow>
    (\<And>k. unat b div rsize n \<le> k \<Longrightarrow> k \<le> unat l div rsize n \<Longrightarrow>
       good_node n (if k < i then g' else g) (tree (Suc n) s t) (unat b) (unat l) k) \<Longrightarrow>
    \<exists>s' T'. for_ret (token_body di n r t b l) [i..<Suc (unat l div rsize n)] s = Some (0, s') \<and> after (Suc n) r t s s' T' \<and>
      changed (Suc n) (tree (Suc n) s t) T' (unat b) (unat l) \<and>
      (\<forall>k. unat b div rsize n \<le> k \<longrightarrow> k \<le> unat l div rsize n \<longrightarrow> good_node n g' T' (unat b) (unat l) k)"
proof (induction "Suc (unat l div rsize n) - i" arbitrary: i s)
  let ?z = "rsize n"
  case 0
  then have i: "i = Suc (unat l div ?z)" by simp
  note d = tabD [OF 0(4)]
  have "unat b div ?z \<le> unat l div ?z" using b(3) by (rule div_le_mono)
  with 0(5) [of "unat l div ?z"] have "tree (Suc n) s t \<noteq> Map.empty" by (auto simp: good_node_def)
  from after_refl [OF d(1,2) this] 0(5) i changed_refl [OF d(3)] show ?case
    by (intro exI [of _ s] exI [of _ "tree (Suc n) s t"]) (auto simp: less_Suc_eq_le)
next
  case (Suc m)
  let ?z = "rsize n" and ?T = "tree (Suc n) s t"
  have i: "i \<le> unat l div ?z" using Suc.hyps(2) by simp
  have list: "[i..<Suc (unat l div ?z)] = i # [Suc i..<Suc (unat l div ?z)]" using i by (simp add: upt_conv_Cons del: upt_Suc)
  have gi: "good_node n g ?T (unat b) (unat l) i" using Suc.prems(4) [OF Suc.prems(1) i] by simp
  from token_body_ok [OF f Suc.prems(3) n b gi g e] obtain s1 T1 where
    h: "token_body di n r t b l i s = Some (0, s1)" "after (Suc n) r t s s1 T1"
      "changed (Suc n) ?T T1 (i * ?z + lo ?z (unat b) i) (i * ?z + hi ?z (unat l) i)"
      "\<forall>x. x \<noteq> i \<longrightarrow> T1 x = ?T x" "good_node n g' T1 (unat b) (unat l) i" by auto
  have ne: "T1 \<noteq> Map.empty" using h(5) by (auto simp: good_node_def)
  have c1: "changed (Suc n) ?T T1 (unat b) (unat l)" by (rule changed_mono [OF h(3) cut_ends [OF b(3) Suc.prems(1) i]])
  note t1 = after_tab [OF Suc.prems(3) h(2) ne changedD(1) [OF c1]]
  have gd: "good_node n (if k < Suc i then g' else g) (tree (Suc n) s1 t) (unat b) (unat l) k"
    if "unat b div ?z \<le> k" "k \<le> unat l div ?z" for k
  proof (cases "k = i")
    case True
    with h(5) t1(2) show ?thesis by simp
  next
    case False
    then have "(k < Suc i) = (k < i)" by auto
    with Suc.prems(4) [OF that] False h(4) t1(2) show ?thesis by (simp add: good_node_def)
  qed
  have m: "m = Suc (unat l div ?z) - Suc i" and bi: "unat b div ?z \<le> Suc i" and il: "Suc i \<le> Suc (unat l div ?z)"
    using Suc.hyps(2) Suc.prems(1) i by simp_all
  from Suc.hyps(1) [OF m bi il t1(1) gd] obtain s' T' where
    k: "for_ret (token_body di n r t b l) [Suc i..<Suc (unat l div ?z)] s1 = Some (0, s')" "after (Suc n) r t s1 s' T'"
      "changed (Suc n) T1 T' (unat b) (unat l)"
      "\<forall>k. unat b div ?z \<le> k \<longrightarrow> k \<le> unat l div ?z \<longrightarrow> good_node n g' T' (unat b) (unat l) k"
    unfolding t1(2) by blast
  have "for_ret (token_body di n r t b l) [i..<Suc (unat l div ?z)] s = Some (0, s')"
    unfolding list using h(1) k(1) by simp
  with after_trans [OF h(2) ne k(2)] changed_trans [OF c1 k(3)] k(4) show ?case by blast
qed

lemma update_by_level_ok: "n \<le> 4 \<Longrightarrow> updates n di (ummu_table_update_token_by_level di (4 - n))"
proof (induction n)
  case 0
  then show ?case by (simp add: updates_def)
next
  case (Suc n)
  then have n: "n \<le> 3" by simp
  have "Suc (3 - n) = 4 - n" using n by simp
  with Suc have f: "updates n di (ummu_table_update_token_by_level di (Suc (3 - n)))" by simp
  show ?case unfolding updates_def
  proof (intro allI impI)
    fix r t s g and b l :: u64
    let ?z = "rsize n" and ?T = "tree (Suc n) s t" and ?ret = "fst (token_attr di g)" and ?g' = "snd (token_attr di g)"
    assume t: "tab (Suc n) r t s" and tl: "tiled (Suc n) g ?T (unat b) (unat l)" and l: "unat l < rsize (Suc n)"
      and g: "ga_tokens g \<noteq> None"
    have bl: "unat b \<le> unat l" by (rule tiled_le [OF tl])
    then have b: "unat b < rsize (Suc n)" using l by simp
    have dv: "unat b div ?z \<le> unat l div ?z" using bl by (rule div_le_mono)
    note good = tiled_good [OF tl]
    have code: "ummu_table_update_token_by_level di (4 - Suc n) r b l s =
        for_ret (token_body di n r t b l) [unat b div ?z..<Suc (unat l div ?z)] s"
      using update_by_level_eq [OF t n b l] by simp
    show "\<exists>s' T'. ummu_table_update_token_by_level di (4 - Suc n) r b l s = Some (?ret, s') \<and> after (Suc n) r t s s' T' \<and>
        changed (Suc n) ?T T' (unat b) (unat l) \<and> (if ?ret = 0 then tiled (Suc n) ?g' T' (unat b) (unat l) else T' = ?T)"
    proof (cases "?ret = 0")
      case True
      then have e: "(0, ?g') = token_attr di g" by (metis prod.collapse)
      have "good_node n (if k < unat b div ?z then ?g' else g) ?T (unat b) (unat l) k"
        if "unat b div ?z \<le> k" "k \<le> unat l div ?z" for k using good [OF that] that by simp
      from token_loop_ok [OF f n b l bl g e order_refl _ t this] dv obtain s' T' where
        k: "for_ret (token_body di n r t b l) [unat b div ?z..<Suc (unat l div ?z)] s = Some (0, s')" "after (Suc n) r t s s' T'"
          "changed (Suc n) ?T T' (unat b) (unat l)"
          "\<forall>k. unat b div ?z \<le> k \<longrightarrow> k \<le> unat l div ?z \<longrightarrow> good_node n ?g' T' (unat b) (unat l) k" by auto
      with good_tiled [OF bl] code True show ?thesis by (intro exI [of _ s'] exI [of _ T']) simp
    next
      case False
      have gi: "good_node n g ?T (unat b) (unat l) (unat b div ?z)" by (rule good [OF order_refl dv])
      from token_body_ok [OF f t n b l bl gi g prod.collapse] False obtain s' where
        h: "token_body di n r t b l (unat b div ?z) s = Some (?ret, s')" "after (Suc n) r t s s' ?T" by auto
      have "[unat b div ?z..<Suc (unat l div ?z)] = unat b div ?z # [Suc (unat b div ?z)..<Suc (unat l div ?z)]"
        using dv by (simp add: upt_conv_Cons del: upt_Suc)
      then have "for_ret (token_body di n r t b l) [unat b div ?z..<Suc (unat l div ?z)] s = Some (?ret, s')"
        using h(1) False by simp
      with code h(2) False changed_refl [OF tabD(3) [OF t]] show ?thesis by auto
    qed
  qed
qed

end
