(* ===== verification/Ummu_TableSpec.thy ===== *)
theory Ummu_TableSpec
  imports Ummu_TableToken
begin

text \<open>
  The permission table as a set of grants.  \<open>represents s G\<close>: the tables in memory hold exactly the
  disjoint grants \<open>G\<close>, no level table is lost, and an address has the attributes of the grant it
  lies in.  Each operation of \<^verbatim>\<open>ummu_table_op\<close> is the corresponding operation on \<open>G\<close>.
\<close>

section \<open>The permission table as a set of grants\<close>

type_synonym grants = "(nat \<times> nat \<times> grant_attr) set"

text \<open>
  A table without leaks: the tables in use are exactly those reached from the root table, which
  is table 0.
\<close>

definition mapt_ok :: "walk \<Rightarrow> bool" where
  "mapt_ok s \<longleftrightarrow> store_ok s \<and> wft 4 s 0 \<and> tree_ok 4 (tree 4 s 0) \<and> (\<forall>u. live s u \<longleftrightarrow> u \<in> foot 4 s 0)"

definition disjoint_grants :: "grants \<Rightarrow> bool" where
  "disjoint_grants G \<longleftrightarrow> (\<forall>(b, l, g) \<in> G. \<forall>(b', l', g') \<in> G. (b, l, g) \<noteq> (b', l', g') \<longrightarrow> apart b l b' l')"

definition represents :: "walk \<Rightarrow> grants \<Rightarrow> bool" where
  "represents s G \<longleftrightarrow> mapt_ok s \<and> disjoint_grants G \<and>
     (\<forall>(b, l, g) \<in> G. l < 2 ^ 48 \<and> tiled 4 g (tree 4 s 0) b l) \<and>
     (\<forall>x g. perm_at 4 (tree 4 s 0) x = Some g \<longrightarrow> (\<exists>b l. (b, l, g) \<in> G \<and> b \<le> x \<and> x \<le> l))"

lemma rsize_4: "rsize 4 = 2 ^ 48"
  by (simp add: rsize_def)

lemma representsD:
  assumes "represents s G"
  shows "mapt_ok s" "disjoint_grants G" "(b, l, g) \<in> G \<Longrightarrow> l < 2 ^ 48" "(b, l, g) \<in> G \<Longrightarrow> tiled 4 g (tree 4 s 0) b l"
    "(b, l, g) \<in> G \<Longrightarrow> b \<le> l"
    "perm_at 4 (tree 4 s 0) x = Some g \<Longrightarrow> \<exists>b l. (b, l, g) \<in> G \<and> b \<le> x \<and> x \<le> l"
  using assms unfolding represents_def by (auto dest: tiled_le)

lemma represents_perm:
  assumes "represents s G"
  shows "perm_at 4 (tree 4 s 0) x = Some g \<longleftrightarrow> (\<exists>b l. (b, l, g) \<in> G \<and> b \<le> x \<and> x \<le> l)"
  using representsD(4,6) [OF assms] tiled_perm by metis

lemma represents_free:
  assumes "represents s G" "\<forall>(b', l', g) \<in> G. apart b' l' b l" "b \<le> x" "x \<le> l"
  shows "perm_at 4 (tree 4 s 0) x = None"
proof (rule ccontr)
  assume "perm_at 4 (tree 4 s 0) x \<noteq> None"
  then obtain g where "perm_at 4 (tree 4 s 0) x = Some g" by auto
  from representsD(6) [OF assms(1) this] assms(2-4) show False by (auto dest: apartD)
qed

lemma disjoint_grantsD:
  "disjoint_grants G \<Longrightarrow> (b, l, g) \<in> G \<Longrightarrow> (b', l', g') \<in> G \<Longrightarrow> (b, l, g) \<noteq> (b', l', g') \<Longrightarrow> apart b l b' l'"
  unfolding disjoint_grants_def by fast

lemma disjoint_grantsI:
  "(\<And>b l g b' l' g'. (b, l, g) \<in> G \<Longrightarrow> (b', l', g') \<in> G \<Longrightarrow> (b, l, g) \<noteq> (b', l', g') \<Longrightarrow> apart b l b' l') \<Longrightarrow> disjoint_grants G"
  unfolding disjoint_grants_def by blast

text \<open>The operations start from a root node on the stack that points to table 0.\<close>

lemma root_tab:
  assumes "mapt_ok s"
  defines "s0 \<equiv> s\<lparr>wk_root := zero_table_node\<rparr>"
  shows "tab 4 Local 0 s0" "tree 4 s0 0 = tree 4 s 0" "live s0 = live s" "foot 4 s0 0 = foot 4 s 0"
    "wk_ctx s0 = wk_ctx s"
proof -
  have m: "store_ok s" "wft 4 s 0" "tree_ok 4 (tree 4 s 0)" using assms(1) by (auto simp: mapt_ok_def)
  have "agree (foot 4 s 0) s s0" by (simp add: agree_def s0_def)
  from local_table [OF this] have w: "wft 4 s0 0" and e: "tree 4 s0 0 = tree 4 s 0" "foot 4 s0 0 = foot 4 s 0" using m by auto
  show "tree 4 s0 0 = tree 4 s 0" "foot 4 s0 0 = foot 4 s 0" by (rule e)+
  have "store_ok s0" using m(1) by (simp add: s0_def store_ok_def free_ok_def no_empty_present)
  moreover have "pts zero_table_node 0" "tn_type zero_table_node = 0"
    by (simp_all add: pts_def zero_table_node_def table_of_words_def tn_lv_offset_def TABLE_LVL_OFFSET_def)
  ultimately show "tab 4 Local 0 s0"
    using w e(1) m(3) by (simp add: tab_def outer_def lref_def s0_def)
  show "live s0 = live s" "wk_ctx s0 = wk_ctx s" by (simp_all add: s0_def)
qed

lemma root_after:
  assumes "mapt_ok s" "after 4 Local 0 (s\<lparr>wk_root := zero_table_node\<rparr>) s' T'" "tree_ok 4 T'"
  shows "mapt_ok s'" "tree 4 s' 0 = T'" "tc_granted_addr_mng (wk_ctx s') = tc_granted_addr_mng (wk_ctx s)"
proof -
  note r = root_tab [OF assms(1)]
  from assms(2) have m: "moved (foot 4 s 0) (foot 4 s' 0) Local (s\<lparr>wk_root := zero_table_node\<rparr>) s'" "wft 4 s' 0" "tree 4 s' 0 = T'"
    by (auto simp: after_def r(4))
  have "live s' u \<longleftrightarrow> u \<in> foot 4 s' 0" for u
    using movedD(2) [OF m(1), of u] assms(1) r(3) by (auto simp: mapt_ok_def)
  with m(2,3) movedD(1) [OF m(1)] assms(3) show "mapt_ok s'" by (simp add: mapt_ok_def)
  show "tree 4 s' 0 = T'" by (rule m)
  show "tc_granted_addr_mng (wk_ctx s') = tc_granted_addr_mng (wk_ctx s)" using movedD(7) [OF m(1)] by simp
qed

text \<open>Requests that the segment manager lets through, and what they do to the set of grants.\<close>

definition grant_legal :: "data_info \<Rightarrow> grants \<Rightarrow> bool" where
  "grant_legal di G \<longleftrightarrow> di_token_check di \<in> {0, 1} \<and> 4096 dvd unat (di_data_base di) \<and>
     unat (di_data_base di) \<le> unat (di_data_limit di) \<and> unat (di_data_limit di) < 2 ^ 48 \<and>
     (\<forall>(b, l, g) \<in> G. apart b l (unat (di_data_base di)) (unat (di_data_limit di)))"

definition legal :: "data_info \<Rightarrow> grants \<Rightarrow> bool" where
  "legal di G = (case di_op di of
     UMMU_GRANT \<Rightarrow> grant_legal di G
   | UMMU_UNGRANT \<Rightarrow> \<exists>g. (unat (di_data_base di), unat (di_data_limit di), g) \<in> G
   | UMMU_OP_END \<Rightarrow> True
   | _ \<Rightarrow> \<exists>g. (unat (di_data_base di), unat (di_data_limit di), g) \<in> G \<and> ga_tokens g \<noteq> None)"

definition next_grants :: "data_info \<Rightarrow> int \<Rightarrow> grants \<Rightarrow> grants" where
  "next_grants di ret G =
     (let b = unat (di_data_base di); l = unat (di_data_limit di) in
      if ret \<noteq> 0 then G
      else case di_op di of
        UMMU_GRANT \<Rightarrow> insert (b, l, req_attr di) G
      | UMMU_UNGRANT \<Rightarrow> {(b', l', g) \<in> G. (b', l') \<noteq> (b, l)}
      | UMMU_OP_END \<Rightarrow> G
      | _ \<Rightarrow> (\<lambda>(b', l', g). (b', l', if (b', l') = (b, l) then snd (token_attr di g) else g)) ` G)"

text \<open>
  What the operations have to return.  A grant may be refused only when the fill of the tables
  stops: with -ERANGE when all tables the TID may have are in use at that point, with -ENOMEM when
  the system may refuse memory.  Ungranting has no excuse, and a token operation returns what the
  same operation returns on the tokens of that grant.
\<close>

definition grant_refused :: "os_env \<Rightarrow> u32 \<Rightarrow> int \<Rightarrow> data_info \<Rightarrow> walk \<Rightarrow> int \<Rightarrow> bool" where
  "grant_refused E tid fd di s ret \<longleftrightarrow>
     (\<exists>s1. ummu_table_fill_node_by_level E tid fd di 0 Local (di_data_base di) (di_data_limit di) (s\<lparr>wk_root := zero_table_node\<rparr>) = Some (ret, s1) \<and>
       (ret = - ERANGE \<and> exhausted s1 \<or> ret = - ENOMEM \<and> memory_fails E tid fd s1))"

definition required_ret :: "os_env \<Rightarrow> u32 \<Rightarrow> int \<Rightarrow> data_info \<Rightarrow> walk \<Rightarrow> grants \<Rightarrow> int \<Rightarrow> bool" where
  "required_ret E tid fd di s G ret = (case di_op di of
     UMMU_GRANT \<Rightarrow> ret = 0 \<or> grant_refused E tid fd di s ret
   | UMMU_UNGRANT \<Rightarrow> ret = 0
   | UMMU_OP_END \<Rightarrow> ret = - EINVAL
   | _ \<Rightarrow> \<forall>g. (unat (di_data_base di), unat (di_data_limit di), g) \<in> G \<longrightarrow> ret = fst (token_attr di g))"

lemma same_range:
  assumes "represents s G" "(b, l, g) \<in> G"
  shows "(b, l, g') \<in> G \<Longrightarrow> g' = g" "(b', l', g') \<in> G \<Longrightarrow> (b', l') \<noteq> (b, l) \<Longrightarrow> apart b l b' l'"
proof -
  note d = disjoint_grantsD [OF representsD(2) [OF assms(1)] assms(2)]
  show "apart b l b' l'" if "(b', l', g') \<in> G" "(b', l') \<noteq> (b, l)" using d [OF that(1)] that(2) by blast
  show "g' = g" if "(b, l, g') \<in> G"
  proof (rule ccontr)
    assume "g' \<noteq> g"
    then have "apart b l b l" using d [OF that] by blast
    with representsD(5) [OF assms] show False by (simp add: apart_def)
  qed
qed

text \<open>An operation on one range leaves the grants of all other ranges.\<close>

lemma represents_upd:
  assumes r: "represents s G" and m: "mapt_ok s'" and c: "changed 4 (tree 4 s 0) (tree 4 s' 0) b l" and bl: "b \<le> l"
    and ap: "\<And>b' l' g. (b', l', g) \<in> G \<Longrightarrow> (b', l') \<noteq> (b, l) \<Longrightarrow> apart b l b' l'"
  defines "R \<equiv> {(b', l', g) \<in> G. (b', l') \<noteq> (b, l)}"
  shows "(\<And>x. b \<le> x \<Longrightarrow> x \<le> l \<Longrightarrow> perm_at 4 (tree 4 s' 0) x = None) \<Longrightarrow> represents s' R"
    "tiled 4 g' (tree 4 s' 0) b l \<Longrightarrow> l < 2 ^ 48 \<Longrightarrow> represents s' (insert (b, l, g') R)"
proof -
  let ?T = "tree 4 s 0" and ?T' = "tree 4 s' 0"
  have keep: "l' < 2 ^ 48 \<and> tiled 4 g ?T' b' l'" if "(b', l', g) \<in> R" for b' l' g
    using that representsD(3,4) [OF r] changedD(3) [OF c ap] by (auto simp: R_def)
  have dj: "disjoint_grants R"
    using representsD(2) [OF r] unfolding disjoint_grants_def R_def by fast
  have old: "\<exists>b' l'. (b', l', g) \<in> R \<and> b' \<le> x \<and> x \<le> l'" if "perm_at 4 ?T' x = Some g" "\<not> (b \<le> x \<and> x \<le> l)" for x g
  proof -
    have "perm_at 4 ?T x = Some g" using that changedD(2) [OF c, of x] by auto
    from representsD(6) [OF r this] that(2) show ?thesis unfolding R_def by blast
  qed
  show "represents s' R" if "\<And>x. b \<le> x \<Longrightarrow> x \<le> l \<Longrightarrow> perm_at 4 ?T' x = None"
    unfolding represents_def
  proof (intro conjI allI impI)
    fix x g assume "perm_at 4 ?T' x = Some g"
    with old [of x g] that [of x] show "\<exists>b l. (b, l, g) \<in> R \<and> b \<le> x \<and> x \<le> l" by auto
  qed (use m dj keep in auto)
  show "represents s' (insert (b, l, g') R)" if t: "tiled 4 g' ?T' b l" "l < 2 ^ 48"
  proof -
    have "disjoint_grants (insert (b, l, g') R)"
    proof (rule disjoint_grantsI)
      fix b1 l1 g1 b2 l2 g2
      assume a: "(b1, l1, g1) \<in> insert (b, l, g') R" "(b2, l2, g2) \<in> insert (b, l, g') R" "(b1, l1, g1) \<noteq> (b2, l2, g2)"
      have R: "(b1, l1, g1) \<in> R \<Longrightarrow> apart b l b1 l1" "(b2, l2, g2) \<in> R \<Longrightarrow> apart b l b2 l2" using ap unfolding R_def by auto
      from a consider "(b1, l1, g1) = (b, l, g')" "(b2, l2, g2) \<in> R" | "(b1, l1, g1) \<in> R" "(b2, l2, g2) = (b, l, g')"
        | "(b1, l1, g1) \<in> R" "(b2, l2, g2) \<in> R" by auto
      then show "apart b1 l1 b2 l2" using R apart_sym disjoint_grantsD [OF dj _ _ a(3)] by cases auto
    qed
    moreover have "\<exists>b' l'. (b', l', g) \<in> insert (b, l, g') R \<and> b' \<le> x \<and> x \<le> l'" if "perm_at 4 ?T' x = Some g" for x g
    proof (cases "b \<le> x \<and> x \<le> l")
      case True
      then show ?thesis using tiled_perm [OF t(1), of x] that by auto
    qed (use old [OF that] in blast)
    ultimately show ?thesis unfolding represents_def using m keep t by auto
  qed
qed

text \<open>Only the bitmap and the blocks count.\<close>

definition same_tables :: "walk \<Rightarrow> walk \<Rightarrow> bool" where
  "same_tables s s' \<longleftrightarrow> tc_level_block_bitmap (wk_ctx s') = tc_level_block_bitmap (wk_ctx s) \<and>
     tc_mapt_block_array (wk_ctx s') = tc_mapt_block_array (wk_ctx s) \<and>
     tc_blk_exp_size (wk_ctx s') = tc_blk_exp_size (wk_ctx s) \<and> tc_block_cnt (wk_ctx s') = tc_block_cnt (wk_ctx s)"

lemma same_tables_view:
  assumes "same_tables s s'"
  shows "live s' = live s" "store_ok s' = store_ok s" "foot n s' t = foot n s t" "tree n s' t = tree n s t" "wft n s' t = wft n s t"
proof -
  note c = assms [unfolded same_tables_def]
  have v: "live s' = live s" "nd s' = nd s" "ec s' = ec s" "present s' = present s" "blk_at b s' = blk_at b s" for b
    using c by (simp_all add: fun_eq_iff live_def nd_def ec_def present_def blk_at_def)
  show "live s' = live s" by (rule v)
  have "agree (foot n s t) s s'" by (simp add: agree_def v)
  from local_table [OF this] show "foot n s' t = foot n s t" "tree n s' t = tree n s t" "wft n s' t = wft n s t" by auto
  have bo: "block_ok s' = block_ok s" using c by (simp add: fun_eq_iff block_ok_def v)
  have "blocks_ok s' = blocks_ok s"
    unfolding blocks_ok_def v bo conjunct1 [OF c] conjunct1 [OF conjunct2 [OF c]] conjunct1 [OF conjunct2 [OF conjunct2 [OF c]]]
      conjunct2 [OF conjunct2 [OF conjunct2 [OF c]]] by (rule refl)
  then show "store_ok s' = store_ok s" by (simp add: store_ok_def free_ok_def no_empty_present v)
qed

lemma represents_same: "same_tables s s' \<Longrightarrow> represents s' G = represents s G"
  by (simp add: represents_def mapt_ok_def same_tables_view)

lemma represents_set: "represents s {(b', l', g) \<in> G. (b', l') \<noteq> (b, l)} \<Longrightarrow> (\<And>g. (b, l, g) \<notin> G) \<Longrightarrow> represents s G"
proof -
  assume a: "represents s {(b', l', g) \<in> G. (b', l') \<noteq> (b, l)}" "\<And>g. (b, l, g) \<notin> G"
  then have "{(b', l', g) \<in> G. (b', l') \<noteq> (b, l)} = G" by auto
  with a(1) show ?thesis by simp
qed

lemma grants_rest:
  fixes G :: grants
  assumes "(b, l, g) \<in> G" "\<And>g'. (b, l, g') \<in> G \<Longrightarrow> g' = g"
  shows "insert (b, l, g) {(b', l', g) \<in> G. (b', l') \<noteq> (b, l)} = G"
    "(\<lambda>(b', l', g). (b', l', if (b', l') = (b, l) then f g else g)) ` G = insert (b, l, f g) {(b', l', g) \<in> G. (b', l') \<noteq> (b, l)}"
proof -
  let ?R = "{(b', l', g) \<in> G. (b', l') \<noteq> (b, l)}" and ?h = "\<lambda>(b', l', g). (b', l', if (b', l') = (b, l) then f g else g)"
  show e: "insert (b, l, g) ?R = G"
  proof (rule set_eqI)
    fix x show "x \<in> insert (b, l, g) ?R \<longleftrightarrow> x \<in> G" using assms by (cases x) blast
  qed
  have "?h ` insert (b, l, g) ?R = insert (?h (b, l, g)) (?h ` ?R)" by (rule image_insert)
  moreover have "?h ` ?R = id ` ?R" by (rule image_cong) auto
  ultimately show "?h ` G = insert (b, l, f g) ?R" unfolding e by simp
qed

text \<open>Which addresses a set of grants without one of its ranges covers.\<close>

lemma grants_minus:
  assumes "disjoint_grants G" "(b, l, g) \<in> G" "\<And>h. old = Some h \<longleftrightarrow> (\<exists>b' l'. (b', l', h) \<in> G \<and> b' \<le> x \<and> x \<le> l')"
    "\<And>h. new = Some h \<longleftrightarrow> (\<exists>b' l'. (b', l', h) \<in> {(b', l', g) \<in> G. (b', l') \<noteq> (b, l)} \<and> b' \<le> x \<and> x \<le> l')"
  shows "new = (if b \<le> x \<and> x \<le> l then None else old)"
proof (cases "b \<le> x \<and> x \<le> l")
  case True
  have "new \<noteq> Some h" for h
  proof
    assume "new = Some h"
    then obtain b' l' where "(b', l', h) \<in> G" "(b', l') \<noteq> (b, l)" "b' \<le> x" "x \<le> l'" unfolding assms(4) by blast
    with disjoint_grantsD [OF assms(1,2), of b' l' h] True show False by (auto dest: apartD)
  qed
  with True show ?thesis by (metis option.exhaust)
next
  case False
  then have "new = Some h \<longleftrightarrow> old = Some h" for h unfolding assms(3,4) by blast
  with False show ?thesis by (metis option.exhaust)
qed

text \<open>Granting: all of the range, or nothing at all.\<close>

lemma table_op_grant:
  assumes r: "represents s G" and E: "fresh_mem E" and o: "di_op di = UMMU_GRANT" and g: "grant_legal di G"
  shows "\<exists>ret s'. ummu_table_op E tid fd di s = Some (ret, s') \<and> ret \<in> {0, - ERANGE, - ENOMEM} \<and>
    (ret = 0 \<or> grant_refused E tid fd di s ret) \<and> represents s' (next_grants di ret G) \<and> tc_granted_addr_mng (wk_ctx s') = tc_granted_addr_mng (wk_ctx s)"
proof -
  let ?b = "di_data_base di" and ?l = "di_data_limit di" and ?T = "tree 4 s 0" and ?s0 = "s\<lparr>wk_root := zero_table_node\<rparr>"
  note m = representsD(1) [OF r]
  note t = root_tab [OF m]
  from g have lg: "di_token_check di \<in> {0, 1}" "4096 dvd unat ?b" "unat ?b \<le> unat ?l" "unat ?l < rsize 4"
    and apt: "\<forall>(b, l, g) \<in> G. apart b l (unat ?b) (unat ?l)" by (auto simp: grant_legal_def rsize_4)
  have free: "perm_at 4 ?T x = None" if "unat ?b \<le> x" "x \<le> unat ?l" for x
    by (rule represents_free [OF r apt that])
  have ap: "apart (unat ?b) (unat ?l) b' l'" if "(b', l', g') \<in> G" for b' l' g' using apt that apart_sym by fast
  have new: "(unat ?b, unat ?l, g') \<notin> G" for g' using ap [of "unat ?b" "unat ?l" g'] lg(3) by (auto simp: apart_def)
  have f: "fills E tid fd 4 (req_attr di) (ummu_table_fill_node_by_level E tid fd di 0)" using fill_by_level_ok [OF E lg(1), of 4] by simp
  from f [unfolded fills_def, rule_format, OF t(1) lg(2-4)] free t(2) obtain ret s1 T1 where
    h: "ummu_table_fill_node_by_level E tid fd di 0 Local ?b ?l ?s0 = Some (ret, s1)" "after 4 Local 0 ?s0 s1 T1" "T1 \<noteq> Map.empty"
      "changed 4 ?T T1 (unat ?b) (unat ?l)" "fill_ret E tid fd s1 ret"
      "if ret = 0 then tiled 4 (req_attr di) T1 (unat ?b) (unat ?l) else partial 4 (req_attr di) T1 (unat ?b) (unat ?l)"
    by auto
  note a1 = root_after [OF m h(2) changedD(1) [OF h(4)]]
  have why: "ret \<in> {0, - ERANGE, - ENOMEM}" "ret = 0 \<or> grant_refused E tid fd di s ret"
    using fill_ret_codes [OF h(5)] h(1,5) by (auto simp: grant_refused_def fill_ret_def)
  show ?thesis
  proof (cases "ret = 0")
    case True
    have "represents s1 (insert (unat ?b, unat ?l, req_attr di) {(b', l', g) \<in> G. (b', l') \<noteq> (unat ?b, unat ?l)})"
      using represents_upd(2) [OF r a1(1) _ lg(3) ap, where g' = "req_attr di"] h(4,6) True a1(2) lg(4) by (simp add: rsize_4)
    moreover have "{(b', l', g) \<in> G. (b', l') \<noteq> (unat ?b, unat ?l)} = G" using new by auto
    ultimately show ?thesis using h(1) True o a1(3) by (simp add: ummu_table_op_def next_grants_def Let_def)
  next
    case False
    note t1 = after_tab [OF t(1) h(2,3) changedD(1) [OF h(4)]]
    have f: "takes_back 4 (ummu_table_clear_node_by_level 0)" using clear_by_level_back [of 4] by simp
    from f [unfolded takes_back_def, rule_format, OF t1(1) _ lg(3,4), of "req_attr di"] t1(2) h(6) False obtain s2 T2 where
      k: "ummu_table_clear_node_by_level 0 Local ?b ?l s1 = Some (- EINVAL, s2)" "after 4 Local 0 s1 s2 T2"
        "erased 4 T1 T2 (unat ?b) (unat ?l)" by auto
    have ch: "changed 4 ?T T2 (unat ?b) (unat ?l)" using changed_trans [OF h(4)] k(3) by (simp add: erased_def)
    note a2 = root_after [OF m after_trans [OF h(2,3) k(2)] changedD(1) [OF ch]]
    have "represents s2 {(b', l', g) \<in> G. (b', l') \<noteq> (unat ?b, unat ?l)}"
      by (rule represents_upd(1) [OF r a2(1) _ lg(3) ap]) (use ch k(3) a2(2) in \<open>auto simp: erased_def\<close>)
    from represents_set [OF this new] show ?thesis
      using h(1) why k(1) False o a2(3) by (auto simp: ummu_table_op_def next_grants_def Let_def)
  qed
qed

text \<open>Ungranting a range that was granted removes that grant and no other.\<close>

lemma table_op_ungrant:
  assumes r: "represents s G" and o: "di_op di = UMMU_UNGRANT" and g: "(unat (di_data_base di), unat (di_data_limit di), g) \<in> G"
  shows "\<exists>s'. ummu_table_op E tid fd di s = Some (0, s') \<and> represents s' (next_grants di 0 G) \<and>
    tc_granted_addr_mng (wk_ctx s') = tc_granted_addr_mng (wk_ctx s)"
proof -
  let ?b = "di_data_base di" and ?l = "di_data_limit di" and ?T = "tree 4 s 0" and ?s0 = "s\<lparr>wk_root := zero_table_node\<rparr>"
  note m = representsD(1) [OF r] and d = representsD(3-5) [OF r g]
  note t = root_tab [OF m]
  have l: "unat ?l < rsize 4" using d(1) by (simp add: rsize_4)
  have f: "clears 4 (ummu_table_clear_node_by_level 0)" using clear_by_level_ok [of 4] by simp
  from f [unfolded clears_def, rule_format, OF t(1) d(2) [folded t(2)] l] t(2) obtain s' T' where
    k: "ummu_table_clear_node_by_level 0 Local ?b ?l ?s0 = Some (0, s')" "after 4 Local 0 ?s0 s' T'"
      "erased 4 ?T T' (unat ?b) (unat ?l)" by auto
  have ch: "changed 4 ?T T' (unat ?b) (unat ?l)" using k(3) by (simp add: erased_def)
  note a = root_after [OF m k(2) changedD(1) [OF ch]]
  have "represents s' {(b', l', g) \<in> G. (b', l') \<noteq> (unat ?b, unat ?l)}"
    by (rule represents_upd(1) [OF r a(1) _ d(3) same_range(2) [OF r g]]) (use ch k(3) a(2) in \<open>auto simp: erased_def\<close>)
  then show ?thesis using k(1) a(3) o by (simp add: ummu_table_op_def next_grants_def Let_def)
qed

text \<open>A token operation changes the tokens of one grant, or nothing.\<close>

lemma table_op_token:
  assumes r: "represents s G" and o: "di_op di \<in> {UMMU_ADD_TOKEN, UMMU_REMOVE_TOKEN}"
    and g: "(unat (di_data_base di), unat (di_data_limit di), g) \<in> G" "ga_tokens g \<noteq> None"
  shows "\<exists>s'. ummu_table_op E tid fd di s = Some (fst (token_attr di g), s') \<and>
    represents s' (next_grants di (fst (token_attr di g)) G) \<and> tc_granted_addr_mng (wk_ctx s') = tc_granted_addr_mng (wk_ctx s)"
proof -
  let ?b = "di_data_base di" and ?l = "di_data_limit di" and ?T = "tree 4 s 0" and ?s0 = "s\<lparr>wk_root := zero_table_node\<rparr>"
  let ?ret = "fst (token_attr di g)" and ?g' = "snd (token_attr di g)"
  let ?R = "{(b', l', g) \<in> G. (b', l') \<noteq> (unat ?b, unat ?l)}"
  note m = representsD(1) [OF r] and d = representsD(3-5) [OF r g(1)]
  note t = root_tab [OF m]
  have l: "unat ?l < rsize 4" using d(1) by (simp add: rsize_4)
  have f: "updates 4 di (ummu_table_update_token_by_level di 0)" using update_by_level_ok [of 4 di] by simp
  from f [unfolded updates_def, rule_format, OF t(1) d(2) [folded t(2)] l g(2)] t(2) obtain s' T' where
    k: "ummu_table_update_token_by_level di 0 Local ?b ?l ?s0 = Some (?ret, s')" "after 4 Local 0 ?s0 s' T'"
      "changed 4 ?T T' (unat ?b) (unat ?l)" "if ?ret = 0 then tiled 4 ?g' T' (unat ?b) (unat ?l) else T' = ?T"
    by auto
  note a = root_after [OF m k(2) changedD(1) [OF k(3)]]
  have tl: "tiled 4 (if ?ret = 0 then ?g' else g) T' (unat ?b) (unat ?l)" using k(4) d(2) by (auto split: if_splits)
  have "represents s' (insert (unat ?b, unat ?l, if ?ret = 0 then ?g' else g) ?R)"
    using represents_upd(2) [OF r a(1) _ d(3) same_range(2) [OF r g(1)] _ d(1)] k(3) tl a(2) by simp
  moreover note grants_rest(1) [OF g(1) same_range(1) [OF r g(1)]]
  moreover note grants_rest(2) [OF g(1) same_range(1) [OF r g(1)], where f = "\<lambda>g. snd (token_attr di g)"]
  ultimately show ?thesis using k(1) a(3) o by (auto simp: ummu_table_op_def next_grants_def Let_def)
qed

section \<open>The contract\<close>

text \<open>
  What the operations on granted memory promise: the state stands for a set of disjoint grants, an
  address may be accessed with the attributes of the grant it lies in, and every legal request
  turns the set of grants into the next one.
\<close>

locale grant_store =
  fixes rep :: "'s \<Rightarrow> grants \<Rightarrow> bool"
    and access :: "'s \<Rightarrow> nat \<Rightarrow> grant_attr option"
    and oper :: "data_info \<Rightarrow> 's \<Rightarrow> (int \<times> 's) option"
  assumes rep_access: "rep s G \<Longrightarrow> access s x = Some g \<longleftrightarrow> (\<exists>b l. (b, l, g) \<in> G \<and> b \<le> x \<and> x \<le> l)"
    and rep_disjoint: "rep s G \<Longrightarrow> disjoint_grants G"
    and rep_nonempty: "rep s G \<Longrightarrow> (b, l, g) \<in> G \<Longrightarrow> b \<le> l"
    and oper_rep: "rep s G \<Longrightarrow> legal di G \<Longrightarrow> \<exists>ret s'. oper di s = Some (ret, s') \<and> rep s' (next_grants di ret G)"
    and oper_ungrant: "rep s G \<Longrightarrow> legal di G \<Longrightarrow> di_op di = UMMU_UNGRANT \<Longrightarrow> oper di s = Some (ret, s') \<Longrightarrow> ret = 0"
begin

lemma access_unique: "rep s G \<Longrightarrow> rep s' G \<Longrightarrow> access s x = access s' x"
  using rep_access [of s G x] rep_access [of s' G x] by (metis option.exhaust)

lemma access_unless:
  assumes "rep s G" "rep s' G'" "\<And>b l g. b \<le> x \<Longrightarrow> x \<le> l \<Longrightarrow> (b, l, g) \<in> G' \<longleftrightarrow> (b, l, g) \<in> G"
  shows "access s' x = access s x"
proof -
  have "access s' x = Some g \<longleftrightarrow> access s x = Some g" for g
    unfolding rep_access [OF assms(1)] rep_access [OF assms(2)] using assms(3) by blast
  then show ?thesis by (metis option.exhaust)
qed

lemma access_grant:
  assumes "rep s G" "legal di G" "di_op di = UMMU_GRANT"
  obtains ret s' where "oper di s = Some (ret, s')" "rep s' (next_grants di ret G)"
    "\<And>x. access s' x = (if ret = 0 \<and> unat (di_data_base di) \<le> x \<and> x \<le> unat (di_data_limit di)
       then Some (req_attr di) else access s x)"
proof -
  from oper_rep [OF assms(1,2)] obtain ret s' where o: "oper di s = Some (ret, s')" "rep s' (next_grants di ret G)" by blast
  have "access s' x = (if ret = 0 \<and> unat (di_data_base di) \<le> x \<and> x \<le> unat (di_data_limit di)
       then Some (req_attr di) else access s x)" for x
  proof (cases "ret = 0 \<and> unat (di_data_base di) \<le> x \<and> x \<le> unat (di_data_limit di)")
    case True
    then show ?thesis using rep_access [OF o(2), of x "req_attr di"] assms(3) by (auto simp: next_grants_def Let_def)
  next
    case False
    have "access s' x = access s x"
      by (rule access_unless [OF assms(1) o(2)]) (use False assms(3) in \<open>auto simp: next_grants_def Let_def\<close>)
    with False show ?thesis by auto
  qed
  with o that show ?thesis by blast
qed

lemma access_ungrant:
  assumes "rep s G" "legal di G" "di_op di = UMMU_UNGRANT"
  obtains s' where "oper di s = Some (0, s')" "rep s' (next_grants di 0 G)"
    "\<And>x. access s' x = (if unat (di_data_base di) \<le> x \<and> x \<le> unat (di_data_limit di) then None else access s x)"
proof -
  let ?b = "unat (di_data_base di)" and ?l = "unat (di_data_limit di)"
  from oper_rep [OF assms(1,2)] obtain ret s' where o: "oper di s = Some (ret, s')" "rep s' (next_grants di ret G)" by blast
  have ret: "ret = 0" by (rule oper_ungrant [OF assms o(1)])
  have N: "next_grants di ret G = {(b', l', g) \<in> G. (b', l') \<noteq> (?b, ?l)}" using assms(3) ret by (simp add: next_grants_def Let_def)
  from assms(2,3) obtain g where g: "(?b, ?l, g) \<in> G" by (auto simp: legal_def)
  have "access s' x = (if ?b \<le> x \<and> x \<le> ?l then None else access s x)" for x
    by (rule grants_minus [OF rep_disjoint [OF assms(1)] g rep_access [OF assms(1)] rep_access [OF o(2), unfolded N]])
  with o ret that show ?thesis by blast
qed

text \<open>Ungranting what was just granted leads back to the same permissions.\<close>

lemma grant_ungrant:
  assumes "rep s G" "legal di G" "di_op di = UMMU_GRANT" "oper di s = Some (0, s1)"
  obtains s2 where "oper (di\<lparr>di_op := UMMU_UNGRANT\<rparr>) s1 = Some (0, s2)" "rep s2 G"
proof -
  let ?u = "di\<lparr>di_op := UMMU_UNGRANT\<rparr>" and ?b = "unat (di_data_base di)" and ?l = "unat (di_data_limit di)"
  from oper_rep [OF assms(1,2)] assms(4) have r1: "rep s1 (insert (?b, ?l, req_attr di) G)"
    using assms(3) by (auto simp: next_grants_def Let_def)
  have lg: "legal ?u (insert (?b, ?l, req_attr di) G)" by (auto simp: legal_def)
  from access_ungrant [OF r1 lg] obtain s2 where
    s2: "oper ?u s1 = Some (0, s2)" "rep s2 (next_grants ?u 0 (insert (?b, ?l, req_attr di) G))" by auto
  have "(?b, ?l, g) \<notin> G" for g
    using assms(2,3) by (auto simp: legal_def grant_legal_def apart_def)
  then have "next_grants ?u 0 (insert (?b, ?l, req_attr di) G) = G" by (auto simp: next_grants_def Let_def)
  with s2 that show ?thesis by simp
qed

end

lemma table_op_token_ret:
  assumes r: "represents s G" and o: "di_op di \<in> {UMMU_ADD_TOKEN, UMMU_REMOVE_TOKEN}" and l: "legal di G"
  shows "\<exists>ret s'. ummu_table_op E tid fd di s = Some (ret, s') \<and> required_ret E tid fd di s G ret \<and>
    represents s' (next_grants di ret G) \<and> tc_granted_addr_mng (wk_ctx s') = tc_granted_addr_mng (wk_ctx s)"
proof -
  from l o obtain g where g: "(unat (di_data_base di), unat (di_data_limit di), g) \<in> G" "ga_tokens g \<noteq> None"
    by (auto simp: legal_def)
  have "required_ret E tid fd di s G (fst (token_attr di g))"
    using o same_range(1) [OF r g(1)] by (auto simp: required_ret_def)
  with table_op_token [OF r o g, of E tid fd] show ?thesis by blast
qed

lemma table_op_legal:
  assumes "represents s G" "legal di G" "fresh_mem E"
  shows "\<exists>ret s'. ummu_table_op E tid fd di s = Some (ret, s') \<and> required_ret E tid fd di s G ret \<and>
    represents s' (next_grants di ret G) \<and> tc_granted_addr_mng (wk_ctx s') = tc_granted_addr_mng (wk_ctx s)"
proof (cases "di_op di")
  case UMMU_GRANT
  then show ?thesis using table_op_grant [OF assms(1,3), of di tid fd] assms(2) by (auto simp: legal_def required_ret_def)
next
  case UMMU_UNGRANT
  then show ?thesis using table_op_ungrant [OF assms(1), of di _ E tid fd] assms(2) by (auto simp: legal_def required_ret_def)
next
  case UMMU_OP_END
  have "same_tables s (s\<lparr>wk_root := zero_table_node\<rparr>)" by (simp add: same_tables_def)
  then have "represents (s\<lparr>wk_root := zero_table_node\<rparr>) G" using represents_same assms(1) by blast
  then show ?thesis using UMMU_OP_END by (auto simp: ummu_table_op_def next_grants_def required_ret_def Let_def)
next
  case UMMU_ADD_TOKEN
  then show ?thesis using table_op_token_ret [OF assms(1) _ assms(2), of E tid fd] by simp
next
  case UMMU_REMOVE_TOKEN
  then show ?thesis using table_op_token_ret [OF assms(1) _ assms(2), of E tid fd] by simp
qed

interpretation mapt: grant_store "\<lambda>s G. fresh_mem E \<and> represents s G" "\<lambda>s. perm_at 4 (tree 4 s 0)" "ummu_table_op E tid fd"
  for E tid fd
proof
  fix s G x g assume r: "fresh_mem E \<and> represents s G"
  then show "perm_at 4 (tree 4 s 0) x = Some g \<longleftrightarrow> (\<exists>b l. (b, l, g) \<in> G \<and> b \<le> x \<and> x \<le> l)"
    by (simp add: represents_perm)
  from r show "disjoint_grants G" using representsD(2) by blast
  fix b l h assume "(b, l, h) \<in> G"
  with r show "b \<le> l" using representsD(5) by blast
next
  fix s G di assume r: "fresh_mem E \<and> represents s G" "legal di G"
  from table_op_legal [OF _ r(2), of s E tid fd] r(1)
  show "\<exists>ret s'. ummu_table_op E tid fd di s = Some (ret, s') \<and> fresh_mem E \<and> represents s' (next_grants di ret G)" by blast
  fix ret s' assume "di_op di = UMMU_UNGRANT" "ummu_table_op E tid fd di s = Some (ret, s')"
  with table_op_ungrant [of s G di _ E tid fd] r show "ret = 0" by (auto simp: legal_def)
qed

section \<open>A table with one grant\<close>

lemma root_represents:
  assumes "store_ok s" "\<And>t. live s t \<longleftrightarrow> t = 0" "ec s 0 = 0" "\<And>i. i < 512 \<Longrightarrow> tn_valid (nd s 0 i) = 0"
  shows "represents s {}"
proof -
  have T: "tree 4 s 0 = Map.empty" using assms(4) by (auto simp: fun_eq_iff tree_Suc numeral_eq_Suc)
  have b: "below n s (nd s 0 i) = {}" if "i < 512" for i n using assms(4) [OF that] by (simp add: below_def)
  have F: "foot 4 s 0 = {0}" using b by (simp add: foot_Suc numeral_eq_Suc)
  have "wft (Suc 3) s 0" unfolding wft_Suc using assms(2-4) b by simp
  then have "mapt_ok s" using assms(1,2) T F by (simp add: mapt_ok_def numeral_eq_Suc)
  with T show ?thesis by (simp add: represents_def disjoint_grants_def)
qed

definition root_walk :: walk where "root_walk = block_walk 1 zero_table_node"

lemma root_walk_represents: "represents root_walk {}"
proof -
  have "store_ok root_walk" using block_walk_ok [of 1] by (simp add: store_ok_def root_walk_def block_walk_view)
  then show ?thesis by (rule root_represents) (simp_all add: root_walk_def block_walk_view block_walk_nodes)
qed

lemma grant_into_empty:
  assumes r: "represents s {}" and E: "fresh_mem E" and o: "di_op di = UMMU_GRANT" and g: "grant_legal di {}"
    and one: "unat (di_data_limit di) < 2 ^ 39"
  shows "\<exists>s'. ummu_table_op E tid fd di s = Some (0, s')"
proof -
  let ?b = "di_data_base di" and ?l = "di_data_limit di" and ?s0 = "s\<lparr>wk_root := zero_table_node\<rparr>"
  note t = root_tab [OF representsD(1) [OF r]]
  have z: "rsize 3 = 2 ^ 39" by (simp add: rsize_def)
  have bl: "unat ?b \<le> unat ?l" and tc: "di_token_check di \<in> {0, 1}" using g by (auto simp: grant_legal_def)
  have d0: "unat ?b div rsize 3 = 0" "unat ?l div rsize 3 = 0" using one bl z by auto
  have lt: "unat ?b < rsize (Suc 3)" "unat ?l < rsize (Suc 3)" using one bl by (simp_all add: rsize_def)
  have t4: "tab (Suc 3) Local 0 ?s0" using t(1) by (simp add: numeral_eq_Suc)
  have "tree 4 s 0 = Map.empty"
  proof
    fix i show "tree 4 s 0 i = None"
    proof (rule ccontr)
      assume "tree 4 s 0 i \<noteq> None"
      then obtain b l a K where p: "tree (Suc 3) s 0 i = Some (PNode b l a K)" by (auto simp: numeral_eq_Suc) (metis pnode.exhaust)
      have ok: "tree_ok (Suc 3) (tree (Suc 3) s 0)" using representsD(1) [OF r] by (simp add: mapt_ok_def numeral_eq_Suc)
      note k = tree_okD [OF ok p]
      have "perm_at 4 (tree 4 s 0) (i * rsize 3 + b) = Some a"
        using p k(2,3) perm_at_Suc [of 3 "tree (Suc 3) s 0" "i * rsize 3 + b"] by (simp add: glue perm_in_def numeral_eq_Suc)
      then show False using representsD(6) [OF r] by blast
    qed
  qed
  then have none: "tree (Suc 3) ?s0 0 0 = None" using t(2) by (simp add: numeral_eq_Suc)
  have w: "unat (lo_word 3 ?b 0) = unat ?b" "unat (hi_word 3 ?l 0) = unat ?l"
    using level_words(2,3) [OF _ lt, of 0, folded lo_word_def hi_word_def] d0 one bl z by (simp_all add: lo_def hi_def)
  have r3: "(3::nat) \<le> 3" and i0: "(0::nat) < 512" by simp_all
  have le: "unat (lo_word 3 ?b 0) \<le> unat (hi_word 3 ?l 0)" "unat (hi_word 3 ?l 0) < rsize 3" using w bl one z by simp_all
  from fill_new_node [OF t4 r3 i0 none tc le] obtain s' where
    s': "do { s1 \<leftarrow> wr_node (lref 0 0) (ummu_table_fill_node (nd ?s0 0 0) (lo_word 3 ?b 0) (hi_word 3 ?l 0) di) ?s0;
       add_entry_cnt (0 div 4) (0 mod 4) 1 s1 } = Some s'" by blast
  have "tn_valid (nd ?s0 0 0) \<noteq> 1" using none unfolding tree_Suc by (auto split: if_splits)
  then have "fill_body E tid fd di 3 Local 0 ?b ?l 0 ?s0 = Some (0, s')"
    using s' tab_rd [OF t4, of 0] d0 by (auto simp: fill_body_def split: Option.bind_splits)
  then have "ummu_table_fill_node_by_level E tid fd di 0 Local ?b ?l ?s0 = Some (0, s')"
    using fill_by_level_eq [OF t4 r3 lt, of E tid fd di] d0 by simp
  then show ?thesis using o by (simp add: ummu_table_op_def Let_def)
qed

lemma sample_legal: "grant_legal sample_request {}"
  by (simp add: grant_legal_def sample_request_def)

lemma sample_grant: "\<exists>s. ummu_table_op quiet_env 5 3 sample_request root_walk = Some (0, s) \<and>
    represents s {(0x7000, 0x8FFF, req_attr sample_request)}"
proof -
  have o: "di_op sample_request = UMMU_GRANT" and l: "unat (di_data_limit sample_request) < 2 ^ 39" by (simp_all add: sample_request_def)
  from grant_into_empty [OF root_walk_represents quiet_fresh_mem o sample_legal l] obtain s where
    s: "ummu_table_op quiet_env 5 3 sample_request root_walk = Some (0, s)" by blast
  from table_op_grant [OF root_walk_represents quiet_fresh_mem o sample_legal, of 5 3] s
  have "represents s (next_grants sample_request 0 {})" by auto
  with s show ?thesis by (simp add: next_grants_def sample_request_def Let_def)
qed

section \<open>Properties\<close>

text \<open>C7: The permission table refines a set of disjoint grants.  Every request that the segment manager
  lets through runs to its end without undefined behaviour, the tables it leaves hold exactly the
  next set of grants, and its result is the one required.  A grant returns 0 and adds one grant, or
  adds nothing and returns -ERANGE, all level tables the TID may have being in use when the fill
  stops, or -ENOMEM, which takes a system whose malloc or mapping of blocks can fail.  Ungranting
  returns 0 and removes exactly one.  A token operation returns 0 and changes the tokens of exactly
  one grant, or returns -EINVAL and changes nothing, as the tokens of that grant decide.  Every level
  table in use is reachable from the root afterwards (none is leaked), and the segment manager's
  records are not touched.\<close>

theorem table_op_refines_grants:
  assumes "represents s G" "legal di G" "fresh_mem E"
  shows "\<exists>ret s'. ummu_table_op E tid fd di s = Some (ret, s') \<and> required_ret E tid fd di s G ret \<and>
    represents s' (next_grants di ret G) \<and> tc_granted_addr_mng (wk_ctx s') = tc_granted_addr_mng (wk_ctx s)"
  by (rule table_op_legal [OF assms])

theorem table_op_refines_grants_witness:
  "\<exists>ret s'. ummu_table_op quiet_env 5 3 sample_request root_walk = Some (ret, s') \<and>
     represents s' (next_grants sample_request ret {})"
proof -
  have "legal sample_request {}" using sample_legal by (simp add: legal_def sample_request_def)
  from table_op_refines_grants [OF root_walk_represents this quiet_fresh_mem, of 5 3] show ?thesis by blast
qed

text \<open>C8: Granting a free, page-aligned range in the permission table is all or nothing.  When it returns
  0, every address of the range has the permission, e-bit and token of the request and every
  other address is as before; otherwise it returns -ERANGE or -ENOMEM and no address changes,
  because the part that was written is taken back.\<close>

theorem table_grant_all_or_nothing:
  assumes "represents s G" "fresh_mem E" "di_op di = UMMU_GRANT" "grant_legal di G"
  shows "\<exists>ret s'. ummu_table_op E tid fd di s = Some (ret, s') \<and> ret \<in> {0, - ERANGE, - ENOMEM} \<and>
    (\<forall>x. perm_at 4 (tree 4 s' 0) x =
       (if ret = 0 \<and> unat (di_data_base di) \<le> x \<and> x \<le> unat (di_data_limit di)
        then Some (req_attr di) else perm_at 4 (tree 4 s 0) x))"
proof -
  have "legal di G" using assms(3,4) by (simp add: legal_def)
  from mapt.access_grant [OF conjI [OF assms(2,1)] this assms(3), of tid fd] obtain ret s' where
    a: "ummu_table_op E tid fd di s = Some (ret, s')"
      "\<And>x. perm_at 4 (tree 4 s' 0) x = (if ret = 0 \<and> unat (di_data_base di) \<le> x \<and> x \<le> unat (di_data_limit di)
         then Some (req_attr di) else perm_at 4 (tree 4 s 0) x)" by blast
  have "ret \<in> {0, - ERANGE, - ENOMEM}" using table_op_grant [OF assms, of tid fd] a(1) by auto
  with a show ?thesis by blast
qed

theorem table_grant_all_or_nothing_witness:
  "\<exists>ret s'. ummu_table_op quiet_env 5 3 sample_request root_walk = Some (ret, s') \<and>
     (ret = 0 \<longrightarrow> perm_at 4 (tree 4 s' 0) 0x8123 = Some (req_attr sample_request)) \<and>
     perm_at 4 (tree 4 s' 0) 0x9000 = perm_at 4 (tree 4 root_walk 0) 0x9000"
proof -
  have o: "di_op sample_request = UMMU_GRANT" by (simp add: sample_request_def)
  from table_grant_all_or_nothing [OF root_walk_represents quiet_fresh_mem o sample_legal, of 5 3] show ?thesis
    by (fastforce simp: sample_request_def)
qed

text \<open>C9: Ungranting a granted range in the permission table always succeeds: it returns 0, no address of
  the range is granted any more, every other address keeps its attributes, and every level table
  that is still in use is reachable from the root, so the emptied ones were released.\<close>

theorem table_ungrant_exact:
  assumes "represents s G" "di_op di = UMMU_UNGRANT" "(unat (di_data_base di), unat (di_data_limit di), g) \<in> G"
  shows "\<exists>s'. ummu_table_op E tid fd di s = Some (0, s') \<and>
    (\<forall>x. perm_at 4 (tree 4 s' 0) x =
       (if unat (di_data_base di) \<le> x \<and> x \<le> unat (di_data_limit di) then None else perm_at 4 (tree 4 s 0) x)) \<and>
    (\<forall>u. live s' u \<longleftrightarrow> u \<in> foot 4 s' 0)"
proof -
  from table_op_ungrant [OF assms, of E tid fd] obtain s' where
    s': "ummu_table_op E tid fd di s = Some (0, s')" "represents s' (next_grants di 0 G)" by blast
  let ?b = "unat (di_data_base di)" and ?l = "unat (di_data_limit di)"
  have N: "next_grants di 0 G = {(b', l', g) \<in> G. (b', l') \<noteq> (?b, ?l)}" using assms(2) by (simp add: next_grants_def Let_def)
  have "perm_at 4 (tree 4 s' 0) x = (if ?b \<le> x \<and> x \<le> ?l then None else perm_at 4 (tree 4 s 0) x)" for x
    by (rule grants_minus [OF representsD(2) [OF assms(1)] assms(3) represents_perm [OF assms(1)] represents_perm [OF s'(2), unfolded N]])
  with s' representsD(1) [OF s'(2)] show ?thesis by (auto simp: mapt_ok_def)
qed

theorem table_ungrant_exact_witness:
  "\<exists>s s'. ummu_table_op quiet_env 5 3 sample_request root_walk = Some (0, s) \<and>
     ummu_table_op quiet_env 5 3 (sample_request\<lparr>di_op := UMMU_UNGRANT\<rparr>) s = Some (0, s') \<and>
     perm_at 4 (tree 4 s' 0) 0x8123 = None"
proof -
  from sample_grant obtain s where s: "ummu_table_op quiet_env 5 3 sample_request root_walk = Some (0, s)"
    "represents s {(0x7000, 0x8FFF, req_attr sample_request)}" by blast
  from table_ungrant_exact [OF s(2), of "sample_request\<lparr>di_op := UMMU_UNGRANT\<rparr>" "req_attr sample_request" quiet_env 5 3] s(1)
  show ?thesis by (fastforce simp: sample_request_def)
qed

text \<open>C10: A token operation on a granted range that uses tokens returns what the same operation returns
  on the grant's own tokens.  On success every address of the range has the new tokens and the
  old permission and e-bit; on refusal nothing changes.  No other address changes.\<close>

theorem table_token_update:
  assumes "represents s G" "di_op di \<in> {UMMU_ADD_TOKEN, UMMU_REMOVE_TOKEN}"
    "(unat (di_data_base di), unat (di_data_limit di), g) \<in> G" "ga_tokens g \<noteq> None"
  shows "\<exists>s'. ummu_table_op E tid fd di s = Some (fst (token_attr di g), s') \<and>
    (\<forall>x. perm_at 4 (tree 4 s' 0) x =
       (if unat (di_data_base di) \<le> x \<and> x \<le> unat (di_data_limit di) then Some (snd (token_attr di g))
        else perm_at 4 (tree 4 s 0) x))"
proof -
  let ?b = "unat (di_data_base di)" and ?l = "unat (di_data_limit di)"
  from table_op_token [OF assms, of E tid fd] obtain s' where
    s': "ummu_table_op E tid fd di s = Some (fst (token_attr di g), s')" "represents s' (next_grants di (fst (token_attr di g)) G)" by blast
  have N: "next_grants di (fst (token_attr di g)) G = insert (?b, ?l, snd (token_attr di g)) {(b', l', g) \<in> G. (b', l') \<noteq> (?b, ?l)}"
    using assms(2) grants_rest(1) [OF assms(3) same_range(1) [OF assms(1,3)]]
      grants_rest(2) [OF assms(3) same_range(1) [OF assms(1,3)], where f = "\<lambda>g. snd (token_attr di g)"] token_attr_ret(2) [of di g] by (auto simp: next_grants_def Let_def)
  have "perm_at 4 (tree 4 s' 0) x = (if ?b \<le> x \<and> x \<le> ?l then Some (snd (token_attr di g)) else perm_at 4 (tree 4 s 0) x)" for x
  proof (cases "?b \<le> x \<and> x \<le> ?l")
    case True
    then show ?thesis using represents_perm [OF s'(2), of x] unfolding N by auto
  next
    case False
    have "perm_at 4 (tree 4 s' 0) x = Some h \<longleftrightarrow> perm_at 4 (tree 4 s 0) x = Some h" for h
      unfolding represents_perm [OF s'(2)] represents_perm [OF assms(1)] N using False by blast
    with False show ?thesis by (metis option.exhaust)
  qed
  with s'(1) show ?thesis by blast
qed

theorem table_token_update_witness:
  "\<exists>s s' g. ummu_table_op quiet_env 5 3 sample_request root_walk = Some (0, s) \<and>
     ummu_table_op quiet_env 5 3 (sample_request\<lparr>di_op := UMMU_ADD_TOKEN, di_tokenval := 4\<rparr>) s = Some (0, s') \<and>
     perm_at 4 (tree 4 s' 0) 0x8123 = Some g \<and> ga_tokens g = Some (9, 4, 2)"
proof -
  from sample_grant obtain s where s: "ummu_table_op quiet_env 5 3 sample_request root_walk = Some (0, s)"
    "represents s {(0x7000, 0x8FFF, req_attr sample_request)}" by blast
  let ?d = "sample_request\<lparr>di_op := UMMU_ADD_TOKEN, di_tokenval := 4\<rparr>"
  have t: "token_attr ?d (req_attr sample_request) = (0, (req_attr sample_request)\<lparr>ga_tokens := Some (9, 4, 2)\<rparr>)"
    "ga_tokens (req_attr sample_request) \<noteq> None" by (simp_all add: token_attr_def req_attr_def sample_request_def)
  from table_token_update [OF s(2), of ?d "req_attr sample_request" quiet_env 5 3] s(1) t
  show ?thesis by (fastforce simp: sample_request_def)
qed

text \<open>C11: Granting a range and ungranting it again restores the set of grants, whatever the tables
  looked like in between.\<close>

theorem table_grant_ungrant_roundtrip:
  assumes "represents s G" "fresh_mem E" "di_op di = UMMU_GRANT" "grant_legal di G"
    "ummu_table_op E tid fd di s = Some (0, s1)"
  shows "\<exists>s2. ummu_table_op E tid fd (di\<lparr>di_op := UMMU_UNGRANT\<rparr>) s1 = Some (0, s2) \<and> represents s2 G \<and>
    perm_at 4 (tree 4 s2 0) = perm_at 4 (tree 4 s 0)"
proof -
  have "legal di G" using assms(3,4) by (simp add: legal_def)
  from mapt.grant_ungrant [OF conjI [OF assms(2,1)] this assms(3,5)] obtain s2 where
    s2: "ummu_table_op E tid fd (di\<lparr>di_op := UMMU_UNGRANT\<rparr>) s1 = Some (0, s2)" "fresh_mem E \<and> represents s2 G" by blast
  have "perm_at 4 (tree 4 s2 0) x = perm_at 4 (tree 4 s 0) x" for x
    by (rule mapt.access_unique [OF s2(2) conjI [OF assms(2,1)]])
  with s2 show ?thesis by blast
qed

theorem table_grant_ungrant_roundtrip_witness:
  "\<exists>s1 s2. ummu_table_op quiet_env 5 3 sample_request root_walk = Some (0, s1) \<and>
     ummu_table_op quiet_env 5 3 (sample_request\<lparr>di_op := UMMU_UNGRANT\<rparr>) s1 = Some (0, s2) \<and> represents s2 {}"
proof -
  from sample_grant obtain s1 where s1: "ummu_table_op quiet_env 5 3 sample_request root_walk = Some (0, s1)" by blast
  have o: "di_op sample_request = UMMU_GRANT" by (simp add: sample_request_def)
  from table_grant_ungrant_roundtrip [OF root_walk_represents quiet_fresh_mem o sample_legal s1] s1 show ?thesis by blast
qed

end
