(* ===== verification/Ummu_Map.thy ===== *)
theory Ummu_Map
  imports Ummu_Prelude
begin

text \<open>
  \<^verbatim>\<open>src/ummu_map.c\<close> and \<^verbatim>\<open>src/ummu_utils.cpp\<close>: the table from TIDs to their control structures, a
  \<^verbatim>\<open>std::unordered_map\<close>.  The map is the list of its entries in iteration order, which the C++
  library does not specify; new entries are put in front.  The locale \<open>tid_map\<close> is what the
  API functions rely on.
\<close>

section \<open>The hash map\<close>

type_synonym 'v hashmap = "(u32 \<times> 'v) list"

text \<open>\<^verbatim>\<open>new\<close> throws when memory is short; nothing catches it, so the process ends (\<open>None\<close>).\<close>

definition create_map :: "bool \<Rightarrow> 'v hashmap option" where
  "create_map mem_ok = (if mem_ok then Some [] else None)"

definition hashmap_insert :: "'v hashmap \<Rightarrow> u32 \<Rightarrow> 'v \<Rightarrow> int \<times> 'v hashmap" where
  "hashmap_insert m key v =
     (case map_of m key of None \<Rightarrow> (0, (key, v) # m) | Some _ \<Rightarrow> (- 1, m))"

definition hashmap_get :: "'v hashmap \<Rightarrow> u32 \<Rightarrow> 'v option" where
  "hashmap_get m key = map_of m key"

definition hashmap_del :: "'v hashmap \<Rightarrow> u32 \<Rightarrow> nat \<times> 'v hashmap" where
  "hashmap_del m key =
     (length (filter (\<lambda>e. fst e = key) m), filter (\<lambda>e. fst e \<noteq> key) m)"

text \<open>
  \<^verbatim>\<open>hashmap_clear\<close> runs the destroyer on every value; with a NULL destroyer the values are
  only freed, which changes nothing else.
\<close>

definition hashmap_clear :: "'v hashmap \<Rightarrow> ('v \<Rightarrow> 's \<Rightarrow> 's option) option \<Rightarrow> 's \<Rightarrow> 's option" where
  "hashmap_clear m destroyer s =
     (case destroyer of
        None \<Rightarrow> Some s
      | Some d \<Rightarrow> fold_opt (\<lambda>e s. d (snd e) s) m s)"

definition ummu_map_create :: "bool \<Rightarrow> 'v hashmap option" where
  "ummu_map_create mem_ok = create_map mem_ok"

definition ummu_map_insert :: "'v hashmap \<Rightarrow> u32 \<Rightarrow> 'v \<Rightarrow> int \<times> 'v hashmap" where
  "ummu_map_insert m key v = hashmap_insert m key v"

definition ummu_map_get :: "'v hashmap \<Rightarrow> u32 \<Rightarrow> 'v option" where
  "ummu_map_get m key = hashmap_get m key"

definition ummu_map_del :: "'v hashmap \<Rightarrow> u32 \<Rightarrow> int \<times> 'v hashmap" where
  "ummu_map_del m key = (let (n, m') = hashmap_del m key in (int n, m'))"

definition ummu_map_clear :: "'v hashmap \<Rightarrow> ('v \<Rightarrow> 's \<Rightarrow> 's option) option \<Rightarrow> 's \<Rightarrow> 's option" where
  "ummu_map_clear m destroyer s = hashmap_clear m destroyer s"

text \<open>A change made through the pointer that \<^verbatim>\<open>ummu_map_get\<close> returned.\<close>

definition map_put :: "'v hashmap \<Rightarrow> u32 \<Rightarrow> 'v \<Rightarrow> 'v hashmap" where
  "map_put m key v = map (\<lambda>e. if fst e = key then (key, v) else e) m"

section \<open>The contract of the TID table\<close>

definition map_wf :: "'v hashmap \<Rightarrow> bool" where
  "map_wf m \<longleftrightarrow> distinct (map fst m)"

locale tid_map =
  fixes wf :: "'m \<Rightarrow> bool"
    and get :: "'m \<Rightarrow> u32 \<Rightarrow> 'v option"
    and ins :: "'m \<Rightarrow> u32 \<Rightarrow> 'v \<Rightarrow> int \<times> 'm"
    and del :: "'m \<Rightarrow> u32 \<Rightarrow> int \<times> 'm"
  assumes ins_law: "wf m \<Longrightarrow> ins m k v = (r, m') \<Longrightarrow>
      wf m' \<and> (if get m k = None then r = 0 \<and> get m' = (get m)(k \<mapsto> v) else r \<noteq> 0 \<and> m' = m)"
    and del_law: "wf m \<Longrightarrow> del m k = (r, m') \<Longrightarrow>
      wf m' \<and> get m' = (get m)(k := None) \<and> r = (if get m k = None then 0 else 1)"
begin

lemma ins_del_roundtrip:
  assumes "wf m" "get m k = None" "ins m k v = (r, m1)" "del m1 k = (r', m2)"
  shows "r = 0" "r' = 1" "wf m2" "get m2 = get m"
proof -
  have i: "wf m1" "r = 0" "get m1 = (get m)(k \<mapsto> v)" using ins_law [OF assms(1,3)] assms(2) by auto
  have d: "wf m2" "get m2 = (get m1)(k := None)" "r' = (if get m1 k = None then 0 else 1)"
    using del_law [OF i(1) assms(4)] by auto
  show "r = 0" "wf m2" by fact+
  show "r' = 1" using d(3) i(3) by simp
  show "get m2 = get m" using d(2) i(3) assms(2) by (auto simp: fun_upd_idem)
qed

lemma ins_ok: "wf m \<Longrightarrow> ins m k v = (0, m') \<Longrightarrow> get m k = None \<and> get m' = (get m)(k \<mapsto> v)"
  using ins_law [of m k v 0 m'] by (auto split: if_splits)

end

lemma map_of_del: "map_of (filter (\<lambda>e. fst e \<noteq> k) m) = (map_of m)(k := None)"
  by (induction m) (auto simp: fun_eq_iff)

lemma count_key: "distinct (map fst m) \<Longrightarrow>
  length (filter (\<lambda>e. fst e = k) m) = (if map_of m k = None then 0 else 1)"
proof (induction m)
  case (Cons e m)
  then show ?case
    by (cases e) (auto simp: map_of_eq_None_iff filter_empty_conv split: if_splits)
qed simp

interpretation hm: tid_map map_wf ummu_map_get ummu_map_insert ummu_map_del
proof
  fix m m' :: "'v hashmap" and k :: u32 and v :: 'v and r :: int
  assume "map_wf m" "ummu_map_insert m k v = (r, m')"
  then show "map_wf m' \<and> (if ummu_map_get m k = None then r = 0 \<and> ummu_map_get m' = (ummu_map_get m)(k \<mapsto> v)
      else r \<noteq> 0 \<and> m' = m)"
    by (auto simp: map_wf_def ummu_map_insert_def hashmap_insert_def ummu_map_get_def
        hashmap_get_def fun_eq_iff map_of_eq_None_iff intro: rev_image_eqI split: option.splits)
next
  fix m m' :: "'v hashmap" and k :: u32 and r :: int
  assume wf: "map_wf m" and d: "ummu_map_del m k = (r, m')"
  then show "map_wf m' \<and> ummu_map_get m' = (ummu_map_get m)(k := None) \<and>
      r = (if ummu_map_get m k = None then 0 else 1)"
    using count_key [of m k] by (auto simp: map_wf_def ummu_map_del_def hashmap_del_def ummu_map_get_def
        hashmap_get_def map_of_del distinct_map_filter)
qed

lemma map_put_get: "ummu_map_get (map_put m k v) = (\<lambda>j. if j = k then map_option (\<lambda>_. v) (ummu_map_get m k) else ummu_map_get m j)"
proof -
  have "map_of (map_put m k v) j = (if j = k then map_option (\<lambda>_. v) (map_of m k) else map_of m j)" for j
    by (induction m) (auto simp: map_put_def)
  then show ?thesis by (auto simp: ummu_map_get_def hashmap_get_def)
qed

lemma map_put_wf: "map_wf m \<Longrightarrow> map_wf (map_put m k v)"
proof -
  have "map fst (map_put m k v) = map fst m" by (induction m) (auto simp: map_put_def)
  then show "map_wf m \<Longrightarrow> map_wf (map_put m k v)" by (simp add: map_wf_def)
qed

section \<open>Properties\<close>

text \<open>C36: The TID map is a finite map: a new TID is inserted, visible and nothing else changes; a TID
  that is present is refused with the map unchanged; deleting a TID, at any position of the map,
  removes exactly that TID and reports whether it was there; a TID inserted and deleted leaves
  the map as it was; and the iteration of \<^verbatim>\<open>ummu_map_clear\<close> runs the destroyer once on every value.\<close>

theorem tid_map_operations:
  assumes "map_wf m"
  shows "(ummu_map_get m k = None \<longrightarrow> (\<exists>m'. ummu_map_insert m k v = (0, m') \<and> map_wf m' \<and>
       ummu_map_get m' = (ummu_map_get m)(k \<mapsto> v) \<and>
       (\<exists>m''. ummu_map_del m' k = (1, m'') \<and> map_wf m'' \<and> ummu_map_get m'' = ummu_map_get m))) \<and>
    (ummu_map_get m k \<noteq> None \<longrightarrow> ummu_map_insert m k v = (- 1, m)) \<and>
    (\<exists>m'. ummu_map_del m j = (if ummu_map_get m j = None then 0 else 1, m') \<and> map_wf m' \<and>
       ummu_map_get m' = (ummu_map_get m)(j := None)) \<and>
    ummu_map_clear m (Some d) s = fold_opt d (map snd m) s"
proof (intro conjI impI)
  assume n: "ummu_map_get m k = None"
  obtain r m1 where i: "ummu_map_insert m k v = (r, m1)" by (rule prod.exhaust)
  obtain r' m2 where d: "ummu_map_del m1 k = (r', m2)" by (rule prod.exhaust)
  note rt = hm.ins_del_roundtrip [OF assms n i d]
  show "\<exists>m'. ummu_map_insert m k v = (0, m') \<and> map_wf m' \<and> ummu_map_get m' = (ummu_map_get m)(k \<mapsto> v) \<and>
      (\<exists>m''. ummu_map_del m' k = (1, m'') \<and> map_wf m'' \<and> ummu_map_get m'' = ummu_map_get m)"
    using i d rt hm.ins_law [OF assms i] n by auto
next
  assume "ummu_map_get m k \<noteq> None"
  then show "ummu_map_insert m k v = (- 1, m)"
    by (auto simp: ummu_map_insert_def hashmap_insert_def ummu_map_get_def hashmap_get_def)
next
  obtain r m' where d: "ummu_map_del m j = (r, m')" by (rule prod.exhaust)
  from hm.del_law [OF assms d] d
  show "\<exists>m'. ummu_map_del m j = (if ummu_map_get m j = None then 0 else 1, m') \<and> map_wf m' \<and>
      ummu_map_get m' = (ummu_map_get m)(j := None)" by auto
next
  have "fold_opt (\<lambda>e s. d (snd e) s) m s = fold_opt d (map snd m) s"
    by (induction m arbitrary: s) (auto split: bind_splits)
  then show "ummu_map_clear m (Some d) s = fold_opt d (map snd m) s"
    by (simp add: ummu_map_clear_def hashmap_clear_def)
qed

theorem tid_map_operations_witness:
  "\<exists>m' m''. ummu_map_insert [(4, False), (3, True)] 5 False = (0, m') \<and> ummu_map_get m' 5 = Some False \<and> ummu_map_get m' 3 = Some True \<and>
     ummu_map_del [(4, False), (3, True)] 3 = (1, m'') \<and> ummu_map_get m'' = [4 \<mapsto> False]"
proof -
  let ?m = "[(4, False), (3, True)]"
  have "map_wf ?m" by (simp add: map_wf_def)
  moreover have "ummu_map_get ?m 5 = None" "ummu_map_get ?m 3 = Some True" "(ummu_map_get ?m)(3 := None) = [4 \<mapsto> False]"
    by (auto simp: ummu_map_get_def hashmap_get_def fun_eq_iff)
  ultimately show ?thesis using tid_map_operations [of ?m 5 False 3 "\<lambda>_. Some" "0::nat"] by fastforce
qed

end
