(* ===== verification/Ummu_Mapt.thy ===== *)
theory Ummu_Mapt
  imports Ummu_TableSpec Ummu_Map
begin

text \<open>
  The life of a TID and the public operations of \<^verbatim>\<open>src/ummu_mapt.c\<close>.  The library context
  (\<^verbatim>\<open>struct ummu_ctx_info\<close>) is passed explicitly; \<open>None\<close> for the context is the NULL pointer that
  \<^verbatim>\<open>get_ummu_ctx\<close> returns before a successful initialisation.  Each operation is the code
  between taking and releasing the locks.  The stack memory that \<^verbatim>\<open>struct ummu_data_info\<close>
  occupies is not initialised by the C code; its old contents are the argument \<open>junk\<close>.
\<close>

section \<open>Structures\<close>

record ummu_ctx_info =
  cx_mapt_map :: "mapt_info hashmap"
  cx_shared_fd :: int

definition zero_queue_ctx :: queue_ctx where
  "zero_queue_ctx = \<lparr>qc_ummu_cnt = 0, qc_queue_size = 0, qc_cmd_que_pi_size = 0, qc_cpl_que_size = 0,
     qc_queue = None\<rparr>"

definition zero_table_ctx :: table_ctx where
  "zero_table_ctx = \<lparr>tc_expan = False, tc_block_cnt = 0, tc_blk_exp_size = 0,
     tc_granted_addr_mng = None, tc_level_block_bitmap = replicate INDEX_LEVEL_BITMAP_SIZE 0,
     tc_mapt_block_base = None, tc_mapt_block_array = replicate INDEX_MAX_SIZE None\<rparr>"

record seg_attr =
  sa_token :: "token_info option"
  sa_e_bit :: u32

section \<open>Creating a TID's structures\<close>

definition ummu_mapt_entry_init ::
    "os_env \<Rightarrow> int \<Rightarrow> mapt_info \<Rightarrow> world \<Rightarrow> (int \<times> mapt_info) \<times> world" where
  "ummu_mapt_entry_init E fd mi w =
     (let (a, w1) = ummu_get_core_buf E (mi_tid mi) BASE_MODE_ENTRY_BLOCK BLOCK_SIZE_4K fd 0 w in
      if CORE_BUF_CHECK_INVALID a then ((- ENOMEM, mi), w1)
      else ((0, mi\<lparr>mi_block_base :=
               EntryBase a ((os_entry_mem E (clock w))\<lparr>en_valid := 0, en_nonce := 0\<rparr>)\<rparr>), w1))"

text \<open>
  When the initialisation fails after \<^verbatim>\<open>table_ctx\<close> was stored, the stored pointer dangles; the
  caller frees \<^verbatim>\<open>mapt_info\<close> without following it.
\<close>

definition ummu_mapt_table_ctx_init ::
    "os_env \<Rightarrow> int \<Rightarrow> mapt_info \<Rightarrow> tid_info \<Rightarrow> world \<Rightarrow> ((int \<times> mapt_info) \<times> world) option" where
  "ummu_mapt_table_ctx_init E fd mi info w =
     (let (ok, w1) = c_malloc E w in
      if \<not> ok then Some ((- ENOMEM, mi), w1)
      else
        let ((ret, mng), w2) = ummu_create_seg_mng E w1 in
        if ret \<noteq> 0 then Some ((- ENOMEM, mi), w2)
        else
          let ctx = zero_table_ctx\<lparr>tc_granted_addr_mng := mng,
                tc_expan := tf_hw_cap info AND HW_CAP_EXPAN \<noteq> 0,
                tc_blk_exp_size := tf_blk_exp_size info\<rparr>
          in do {
            (root, s) \<leftarrow> ummu_alloc_level_block E (mi_tid mi) fd Local None
              \<lparr>wk_root = zero_table_node, wk_ctx = ctx, wk_world = w2, wk_lvl = 0\<rparr>;
            if root = None then Some ((- errno (wk_world s), mi), wk_world s)
            else Some ((0, mi\<lparr>mi_block_base := TableBase (wk_ctx s)\<rparr>), wk_world s)
          })"

definition ummu_alloc_mapt_mem :: "os_env \<Rightarrow> tid_info \<Rightarrow> world \<Rightarrow> mapt_info option \<times> world" where
  "ummu_alloc_mapt_mem E info w =
     (let (ok, w1) = c_malloc E w in
      if \<not> ok then (None, w1)
      else (Some \<lparr>mi_block_base = NoBase, mi_tid = tf_tid info, mi_valid = 1,
                  mi_double_plbi = ucast (tf_hw_cap info AND HW_CAP_DOUBLE_PLBI),
                  mi_kcmd_plbi = ucast (tf_hw_cap info AND HW_CAP_KCMD_PLBI),
                  mi_mode = tf_mode info, mi_queue_ctx = zero_queue_ctx\<rparr>, w1))"

definition ummu_mapt_create ::
    "os_env \<Rightarrow> int \<Rightarrow> tid_info \<Rightarrow> world \<Rightarrow> (mapt_info option \<times> world) option" where
  "ummu_mapt_create E fd info w =
     (let (m, w1) = ummu_alloc_mapt_mem E info w in
      case m of
        None \<Rightarrow> Some (None, w1)
      | Some mi \<Rightarrow> do {
          ((ret, mi1), w2) \<leftarrow> ummu_queue_create E mi info fd w1;
          if ret \<noteq> 0 then Some (None, w2)
          else do {
            ((ret2, mi2), w3) \<leftarrow> (if mi_mode mi1 = MAPT_MODE_ENTRY
               then Some (ummu_mapt_entry_init E fd mi1 w2)
               else ummu_mapt_table_ctx_init E fd mi1 info w2);
            if ret2 \<noteq> 0 then do {
              (_, w4) \<leftarrow> ummu_queue_destroy E fd mi2 w3;
              Some (None, w4)
            } else Some (Some mi2, w3)
          }
        })"

section \<open>Granting\<close>

definition run_entry_op :: "mapt_info \<Rightarrow> data_info \<Rightarrow> (int \<times> mapt_info) option" where
  "run_entry_op mi di =
     (case mi_block_base mi of
        EntryBase a node \<Rightarrow>
          (let (ret, node') = ummu_entry_op node di in Some (ret, mi\<lparr>mi_block_base := EntryBase a node'\<rparr>))
      | _ \<Rightarrow> None)"

definition run_table_op ::
    "os_env \<Rightarrow> int \<Rightarrow> mapt_info \<Rightarrow> data_info \<Rightarrow> world \<Rightarrow> (int \<times> mapt_info \<times> data_info \<times> world) option" where
  "run_table_op E fd mi di w =
     (case mi_block_base mi of
        TableBase ctx \<Rightarrow> do {
          (ret, s) \<leftarrow> ummu_table_op E (mi_tid mi) fd di
            \<lparr>wk_root = zero_table_node, wk_ctx = ctx, wk_world = w, wk_lvl = di_lvl di\<rparr>;
          Some (ret, mi\<lparr>mi_block_base := TableBase (wk_ctx s)\<rparr>, di\<lparr>di_lvl := wk_lvl s\<rparr>, wk_world s)
        }
      | _ \<Rightarrow> None)"

definition ummu_grant_imp ::
    "os_env \<Rightarrow> int \<Rightarrow> mapt_info \<Rightarrow> data_info \<Rightarrow> world \<Rightarrow> (int \<times> mapt_info \<times> world) option" where
  "ummu_grant_imp E fd mi di w =
     (if mi_mode mi = MAPT_MODE_ENTRY \<or> mi_mode mi = MAPT_MODE_TABLE then do {
        (ret, mi1, di1, w1) \<leftarrow> (if mi_mode mi = MAPT_MODE_ENTRY
           then do { (ret, mi') \<leftarrow> run_entry_op mi di; Some (ret, mi', di, w) }
           else run_table_op E fd mi di w);
        if di_op di1 = UMMU_ADD_TOKEN \<or> ret \<noteq> 0 then do {
          (mi2, w2) \<leftarrow> ummu_plbi_va_cmd E fd mi1 di1 w1;
          Some (ret, mi2, w2)
        } else Some (ret, mi1, w1)
      } else Some (- EINVAL, mi, w))"

definition get_mapt_info_by_tid :: "ummu_ctx_info \<Rightarrow> u32 \<Rightarrow> mapt_info option" where
  "get_mapt_info_by_tid ctx tid =
     (case ummu_map_get (cx_mapt_map ctx) tid of
        None \<Rightarrow> None
      | Some mi \<Rightarrow> if mi_valid mi = 0 \<or> ummu_check_mode (mi_mode mi) \<noteq> 0 then None else Some mi)"

definition set_segs :: "mapt_info \<Rightarrow> table_ctx \<Rightarrow> seg_info range_table \<Rightarrow> mapt_info" where
  "set_segs mi ctx t = mi\<lparr>mi_block_base := TableBase (ctx\<lparr>tc_granted_addr_mng := Some t\<rparr>)\<rparr>"

definition ummu_update_info ::
    "os_env \<Rightarrow> grant_op \<Rightarrow> mapt_info \<Rightarrow> data_info \<Rightarrow> world \<Rightarrow> (int \<times> mapt_info \<times> world) option" where
  "ummu_update_info E opt mi di w =
     (if mi_mode mi \<noteq> MAPT_MODE_TABLE then Some (0, mi, w)
      else if opt = UMMU_OP_END then Some (- EINVAL, mi, w)
      else case mi_block_base mi of
        TableBase ctx \<Rightarrow> do {
          t \<leftarrow> tc_granted_addr_mng ctx;
          case opt of
            UMMU_GRANT \<Rightarrow>
              (let ((ret, t'), w') = ummu_insert_new_addr E t di w in Some (ret, set_segs mi ctx t', w'))
          | UMMU_UNGRANT \<Rightarrow>
              (let (ret, t', _) = ummu_delete_addr t di in Some (ret, set_segs mi ctx t', w))
          | _ \<Rightarrow>
              (let (ret, t') = ummu_token_update t di opt in Some (ret, set_segs mi ctx t', w))
        }
      | _ \<Rightarrow> None)"

text \<open>
  The result of \<^verbatim>\<open>ummu_grant\<close>: the code, the context, the caller's token structure (whose
  \<^verbatim>\<open>tokenVal\<close> may have been generated) and the world.
\<close>

definition put_mapt :: "ummu_ctx_info \<Rightarrow> u32 \<Rightarrow> mapt_info \<Rightarrow> ummu_ctx_info" where
  "put_mapt ctx tid mi = ctx\<lparr>cx_mapt_map := map_put (cx_mapt_map ctx) tid mi\<rparr>"

definition ummu_grant ::
    "os_env \<Rightarrow> data_info \<Rightarrow> ummu_ctx_info option \<Rightarrow> u32 \<Rightarrow> u64 \<Rightarrow> u64 \<Rightarrow> u32 \<Rightarrow> seg_attr option \<Rightarrow> world \<Rightarrow>
     (int \<times> ummu_ctx_info option \<times> seg_attr option \<times> world) option" where
  "ummu_grant E junk ctx_ptr tid data data_size perm attr_ptr w =
     (case (ctx_ptr, attr_ptr) of
        (Some ctx, Some attr) \<Rightarrow>
          (case get_mapt_info_by_tid ctx tid of
             None \<Rightarrow> Some (- EINVAL, ctx_ptr, attr_ptr, w)
           | Some mi \<Rightarrow>
               let di = junk\<lparr>di_data := data, di_data_size := data_size, di_perm := perm,
                     di_token := sa_token attr, di_e_bit := sa_e_bit attr\<rparr>
               in if ummu_check_data di (mi_mode mi) \<noteq> 0 then Some (- EINVAL, ctx_ptr, attr_ptr, w)
                  else
                    let ((ret, di1), w1) = ummu_perm_data_preproc E di w;
                        attr1 = Some (attr\<lparr>sa_token := di_token di1\<rparr>)
                    in if ret \<noteq> 0 then Some (- EINVAL, ctx_ptr, attr1, w1)
                       else do {
                         opt \<leftarrow> ummu_grant_check mi di1;
                         if opt = UMMU_OP_END then Some (- EINVAL, ctx_ptr, attr1, w1)
                         else do {
                           let di2 = di1\<lparr>di_op := opt\<rparr>;
                           (ret1, mi1, w2) \<leftarrow> ummu_grant_imp E (cx_shared_fd ctx) mi di2 w1;
                           (ret2, mi2, w3) \<leftarrow> (if ret1 = 0 then ummu_update_info E opt mi1 di2 w2
                                               else Some (ret1, mi1, w2));
                           Some (ret2, Some (put_mapt ctx tid mi2), attr1, w3)
                         }
                       })
      | _ \<Rightarrow> Some (- EINVAL, ctx_ptr, attr_ptr, w))"

section \<open>Ungranting\<close>

definition ummu_ungrant_imp ::
    "os_env \<Rightarrow> int \<Rightarrow> mapt_info \<Rightarrow> data_info \<Rightarrow> world \<Rightarrow> (int \<times> mapt_info \<times> data_info \<times> world) option" where
  "ummu_ungrant_imp E fd mi di w =
     (if mi_mode mi = MAPT_MODE_ENTRY
      then do { (ret, mi') \<leftarrow> run_entry_op mi di; Some (ret, mi', di, w) }
      else if mi_mode mi = MAPT_MODE_TABLE then run_table_op E fd mi di w
      else Some (- EINVAL, mi, di, w))"

text \<open>The range that is invalidated after an ungrant: widened to the region one level up.\<close>

definition plbi_range :: "data_info \<Rightarrow> data_info" where
  "plbi_range di =
     (if di_op di = UMMU_UNGRANT then
        let lvl = (if di_lvl di \<noteq> 0 then di_lvl di - 1 else 0);
            aligin_mask = GET_LEVEL_RANGE_MASK lvl;
            sz = di_data_size di + (di_data_base di AND aligin_mask)
        in di\<lparr>di_lvl := lvl, di_data_base := di_data_base di AND NOT aligin_mask,
              di_data_size := (sz + aligin_mask) AND NOT aligin_mask\<rparr>
      else di)"

definition ummu_ungrant_data ::
    "os_env \<Rightarrow> data_info \<Rightarrow> ummu_ctx_info option \<Rightarrow> u32 \<Rightarrow> u64 \<Rightarrow> u64 \<Rightarrow> u32 \<Rightarrow> bool \<Rightarrow> world \<Rightarrow>
     (int \<times> ummu_ctx_info option \<times> world) option" where
  "ummu_ungrant_data E junk ctx_ptr tid data sz tokenval bytoken w =
     (case ctx_ptr of
        None \<Rightarrow> Some (- ENOMEM, ctx_ptr, w)
      | Some ctx \<Rightarrow>
          if sz = 0 then Some (- ENOMEM, ctx_ptr, w)
          else case get_mapt_info_by_tid ctx tid of
             None \<Rightarrow> Some (- EINVAL, ctx_ptr, w)
           | Some mi \<Rightarrow>
               let di = junk\<lparr>di_lvl := MAX_LEVEL_INDEX, di_data := data, di_data_size := sz,
                     di_tokenval := tokenval, di_bytoken := bytoken, di_data_base := data,
                     di_data_limit := data + sz - 1\<rparr>
               in if mi_mode mi = MAPT_MODE_TABLE \<and> \<not> ALIGN_VPAGE_SHIFT_CHECK data
                  then Some (- EINVAL, ctx_ptr, w)
                  else do {
                    opt \<leftarrow> ummu_ungrant_check mi di;
                    if opt = UMMU_OP_END then Some (- EINVAL, ctx_ptr, w)
                    else do {
                      let di1 = di\<lparr>di_op := opt\<rparr>;
                      (ret1, mi1, di2, w1) \<leftarrow> ummu_ungrant_imp E (cx_shared_fd ctx) mi di1 w;
                      (ret2, mi2, w2) \<leftarrow> (if ret1 = 0 then ummu_update_info E opt mi1 di2 w1
                                          else Some (ret1, mi1, w1));
                      (mi3, w3) \<leftarrow> ummu_plbi_va_cmd E (cx_shared_fd ctx) mi2 (plbi_range di2) w2;
                      Some (ret2, Some (put_mapt ctx tid mi3), w3)
                    }
                  })"

definition ummu_ungrant ::
    "os_env \<Rightarrow> data_info \<Rightarrow> ummu_ctx_info option \<Rightarrow> u32 \<Rightarrow> u64 \<Rightarrow> u64 \<Rightarrow> world \<Rightarrow>
     (int \<times> ummu_ctx_info option \<times> world) option" where
  "ummu_ungrant E junk ctx tid data sz w = ummu_ungrant_data E junk ctx tid data sz 0 False w"

definition ummu_ungrant_by_token ::
    "os_env \<Rightarrow> data_info \<Rightarrow> ummu_ctx_info option \<Rightarrow> u32 \<Rightarrow> u64 \<Rightarrow> u64 \<Rightarrow> u32 \<Rightarrow> world \<Rightarrow>
     (int \<times> ummu_ctx_info option \<times> world) option" where
  "ummu_ungrant_by_token E junk ctx tid data sz token_val w =
     ummu_ungrant_data E junk ctx tid data sz token_val True w"

section \<open>Destroying a TID's structures\<close>

definition uninit_step :: "u64 \<Rightarrow> nat \<Rightarrow> mapt_block option list \<times> world \<Rightarrow> (mapt_block option list \<times> world) option" where
  "uninit_step exp_size idx = (\<lambda>(arr, w).
     let block_id = idx div PER_MAPT_LEVEL_BLOCK_CNT in
     if idx mod PER_MAPT_LEVEL_BLOCK_CNT \<noteq> 0 then Some (arr, w)
     else do {
       block \<leftarrow> arr_rd arr block_id;
       arr' \<leftarrow> arr_wr arr block_id None;
       Some (arr', case block of None \<Rightarrow> w
                   | Some b \<Rightarrow> ummu_free_core_buf BASE_MODE_TABLE_BLOCK (mb_block_addr b) exp_size w)
     })"

definition ummu_mapt_table_ctx_uninit :: "mapt_info \<Rightarrow> world \<Rightarrow> (mapt_info \<times> seg_info list \<times> world) option" where
  "ummu_mapt_table_ctx_uninit mi w =
     (case mi_block_base mi of
        TableBase ctx \<Rightarrow>
          (let freed = (case tc_granted_addr_mng ctx of None \<Rightarrow> [] | Some t \<Rightarrow> snd (ummu_destroy_seg_mng t))
           in do {
             (_, w') \<leftarrow> FOR_EACH_SET_BIT (tc_level_block_bitmap ctx) MAX_LEVEL_ID_SIZE
               (uninit_step (tc_blk_exp_size ctx)) (tc_mapt_block_array ctx, w);
             Some (mi\<lparr>mi_block_base := NoBase\<rparr>, freed, w')
           })
      | _ \<Rightarrow> None)"

definition ummu_mapt_entry_uninit :: "mapt_info \<Rightarrow> world \<Rightarrow> world option" where
  "ummu_mapt_entry_uninit mi w =
     (case mi_block_base mi of
        EntryBase a _ \<Rightarrow> Some (ummu_free_core_buf BASE_MODE_ENTRY_BLOCK a 0 w) | _ \<Rightarrow> None)"

definition ummu_mapt_destroy :: "os_env \<Rightarrow> int \<Rightarrow> mapt_info \<Rightarrow> world \<Rightarrow> world option" where
  "ummu_mapt_destroy E fd mi w =
     (if mi_mode mi = MAPT_MODE_ENTRY then do {
        w1 \<leftarrow> ummu_mapt_entry_uninit mi w;
        (_, w2) \<leftarrow> ummu_queue_destroy E fd mi w1;
        Some w2
      } else if mi_mode mi = MAPT_MODE_TABLE then do {
        (mi1, _, w1) \<leftarrow> ummu_mapt_table_ctx_uninit mi w;
        (_, w2) \<leftarrow> ummu_queue_destroy E fd mi1 w1;
        Some w2
      } else Some w)"

definition ummu_free_tid ::
    "os_env \<Rightarrow> ummu_ctx_info option \<Rightarrow> u32 \<Rightarrow> world \<Rightarrow> (int \<times> ummu_ctx_info option \<times> world) option" where
  "ummu_free_tid E ctx_ptr tid w =
     (case ctx_ptr of
        None \<Rightarrow> Some (- EINVAL, ctx_ptr, w)
      | Some ctx \<Rightarrow>
          (case ummu_map_get (cx_mapt_map ctx) tid of
             None \<Rightarrow> Some (- EINVAL, ctx_ptr, w)
           | Some mi \<Rightarrow>
               if mi_valid mi = 0 then Some (- EINVAL, ctx_ptr, w)
               else
                 let ctx' = ctx\<lparr>cx_mapt_map := snd (ummu_map_del (cx_mapt_map ctx) tid)\<rparr> in do {
                   w1 \<leftarrow> ummu_mapt_destroy E (cx_shared_fd ctx') mi w;
                   Some (0, Some ctx', ummu_put_tid E (cx_shared_fd ctx') tid w1)
                 }))"

section \<open>Allocating a TID\<close>

text \<open>
  \<open>mode_ptr\<close> is the \<^verbatim>\<open>mode\<close> of the caller's attributes, \<open>None\<close> for a NULL pointer; the last but
  one component of the result is the value stored through \<^verbatim>\<open>tid\<close>, if any.
\<close>

definition ummu_allocate_tid ::
    "os_env \<Rightarrow> ummu_ctx_info option \<Rightarrow> u32 option \<Rightarrow> bool \<Rightarrow> world \<Rightarrow>
     (int \<times> ummu_ctx_info option \<times> u32 option \<times> world) option" where
  "ummu_allocate_tid E ctx_ptr mode_ptr tid_null w =
     (case (ctx_ptr, mode_ptr) of
        (Some ctx, Some mode) \<Rightarrow>
          let ret = ummu_check_input_param mode tid_null in
          if ret \<noteq> 0 then Some (ret, ctx_ptr, None, w)
          else
            let ((ret1, info), w1) = ummu_get_tid E (cx_shared_fd ctx) (zero_tid_info\<lparr>tf_mode := mode\<rparr>) w in
            if ret1 \<noteq> 0 then Some (ret1, ctx_ptr, None, w1)
            else do {
              (created, w2) \<leftarrow> ummu_mapt_create E (cx_shared_fd ctx) info w1;
              case created of
                None \<Rightarrow> Some (- ENOMEM, ctx_ptr, None, ummu_put_tid E (cx_shared_fd ctx) (tf_tid info) w2)
              | Some mi \<Rightarrow>
                  (let (ret2, m') = ummu_map_insert (cx_mapt_map ctx) (tf_tid info) mi in
                   if ret2 \<noteq> 0 then do {
                     w3 \<leftarrow> ummu_mapt_destroy E (cx_shared_fd ctx) mi w2;
                     Some (ret2, ctx_ptr, None, ummu_put_tid E (cx_shared_fd ctx) (tf_tid info) w3)
                   } else Some (0, Some (ctx\<lparr>cx_mapt_map := m'\<rparr>), Some (tf_tid info), w2))
            }
      | _ \<Rightarrow> Some (- EINVAL, ctx_ptr, None, w))"

section \<open>Lemmas on the operations\<close>

lemma low_mask_parts:
  fixes a :: u64
  assumes "k < 64"
  shows "unat (a AND NOT (mask k)) = unat a - unat a mod 2 ^ k"
proof -
  have "a = (a AND NOT (mask k)) + (a AND mask k)"
    by (subst disjunctive_add) (auto simp: bit_and_iff bit_not_iff bit_eq_iff bit_or_iff)
  moreover have "(a AND NOT (mask k)) = a - (a AND mask k)" using calculation by (metis add_diff_cancel)
  moreover have "(a AND mask k) \<le> a" by (simp add: word_le_nat_alt unat_and_mask)
  ultimately have "unat (a AND NOT (mask k)) = unat a - unat (a AND mask k)" by (simp add: unat_sub)
  then show ?thesis by (simp add: unat_and_mask)
qed

lemma round_out:
  fixes a n N M :: nat
  assumes "0 < N" "N dvd M" "a + n \<le> M" and b: "b = a - a mod N" and m: "m = n + a mod N + (N - 1)"
  shows "b \<le> a" "N dvd b" "N dvd m - m mod N" "a + n \<le> b + (m - m mod N)" "b + (m - m mod N) \<le> M"
proof -
  show "b \<le> a" by (simp add: b)
  obtain q where q: "b = N * q" unfolding b by (metis minus_mod_eq_mult_div mult.commute)
  obtain p where p: "m - m mod N = N * p" by (metis minus_mod_eq_mult_div mult.commute)
  show "N dvd b" "N dvd m - m mod N" by (simp_all add: p q)
  have "m mod N \<le> N - 1" using assms(1) by (simp add: less_Suc_eq_le [symmetric])
  then have up: "n + a mod N \<le> N * p" and lo: "N * p < n + a mod N + N" using p m assms(1) by linarith+
  have aq: "a = N * q + a mod N" unfolding q [symmetric] b by simp
  with up show "a + n \<le> b + (m - m mod N)" unfolding p q by linarith
  from assms(2) obtain z where z: "M = N * z" by (auto simp: dvd_def)
  have "N * (q + p) < N * Suc z" using lo aq assms(3) z by (simp add: distrib_left)
  then have "q + p \<le> z" by (simp only: mult_less_cancel1 less_Suc_eq_le)
  then show "b + (m - m mod N) \<le> M" unfolding p q z by (simp flip: distrib_left)
qed

lemma plbi_range_words:
  assumes "di_op di = UMMU_UNGRANT" "di_lvl di \<le> 3" "request_ok di"
  shows "let N = 2 ^ region_bits (di_lvl di - 1) :: nat; a = unat (di_data_base di); m = unat (di_data_size di) + a mod N + (N - 1) in
    unat (di_data_base (plbi_range di)) = a - a mod N \<and> unat (di_data_size (plbi_range di)) = m - m mod N"
proof -
  define k where "k = region_bits (di_lvl di - 1)"
  have k: "12 \<le> k" "k \<le> 39" using assms(2) by (auto simp: k_def region_bits_def)
  have mask: "GET_LEVEL_RANGE_MASK (di_lvl di - 1) = mask k"
    using assms(2) range_bits [of "di_lvl di - 1"]
    by (simp add: GET_LEVEL_RANGE_MASK_def GET_BITS_MASK_mask k_def MAX_LEVEL_INDEX_def)
  define a n N where "a = di_data_base di" and "n = di_data_size di" and "N = (2 ^ k :: nat)"
  have lvl: "(if di_lvl di \<noteq> 0 then di_lvl di - 1 else 0) = di_lvl di - 1" by simp
  have pr: "plbi_range di = di\<lparr>di_lvl := di_lvl di - 1, di_data_base := a AND NOT (mask k),
      di_data_size := (n + (a AND mask k) + mask k) AND NOT (mask k)\<rparr>"
    by (simp only: plbi_range_def assms(1) Let_def lvl mask if_True refl a_def n_def)
  have an: "unat a + unat n \<le> 2 ^ 48" using assms(3) by (auto simp: request_ok_def a_def n_def)
  have "N \<le> 2 ^ 39" unfolding N_def using k by (intro power_increasing) auto
  then have "unat n + unat a mod N + (N - 1) \<le> (unat a + unat n) + 2 ^ 39" using mod_less_eq_dividend [of "unat a" N] by linarith
  also have "\<dots> < 2 ^ LENGTH(64)" using an by simp
  finally have w: "unat n + unat a mod N + (N - 1) < 2 ^ LENGTH(64)" .
  have mk: "unat (mask k :: u64) = N - 1" "unat (a AND mask k) = unat a mod N"
    using k by (simp_all add: unat_mask_less unat_and_mask N_def)
  have s1: "unat (n + (a AND mask k)) = unat n + unat a mod N" using w unat_plus_no_wrap [of n "a AND mask k"] mk by simp
  have s2: "unat (n + (a AND mask k) + mask k) = unat n + unat a mod N + (N - 1)"
    using w unat_plus_no_wrap [of "n + (a AND mask k)" "mask k"] s1 mk by simp
  have "unat (di_data_base (plbi_range di)) = unat a - unat a mod N"
    using k low_mask_parts [of k a] by (simp add: pr N_def)
  moreover have "unat (di_data_size (plbi_range di)) =
      (unat n + unat a mod N + (N - 1)) - (unat n + unat a mod N + (N - 1)) mod N"
    using k low_mask_parts [of k "n + (a AND mask k) + mask k"] s2 by (simp add: pr N_def)
  ultimately show ?thesis by (simp only: Let_def N_def k_def a_def n_def)
qed

lemma plbi_range_wide:
  assumes "di_op di = UMMU_UNGRANT" "di_lvl di \<le> 3" "request_ok di"
  shows "let d = plbi_range di; k = region_bits (di_lvl di - 1) in
    unat (di_data_base d) \<le> unat (di_data_base di) \<and>
    unat (di_data_base di) + unat (di_data_size di) \<le> unat (di_data_base d) + unat (di_data_size d) \<and>
    2 ^ k dvd unat (di_data_base d) \<and> 2 ^ k dvd unat (di_data_size d) \<and>
    unat (di_data_base d) + unat (di_data_size d) \<le> 2 ^ 48"
proof -
  define N a n m :: nat where "N = 2 ^ region_bits (di_lvl di - 1)" and "a = unat (di_data_base di)"
    and "n = unat (di_data_size di)" and "m = n + a mod N + (N - 1)"
  have "0 < N" "a + n \<le> 2 ^ 48" using assms(3) by (simp_all add: N_def a_def n_def request_ok_def)
  moreover have "N dvd 2 ^ 48" unfolding N_def by (intro le_imp_power_dvd) (simp add: region_bits_def)
  ultimately have r: "a - a mod N \<le> a" "N dvd a - a mod N" "N dvd m - m mod N" "a + n \<le> (a - a mod N) + (m - m mod N)"
    "(a - a mod N) + (m - m mod N) \<le> 2 ^ 48" using round_out [OF _ _ _ refl m_def, of "2 ^ 48"] by blast+
  have "unat (di_data_base (plbi_range di)) = a - a mod N" "unat (di_data_size (plbi_range di)) = m - m mod N"
    using plbi_range_words [OF assms] by (simp_all only: Let_def m_def N_def a_def n_def)
  then show ?thesis using r unfolding Let_def N_def [symmetric] a_def [symmetric] n_def [symmetric] by simp
qed

lemma get_mapt_info_SomeD:
  assumes "get_mapt_info_by_tid ctx tid = Some mi"
  shows "ummu_map_get (cx_mapt_map ctx) tid = Some mi" "mi_valid mi \<noteq> 0" "ummu_check_mode (mi_mode mi) = 0"
  using assms by (auto simp: get_mapt_info_by_tid_def split: option.splits if_splits)

lemma get_put_mapt:
  assumes "get_mapt_info_by_tid ctx tid = Some mi" "mi_valid mi' = mi_valid mi" "mi_mode mi' = mi_mode mi"
  shows "get_mapt_info_by_tid (put_mapt ctx tid mi') t = (if t = tid then Some mi' else get_mapt_info_by_tid ctx t)"
  using get_mapt_info_SomeD [OF assms(1)] assms(2,3)
  by (auto simp: get_mapt_info_by_tid_def put_mapt_def map_put_get)

lemma plbi_va_cmd_ok:
  assumes "plbi_ready E mi"
  shows "\<exists>mi' w'. ummu_plbi_va_cmd E fd mi di w = Some (mi', w') \<and> plbi_ready E mi' \<and> queue_frame mi mi'"
  unfolding ummu_plbi_va_cmd_def by (rule send_plbi_ok [OF assms])

section \<open>Properties\<close>

text \<open>C32: The range invalidated after an ungrant contains the ungranted range, starts and ends on a
  boundary of the level above the one where the walk stopped, and stays below \<open>2 ^ 48\<close>.\<close>

theorem plbi_range_covers:
  assumes "di_op di = UMMU_UNGRANT" "di_lvl di \<le> 3" "request_ok di"
  shows "let d = plbi_range di; k = region_bits (di_lvl di - 1) in
    unat (di_data_base d) \<le> unat (di_data_base di) \<and>
    unat (di_data_base di) + unat (di_data_size di) \<le> unat (di_data_base d) + unat (di_data_size d) \<and>
    2 ^ k dvd unat (di_data_base d) \<and> 2 ^ k dvd unat (di_data_size d) \<and>
    unat (di_data_base d) + unat (di_data_size d) \<le> 2 ^ 48"
  by (rule plbi_range_wide [OF assms])

theorem plbi_range_covers_witness:
  "let d = plbi_range (sample_request\<lparr>di_op := UMMU_UNGRANT, di_lvl := 3\<rparr>) in
    unat (di_data_base d) = 0 \<and> 0x9000 \<le> unat (di_data_size d)"
proof -
  let ?d = "sample_request\<lparr>di_op := UMMU_UNGRANT, di_lvl := 3\<rparr>"
  have r: "request_ok ?d" using sample_request_ok by (simp add: request_ok_def)
  have v: "di_data_base (plbi_range ?d) = 0" by code_simp
  show ?thesis using plbi_range_covers [of ?d, OF _ _ r] v
    by (simp add: Let_def sample_request_def)
qed

text \<open>In entry mode, a grant of a checked range to a TID without a grant returns 0 and stores
  exactly the request in the TID's entry node (range, permission, e-bit, and the token in both
  slots); every other TID is unchanged, and so is the world.\<close>

theorem entry_mode_grant:
  assumes "get_mapt_info_by_tid ctx tid = Some mi" "mi_mode mi = MAPT_MODE_ENTRY"
    "mi_block_base mi = EntryBase a node" "en_valid node = 0"
    "\<forall>t \<in> set_option (sa_token attr). ti_input t = 0"
    "0 < unat sz" "unat data + unat sz \<le> 2 ^ 48" "perm \<in> valid_perms"
    "sa_e_bit attr \<in> {UMMU_EBIT_OFF, UMMU_EBIT_ON}"
  shows "\<exists>node' ctx'. ummu_grant E junk (Some ctx) tid data sz perm (Some attr) w = Some (0, Some ctx', Some attr, w) \<and>
    get_mapt_info_by_tid ctx' tid = Some (mi\<lparr>mi_block_base := EntryBase a node'\<rparr>) \<and>
    (\<forall>t. t \<noteq> tid \<longrightarrow> get_mapt_info_by_tid ctx' t = get_mapt_info_by_tid ctx t) \<and>
    en_valid node' = 1 \<and> en_base node' = data \<and> en_limit node' = data + sz - 1 \<and>
    en_permission node' = ucast perm \<and> en_e_bit node' = ucast (sa_e_bit attr) \<and>
    (case sa_token attr of None \<Rightarrow> en_token_check node' = 0
     | Some t \<Rightarrow> en_token_check node' = 1 \<and> en_nonce node' = 1 \<and>
         en_token_val_0 node' = ti_tokenVal t \<and> en_token_val_1 node' = ti_tokenVal t)"
proof -
  define d0 where "d0 = junk\<lparr>di_data := data, di_data_size := sz, di_perm := perm, di_token := sa_token attr,
    di_e_bit := sa_e_bit attr\<rparr>"
  have chk: "ummu_check_data d0 MAPT_MODE_ENTRY = 0"
    using assms(6-9) by (simp add: check_data_ok d0_def ummu_consts)
  define d1 where "d1 = (case sa_token attr of
      None \<Rightarrow> d0\<lparr>di_token_check := 0\<rparr>
    | Some t \<Rightarrow> d0\<lparr>di_token_check := 1, di_token := Some t, di_tokenval := ti_tokenVal t\<rparr>)
    \<lparr>di_data_base := data, di_data_limit := data + sz - 1\<rparr>"
  have pre: "ummu_perm_data_preproc E d0 w = ((0, d1), w)"
    using assms(5) by (cases "sa_token attr")
      (simp_all add: ummu_perm_data_preproc_def ummu_get_token_def d0_def d1_def)
  have tok: "di_token d1 = sa_token attr" by (cases "sa_token attr") (simp_all add: d1_def d0_def)
  let ?d2 = "d1\<lparr>di_op := UMMU_GRANT\<rparr>"
  have gc: "ummu_grant_check mi d1 = Some UMMU_GRANT"
    using assms(2-4) by (simp add: ummu_grant_check_def ummu_entry_param_check_def)
  let ?n = "ummu_entry_fill_node node ?d2"
  let ?mi = "mi\<lparr>mi_block_base := EntryBase a ?n\<rparr>"
  have imp: "ummu_grant_imp E (cx_shared_fd ctx) mi ?d2 w = Some (0, ?mi, w)"
    using assms(2,3) by (simp add: ummu_grant_imp_def run_entry_op_def ummu_entry_op_def)
  have upd: "ummu_update_info E UMMU_GRANT ?mi ?d2 w = Some (0, ?mi, w)"
    using assms(2) by (simp add: ummu_update_info_def ummu_consts)
  have g: "ummu_grant E junk (Some ctx) tid data sz perm (Some attr) w =
      Some (0, Some (put_mapt ctx tid ?mi), Some attr, w)"
    unfolding ummu_grant_def using assms(1,2) chk pre gc imp upd tok
    by (simp add: d0_def [symmetric] Let_def)
  have lim: "unat (di_data_base ?d2) < 2 ^ 48" "unat (di_data_limit ?d2) < 2 ^ 48"
    using assms(6,7) last_byte_in_range [of sz data] by (auto simp: d1_def)
  note f = entry_fill_fields [OF refl lim, of node]
  show ?thesis
  proof (intro exI [of _ ?n] exI [of _ "put_mapt ctx tid ?mi"] conjI)
    show "case sa_token attr of None \<Rightarrow> en_token_check ?n = 0
     | Some t \<Rightarrow> en_token_check ?n = 1 \<and> en_nonce ?n = 1 \<and>
         en_token_val_0 ?n = ti_tokenVal t \<and> en_token_val_1 ?n = ti_tokenVal t"
      using f(6,7) by (cases "sa_token attr") (simp_all add: d1_def d0_def)
    show "en_base ?n = data" "en_limit ?n = data + sz - 1" using f(2,3) by (simp_all add: d1_def)
    show "en_permission ?n = ucast perm" "en_e_bit ?n = ucast (sa_e_bit attr)"
      using f(4,5) by (cases "sa_token attr"; simp add: d1_def d0_def)+
  qed (use g f(1) in \<open>auto simp: get_put_mapt [OF assms(1)]\<close>)
qed

definition sample_entry_ctx :: ummu_ctx_info where
  "sample_entry_ctx = \<lparr>cx_mapt_map = [(5, (sample_table_mapt [])\<lparr>mi_mode := MAPT_MODE_ENTRY,
     mi_block_base := EntryBase 0x10000 zero_entry_node, mi_queue_ctx := sample_queue_ctx\<rparr>)], cx_shared_fd = 3\<rparr>"

theorem entry_mode_grant_witness:
  "\<exists>ctx'. ummu_grant quiet_env sample_request (Some sample_entry_ctx) 5 0x7123 0x2000 MAPT_PERM_RW
     (Some \<lparr>sa_token = None, sa_e_bit = UMMU_EBIT_ON\<rparr>) world0 =
     Some (0, Some ctx', Some \<lparr>sa_token = None, sa_e_bit = UMMU_EBIT_ON\<rparr>, world0)"
proof -
  let ?mi = "(sample_table_mapt [])\<lparr>mi_mode := MAPT_MODE_ENTRY,
     mi_block_base := EntryBase 0x10000 zero_entry_node, mi_queue_ctx := sample_queue_ctx\<rparr>"
  have g: "get_mapt_info_by_tid sample_entry_ctx 5 = Some ?mi"
    by (simp add: get_mapt_info_by_tid_def sample_entry_ctx_def ummu_map_get_def hashmap_get_def
        sample_table_mapt_def check_mode_ok)
  have v: "en_valid zero_entry_node = 0" by (simp add: zero_entry_node_def entry_of_words_def)
  have p: "MAPT_PERM_RW \<in> valid_perms" by (simp add: valid_perms_def)
  from entry_mode_grant [OF g _ _ v, where attr = "\<lparr>sa_token = None, sa_e_bit = UMMU_EBIT_ON\<rparr>"
      and sz = "0x2000" and data = "0x7123" and perm = MAPT_PERM_RW and E = quiet_env
      and junk = sample_request and w = world0] p
  show ?thesis by auto
qed

text \<open>In entry mode, ungranting exactly the granted range always succeeds when the queues are in
  order: it returns 0, the entry node is all zero, so nothing is valid any more, the queues stay
  in order and no other TID changes.\<close>

theorem entry_mode_ungrant:
  assumes "get_mapt_info_by_tid ctx tid = Some mi" "mi_mode mi = MAPT_MODE_ENTRY"
    "mi_block_base mi = EntryBase a node" "en_valid node = 1"
    "en_base node = data" "en_limit node = data + sz - 1" "sz \<noteq> 0"
    "plbi_ready E mi"
  shows "\<exists>mi' ctx' w'. ummu_ungrant E junk (Some ctx) tid data sz w = Some (0, Some ctx', w') \<and>
    get_mapt_info_by_tid ctx' tid = Some mi' \<and> mi_block_base mi' = EntryBase a zero_entry_node \<and>
    plbi_ready E mi' \<and>
    (\<forall>t. t \<noteq> tid \<longrightarrow> get_mapt_info_by_tid ctx' t = get_mapt_info_by_tid ctx t)"
proof -
  define d where "d = junk\<lparr>di_lvl := MAX_LEVEL_INDEX, di_data := data, di_data_size := sz,
    di_tokenval := 0, di_bytoken := False, di_data_base := data, di_data_limit := data + sz - 1\<rparr>"
  have uc: "ummu_ungrant_check mi d = Some UMMU_UNGRANT"
    using assms(2-6) by (simp add: ummu_ungrant_check_def ummu_entry_ungrant_param_check_def d_def)
  let ?d1 = "d\<lparr>di_op := UMMU_UNGRANT\<rparr>" and ?mi = "mi\<lparr>mi_block_base := EntryBase a zero_entry_node\<rparr>"
  have imp: "ummu_ungrant_imp E (cx_shared_fd ctx) mi ?d1 w = Some (0, ?mi, ?d1, w)"
    using assms(2,3) by (simp add: ummu_ungrant_imp_def run_entry_op_def ummu_entry_op_def)
  have upd: "ummu_update_info E UMMU_UNGRANT ?mi ?d1 w = Some (0, ?mi, w)"
    using assms(2) by (simp add: ummu_update_info_def ummu_consts)
  have dev: "plbi_ready E ?mi" using assms(8) by (simp add: plbi_ready_def mi_device_ok_def queues_ok_def)
  from plbi_va_cmd_ok [OF dev] obtain mi' w' where
    p: "ummu_plbi_va_cmd E (cx_shared_fd ctx) ?mi (plbi_range ?d1) w = Some (mi', w')"
      "plbi_ready E mi'" "queue_frame ?mi mi'" by blast
  have mode: "mi_mode mi \<noteq> MAPT_MODE_TABLE" using assms(2) by (simp add: ummu_consts)
  have u: "ummu_ungrant E junk (Some ctx) tid data sz w = Some (0, Some (put_mapt ctx tid mi'), w')"
    unfolding ummu_ungrant_def ummu_ungrant_data_def using assms(1,7) mode uc imp upd p(1)
    by (simp add: d_def [symmetric] Let_def)
  from p(3) have f: "mi_valid mi' = mi_valid mi" "mi_mode mi' = mi_mode mi" "mi_kcmd_plbi mi' = mi_kcmd_plbi mi"
      "mi_block_base mi' = EntryBase a zero_entry_node" by (auto simp: queue_frame_def)
  show ?thesis using u f p(2) get_put_mapt [OF assms(1) f(1,2)] by auto
qed

theorem entry_mode_ungrant_witness:
  "\<exists>ctx' w'. ummu_ungrant quiet_env sample_request (Some \<lparr>cx_mapt_map = [(5, (sample_table_mapt [])\<lparr>mi_mode := MAPT_MODE_ENTRY,
     mi_block_base := EntryBase 0x10000 (ummu_entry_fill_node zero_entry_node sample_request),
     mi_queue_ctx := sample_queue_ctx\<rparr>)], cx_shared_fd = 3\<rparr>) 5 0x7000 0x2000 world0 = Some (0, Some ctx', w')"
proof -
  let ?n = "ummu_entry_fill_node zero_entry_node sample_request"
  let ?mi = "(sample_table_mapt [])\<lparr>mi_mode := MAPT_MODE_ENTRY, mi_block_base := EntryBase 0x10000 ?n,
    mi_queue_ctx := sample_queue_ctx\<rparr>"
  let ?c = "\<lparr>cx_mapt_map = [(5, ?mi)], cx_shared_fd = 3\<rparr>"
  have g: "get_mapt_info_by_tid ?c 5 = Some ?mi"
    by (simp add: get_mapt_info_by_tid_def ummu_map_get_def hashmap_get_def sample_table_mapt_def check_mode_ok)
  have l: "unat (di_data_base sample_request) < 2 ^ 48" "unat (di_data_limit sample_request) < 2 ^ 48"
    by (simp_all add: sample_request_def)
  note f = entry_fill_fields [OF refl l, of zero_entry_node]
  have v: "en_base ?n = 0x7000" "en_limit ?n = 0x7000 + 0x2000 - 1"
    using f(2,3) by (simp_all add: sample_request_def)
  have q: "plbi_ready quiet_env ?mi" by (rule sample_plbi_ready) simp
  from entry_mode_ungrant [OF g _ _ f(1) v _ q, where junk = sample_request and w = world0]
  show ?thesis by auto
qed

end
