(* ===== verification/Ummu_Log.thy ===== *)
theory Ummu_Log imports Ummu_Prelude begin

text \<open>
  \<^verbatim>\<open>src/ummu_log.h\<close>: the levels, the level filter and the log line.  What reaches \<^verbatim>\<open>syslog\<close> is the
  result: the priority and the text, or nothing.  The expansion of the caller's arguments in a format
  string (\<^verbatim>\<open>vsnprintf\<close> of the C library, before it is cut to the buffer) is the parameter \<open>expand\<close>, with
  \<open>None\<close> where it fails.
\<close>

section \<open>Levels\<close>

definition UMMU_VLOG_LEVEL_EMERG :: int where "UMMU_VLOG_LEVEL_EMERG = 0"
definition UMMU_VLOG_LEVEL_ALERT :: int where "UMMU_VLOG_LEVEL_ALERT = 1"
definition UMMU_VLOG_LEVEL_CRIT :: int where "UMMU_VLOG_LEVEL_CRIT = 2"
definition UMMU_VLOG_LEVEL_ERR :: int where "UMMU_VLOG_LEVEL_ERR = 3"
definition UMMU_VLOG_LEVEL_WARNING :: int where "UMMU_VLOG_LEVEL_WARNING = 4"
definition UMMU_VLOG_LEVEL_NOTICE :: int where "UMMU_VLOG_LEVEL_NOTICE = 5"
definition UMMU_VLOG_LEVEL_INFO :: int where "UMMU_VLOG_LEVEL_INFO = 6"
definition UMMU_VLOG_LEVEL_DEBUG :: int where "UMMU_VLOG_LEVEL_DEBUG = 7"
definition UMMU_VLOG_LEVEL_MAX :: int where "UMMU_VLOG_LEVEL_MAX = 8"

definition MAX_LOG_LEN :: nat where "MAX_LOG_LEN = 256"
definition UMMU_MAPT_LOG_TAG :: string where "UMMU_MAPT_LOG_TAG = ''LogTag_UMMU_MAPT''"

definition ummu_log_drop :: "int \<Rightarrow> int \<Rightarrow> bool" where
  "ummu_log_drop g_loglevel level \<longleftrightarrow> level > g_loglevel"

section \<open>The log line\<close>

text \<open>\<^verbatim>\<open>%d\<close>, and \<^verbatim>\<open>snprintf\<close>: the length the whole text would have, and what fits before the terminator.\<close>

fun put_digits :: "nat \<Rightarrow> string \<Rightarrow> string" where
  "put_digits n rest =
     (if n div 10 = 0 then char_of (48 + n mod 10) # rest
      else put_digits (n div 10) (char_of (48 + n mod 10) # rest))"

declare put_digits.simps [simp del]

definition dec_int :: "int \<Rightarrow> string" where
  "dec_int i = (let digits = put_digits (nat \<bar>i\<bar>) [] in if i < 0 then CHR ''-'' # digits else digits)"

definition snprintf_text :: "nat \<Rightarrow> string \<Rightarrow> int \<times> string" where
  "snprintf_text n s = (int (length s), take (n - 1) s)"

definition log_head :: "int \<Rightarrow> string \<Rightarrow> int \<Rightarrow> string \<Rightarrow> string" where
  "log_head pid function line format =
     ''['' @ dec_int pid @ '']'' @ UMMU_MAPT_LOG_TAG @ ''|'' @ function @ ''['' @ dec_int line @ '']|'' @ format"

definition ummu_log ::
    "(string \<Rightarrow> string option) \<Rightarrow> int \<Rightarrow> string \<Rightarrow> int \<Rightarrow> int \<Rightarrow> string \<Rightarrow> (int \<times> string) option" where
  "ummu_log expand pid function line level format =
     (let (ret, newformat) = snprintf_text MAX_LOG_LEN (log_head pid function line format)
      in if ret \<le> 0 \<or> ret \<ge> int (MAX_LOG_LEN + 1) then None
         else (case expand newformat of
             None \<Rightarrow> None
           | Some s \<Rightarrow> Some (level, snd (snprintf_text MAX_LOG_LEN s))))"

definition UMMU_LOG ::
    "(string \<Rightarrow> string option) \<Rightarrow> int \<Rightarrow> string \<Rightarrow> int \<Rightarrow> int \<Rightarrow> int \<Rightarrow> string \<Rightarrow> (int \<times> string) option" where
  "UMMU_LOG expand pid function line g_loglevel level format =
     (if \<not> ummu_log_drop g_loglevel level then ummu_log expand pid function line level format else None)"

definition UMMU_MAPT_INFO_LOG ::
    "(string \<Rightarrow> string option) \<Rightarrow> int \<Rightarrow> string \<Rightarrow> int \<Rightarrow> int \<Rightarrow> string \<Rightarrow> (int \<times> string) option" where
  "UMMU_MAPT_INFO_LOG expand pid function line g format =
     UMMU_LOG expand pid function line g UMMU_VLOG_LEVEL_INFO format"

definition UMMU_MAPT_ERROR_LOG ::
    "(string \<Rightarrow> string option) \<Rightarrow> int \<Rightarrow> string \<Rightarrow> int \<Rightarrow> int \<Rightarrow> string \<Rightarrow> (int \<times> string) option" where
  "UMMU_MAPT_ERROR_LOG expand pid function line g format =
     UMMU_LOG expand pid function line g UMMU_VLOG_LEVEL_ERR format"

definition UMMU_MAPT_WARN_LOG ::
    "(string \<Rightarrow> string option) \<Rightarrow> int \<Rightarrow> string \<Rightarrow> int \<Rightarrow> int \<Rightarrow> string \<Rightarrow> (int \<times> string) option" where
  "UMMU_MAPT_WARN_LOG expand pid function line g format =
     UMMU_LOG expand pid function line g UMMU_VLOG_LEVEL_WARNING format"

definition UMMU_MAPT_DEBUG_LOG ::
    "(string \<Rightarrow> string option) \<Rightarrow> int \<Rightarrow> string \<Rightarrow> int \<Rightarrow> int \<Rightarrow> string \<Rightarrow> (int \<times> string) option" where
  "UMMU_MAPT_DEBUG_LOG expand pid function line g format =
     UMMU_LOG expand pid function line g UMMU_VLOG_LEVEL_DEBUG format"

section \<open>What reaches the log\<close>

lemma log_head_nonempty: "0 < length (log_head pid fn line fmt)"
  by (simp add: log_head_def)

text \<open>The cases of a call, by the length of the line: up to 255 characters it is expanded whole, at 256 it is
  expanded without its last character, and a longer one is not written.\<close>

lemma ummu_log_cases:
  "ummu_log expand pid fn line level fmt =
     (let h = log_head pid fn line fmt
      in if length h \<le> 256
         then map_option (\<lambda>s. (level, take 255 s)) (expand (if length h = 256 then butlast h else h)) else None)"
proof -
  let ?h = "log_head pid fn line fmt"
  have ne: "0 < length ?h" by (rule log_head_nonempty)
  have "take 255 ?h = (if length ?h = 256 then butlast ?h else ?h)" if "length ?h \<le> 256"
    using that by (auto simp: butlast_conv_take)
  then show ?thesis
    using ne by (auto simp: ummu_log_def snprintf_text_def MAX_LOG_LEN_def Let_def split: option.split)
qed

text \<open>Whatever the arguments, what is written is at the level asked for, which passes the filter, and fits
  the 256 byte buffer with its terminator.\<close>

theorem log_message_bounded:
  "UMMU_LOG expand pid fn line g level fmt = Some (l, m) \<Longrightarrow> l = level \<and> level \<le> g \<and> length m < MAX_LOG_LEN"
  by (auto simp: UMMU_LOG_def ummu_log_drop_def ummu_log_cases MAX_LOG_LEN_def Let_def split: if_splits)

text \<open>A message that passes the filter and fits is written whole.\<close>

theorem log_message_written:
  assumes "level \<le> g" and "length (log_head pid fn line fmt) < MAX_LOG_LEN"
    and "expand (log_head pid fn line fmt) = Some m" and "length m < MAX_LOG_LEN"
  shows "UMMU_LOG expand pid fn line g level fmt = Some (level, m)"
  using assms by (simp add: UMMU_LOG_def ummu_log_drop_def ummu_log_cases MAX_LOG_LEN_def Let_def)

text \<open>The test of the length compares with the array, which has one byte more than the size \<^verbatim>\<open>snprintf\<close> is given:
  a line of 256 characters passes although its last character was cut, here the \<^verbatim>\<open>d\<close> of a conversion.\<close>

theorem log_format_cut:
  "\<exists>fmt. last fmt = CHR ''d'' \<and> last (butlast fmt) = CHR ''%'' \<and>
     UMMU_LOG Some 1 ''f'' 1 7 3 fmt = Some (3, butlast (log_head 1 ''f'' 1 fmt))"
proof (intro exI conjI)
  let ?fmt = "replicate 229 (CHR ''x'') @ ''%d''"
  have d: "dec_int 1 = ''1''" by (simp add: dec_int_def put_digits.simps char_of_def bit_0)
  have len: "length (log_head 1 ''f'' 1 ?fmt) = 256"
    by (simp add: log_head_def d UMMU_MAPT_LOG_TAG_def)
  show "last ?fmt = CHR ''d''" by simp
  show "last (butlast ?fmt) = CHR ''%''" by (simp add: butlast_append)
  have "length (butlast (log_head 1 ''f'' 1 ?fmt)) = 255" using len by simp
  then have "take 255 (butlast (log_head 1 ''f'' 1 ?fmt)) = butlast (log_head 1 ''f'' 1 ?fmt)" by simp
  then show "UMMU_LOG Some 1 ''f'' 1 7 3 ?fmt = Some (3, butlast (log_head 1 ''f'' 1 ?fmt))"
    using len by (simp add: UMMU_LOG_def ummu_log_drop_def ummu_log_cases Let_def)
qed

end
