(* ===== verification/Ummu_Main.thy ===== *)
theory Ummu_Main
  imports Ummu_Mapt Ummu_Log
begin

text \<open>
  \<^verbatim>\<open>src/ummu_main.c\<close>: the log level, the global context
  \<^verbatim>\<open>g_ummu_ctx\<close>, its initialisation, its destruction at unload and its replacement in a forked
  child.
\<close>

section \<open>Log level\<close>

text \<open>
  \<^verbatim>\<open>strtol\<close> in base 10 on a string of one character: the value of a digit, and 0, with
  \<^verbatim>\<open>errno\<close> untouched, when nothing can be converted.
\<close>

definition strtol_char :: "char \<Rightarrow> int" where
  "strtol_char c = (let n = of_char c :: int in if 48 \<le> n \<and> n \<le> 57 then n - 48 else 0)"

text \<open>
  The file: \<open>None\<close> when \<^verbatim>\<open>fopen\<close> fails, \<open>Some None\<close> when no byte can be read, otherwise its
  first byte.
\<close>

definition ummu_get_log_level :: "char option option \<Rightarrow> int" where
  "ummu_get_log_level file =
     (case file of
        None \<Rightarrow> UMMU_VLOG_LEVEL_INFO
      | Some None \<Rightarrow> UMMU_VLOG_LEVEL_INFO
      | Some (Some c) \<Rightarrow>
          let input = strtol_char c in
          if UMMU_VLOG_LEVEL_EMERG \<le> input \<and> input < UMMU_VLOG_LEVEL_MAX then input
          else UMMU_VLOG_LEVEL_INFO)"

section \<open>The context\<close>

definition TID_DEVICE_NAME :: string where "TID_DEVICE_NAME = ''/dev/ummu/tid''"

text \<open>The result is the code and, on success, the initialised context.\<close>

definition ummu_ctx_init :: "os_env \<Rightarrow> world \<Rightarrow> ((int \<times> ummu_ctx_info option) \<times> world) option" where
  "ummu_ctx_init E w =
     (let (fd, w1) = sys_open E TID_DEVICE_NAME (w\<lparr>errno := 0\<rparr>) in
      if fd < 0 then Some ((- ENODEV, None), w1)
      else
        let (ok, w2) = c_malloc E w1 in do {
          m \<leftarrow> ummu_map_create ok;
          Some ((0, Some \<lparr>cx_mapt_map = m, cx_shared_fd = fd\<rparr>), w2)
        })"

definition ummu_new_ctx :: "os_env \<Rightarrow> world \<Rightarrow> (ummu_ctx_info option \<times> world) option" where
  "ummu_new_ctx E w =
     (let (ok, w1) = c_malloc E w in
      if \<not> ok then Some (None, w1)
      else do {
        ((ret, ctx), w2) \<leftarrow> ummu_ctx_init E w1;
        Some (if ret \<noteq> 0 then None else ctx, w2)
      })"

text \<open>The child of a fork only drops its copies: no destroyer runs, so the parent's TIDs stay.\<close>

definition child_process_after_fork ::
    "os_env \<Rightarrow> ummu_ctx_info option \<Rightarrow> world \<Rightarrow> (ummu_ctx_info option \<times> world) option" where
  "child_process_after_fork E g w = do {
     w1 \<leftarrow> (case g of
        None \<Rightarrow> Some w
      | Some ctx \<Rightarrow> do {
          w' \<leftarrow> ummu_map_clear (cx_mapt_map ctx) None w;
          Some (if cx_shared_fd ctx \<ge> 0 then sys_close (cx_shared_fd ctx) w' else w')
        });
     ummu_new_ctx E w1
   }"

definition ummu_mapt_info_destroy :: "os_env \<Rightarrow> int \<Rightarrow> mapt_info \<Rightarrow> world \<Rightarrow> world option" where
  "ummu_mapt_info_destroy E fd mi w = ummu_mapt_destroy E fd mi w"

definition ummu_uninit ::
    "os_env \<Rightarrow> ummu_ctx_info option \<Rightarrow> world \<Rightarrow> (ummu_ctx_info option \<times> world) option" where
  "ummu_uninit E g w =
     (case g of
        None \<Rightarrow> Some (None, w)
      | Some ctx \<Rightarrow> do {
          w1 \<leftarrow> ummu_map_clear (cx_mapt_map ctx)
            (Some (\<lambda>mi w. ummu_mapt_info_destroy E (cx_shared_fd ctx) mi w)) w;
          Some (None, if cx_shared_fd ctx \<ge> 0 then sys_close (cx_shared_fd ctx) w1 else w1)
        })"

definition ummu_init ::
    "os_env \<Rightarrow> char option option \<Rightarrow> world \<Rightarrow> (int \<times> ummu_ctx_info option \<times> world) option" where
  "ummu_init E file w = do {
     (g, w1) \<leftarrow> ummu_new_ctx E w;
     Some (ummu_get_log_level file, g, w1)
   }"

section \<open>Properties\<close>

text \<open>C40: The log level read from the file is always one of the eight levels, so no array or shift by the
  level can go wrong and an emergency message is never dropped: a digit from 0 to 7 selects that
  level, the digits 8 and 9 and a missing or empty file select the default INFO.  A first
  character that is not a digit selects EMERG, the most silent level, and not the default.\<close>

theorem log_level_of_file:
  "0 \<le> ummu_get_log_level f \<and> ummu_get_log_level f < UMMU_VLOG_LEVEL_MAX \<and>
   \<not> ummu_log_drop (ummu_get_log_level f) UMMU_VLOG_LEVEL_EMERG \<and>
   ummu_get_log_level f = (case f of
      Some (Some c) \<Rightarrow> let n = of_char c :: int in
        if 48 \<le> n \<and> n \<le> 55 then n - 48 else if n = 56 \<or> n = 57 then UMMU_VLOG_LEVEL_INFO else UMMU_VLOG_LEVEL_EMERG
    | _ \<Rightarrow> UMMU_VLOG_LEVEL_INFO)"
  by (auto simp: ummu_get_log_level_def strtol_char_def ummu_log_drop_def UMMU_VLOG_LEVEL_EMERG_def UMMU_VLOG_LEVEL_INFO_def
      UMMU_VLOG_LEVEL_MAX_def Let_def split: option.splits)

text \<open>C19: After a fork the child drops the parent's context without releasing anything of the parent: it
  closes its copy of the driver's file, asks for memory for a context of its own and opens the driver anew,
  and makes no other system call, so no mapping is removed, no command is sent and no TID is given back.
  When the memory, the driver's file and the memory of the table are there, it then has an empty context
  with the new file.  Without memory for the context it does not open the driver and has none; when the
  driver cannot be opened it has none; and without memory for the table, \<^verbatim>\<open>new\<close> throws
  \<^verbatim>\<open>std::bad_alloc\<close>, which nothing catches.\<close>

theorem fork_child_fresh:
  "let fd = cx_shared_fd ctx;
       closed = (if 0 \<le> fd then [SysClose fd] else []);
       c = (if 0 \<le> fd then Suc (clock w) else clock w);
       fd' = os_open E (Suc c) TID_DEVICE_NAME in
   if os_malloc E c \<and> 0 \<le> fd' \<and> \<not> os_malloc E (Suc (Suc c)) then child_process_after_fork E (Some ctx) w = None
   else \<exists>w'. child_process_after_fork E (Some ctx) w =
       Some (if os_malloc E c \<and> 0 \<le> fd' then Some \<lparr>cx_mapt_map = [], cx_shared_fd = fd'\<rparr> else None, w') \<and>
     trace w' = trace w @ closed @ (if os_malloc E c then [SysOpen TID_DEVICE_NAME fd'] else [])"
  by (auto simp: child_process_after_fork_def ummu_map_clear_def hashmap_clear_def ummu_new_ctx_def ummu_ctx_init_def
      c_malloc_def sys_open_def sys_close_def ummu_map_create_def create_map_def errno_defs Let_def)

theorem fork_child_fresh_witness:
  "\<exists>w'. child_process_after_fork quiet_env (Some sample_entry_ctx) world0 = Some (Some \<lparr>cx_mapt_map = [], cx_shared_fd = 3\<rparr>, w') \<and>
     trace w' = [SysClose 3, SysOpen TID_DEVICE_NAME 3]"
proof -
  have e: "\<And>n. os_malloc quiet_env n" "os_open quiet_env n p = 3" for n p by (simp_all add: quiet_env_def)
  have "cx_shared_fd sample_entry_ctx = 3" by (simp add: sample_entry_ctx_def)
  with fork_child_fresh [of sample_entry_ctx world0 quiet_env] show ?thesis by (simp add: e world0_def Let_def)
qed

end
