(* ===== verification/Ummu_Records.thy ===== *)
theory Ummu_Records
  imports Ummu_Main
begin

text \<open>
  The records of the segment manager and the permission table of one TID, together.
  \<open>table_ok mi t\<close> says that the TID is in table mode, that its segments are \<open>t\<close> and that its level
  tables represent exactly the grants these segments describe.  \<open>op_allowed\<close> is the condition under
  which the checks of \<^verbatim>\<open>src/ummu_seg_mng.c\<close> choose an operation; \<open>seg_step\<close> is what the operation does
  to the segment.  The lemmas show that an allowed operation, run on the table
  (\<^verbatim>\<open>ummu_table_op\<close>) and then recorded (\<^verbatim>\<open>ummu_update_info\<close>), keeps \<open>table_ok\<close>, and that a table
  operation that fails leaves the records right.  \<open>access\<close> is what the hardware finds at an address.
\<close>

section \<open>The records and the table agree\<close>

definition attrs_of_seg :: "seg_info \<Rightarrow> grant_attr" where
  "attrs_of_seg s = \<lparr>ga_perm = ucast (si_permission s), ga_ebit = ucast (si_e_bit s),
     ga_tokens = (if si_token_check s = 1 then Some (si_token_val_0 s, si_token_val_1 s, ucast (si_token_count s)) else None)\<rparr>"

definition grants_of :: "(range \<Rightarrow> seg_info option) \<Rightarrow> grants" where
  "grants_of m = {(unat (rleft r), unat (rright r), attrs_of_seg s) | r s. m r = Some s}"

definition seg_ok :: "seg_info \<Rightarrow> bool" where
  "seg_ok s \<longleftrightarrow> si_token_check s \<in> {0, 1} \<and> (si_token_check s = 1 \<longrightarrow> si_token_count s \<in> {1, 2})"

definition ctx_walk :: "table_ctx \<Rightarrow> walk" where
  "ctx_walk ctx = \<lparr>wk_root = zero_table_node, wk_ctx = ctx, wk_world = world0, wk_lvl = 0\<rparr>"

definition table_ok :: "mapt_info \<Rightarrow> seg_info range_table \<Rightarrow> bool" where
  "table_ok mi t \<longleftrightarrow> mi_mode mi = MAPT_MODE_TABLE \<and> seg_wf t \<and> (\<forall>(r, s) \<in> set t. seg_ok s) \<and>
     (\<exists>ctx. mi_block_base mi = TableBase ctx \<and> tc_granted_addr_mng ctx = Some t \<and>
        represents (ctx_walk ctx) (grants_of (map_of t)))"

lemma table_segs_ok: "table_ok mi t \<Longrightarrow> table_segs mi t"
  by (auto simp: table_ok_def table_segs_def ummu_consts)

lemma range_eqI: "unat (rleft r) = unat (rleft r') \<Longrightarrow> unat (rright r) = unat (rright r') \<Longrightarrow> r = (r' :: range)"
  by (cases r; cases r') (simp add: word_unat_eq_iff)

lemma grants_of_mem: "(unat (rleft r), unat (rright r), g) \<in> grants_of m \<longleftrightarrow> (\<exists>s. m r = Some s \<and> g = attrs_of_seg s)"
  unfolding grants_of_def using range_eqI by blast

lemma grants_of_upd:
  "grants_of (m(r \<mapsto> s)) = insert (unat (rleft r), unat (rright r), attrs_of_seg s) (grants_of (m(r := None)))"
proof (rule set_eqI)
  fix x show "x \<in> grants_of (m(r \<mapsto> s)) \<longleftrightarrow> x \<in> insert (unat (rleft r), unat (rright r), attrs_of_seg s) (grants_of (m(r := None)))"
    by (cases x) (auto simp: grants_of_def split: if_splits)
qed

lemma request_range_parts:
  assumes "request_ok di" "di_data_limit di = di_data_base di + di_data_size di - 1"
  shows "rleft (request_range di) = di_data_base di" "rright (request_range di) = di_data_limit di"
    "unat (di_data_base di) \<le> unat (di_data_limit di)" "unat (di_data_limit di) < 2 ^ 48"
    "unat (di_data_limit di) + 1 = unat (di_data_base di) + unat (di_data_size di)"
proof -
  show "rleft (request_range di) = di_data_base di" "rright (request_range di) = di_data_limit di"
    using assms(2) by (simp_all add: request_range_def Range_def algebra_simps)
  have "unat (di_data_limit di) + 1 = unat (di_data_base di) + unat (di_data_size di)"
    using assms last_byte_in_range [of "di_data_size di" "di_data_base di"] by (simp add: request_ok_def)
  then show "unat (di_data_limit di) + 1 = unat (di_data_base di) + unat (di_data_size di)"
    "unat (di_data_base di) \<le> unat (di_data_limit di)" "unat (di_data_limit di) < 2 ^ 48"
    using assms(1) by (auto simp: request_ok_def)
qed

lemma not_overlaps_apart: "\<not> overlaps r r' \<Longrightarrow> apart (unat (rleft r)) (unat (rright r)) (unat (rleft r')) (unat (rright r'))"
  by (auto simp: overlaps_def range_less apart_def word_less_nat_alt)

text \<open>What the four operations do to the segments.\<close>

definition seg_step :: "grant_op \<Rightarrow> data_info \<Rightarrow> seg_info option \<Rightarrow> seg_info option" where
  "seg_step opt di v = (case opt of
     UMMU_GRANT \<Rightarrow> Some (seg_of_grant di)
   | UMMU_UNGRANT \<Rightarrow> None
   | UMMU_REMOVE_TOKEN \<Rightarrow> map_option (ummu_remove_tokenval (di_tokenval di)) v
   | UMMU_ADD_TOKEN \<Rightarrow> map_option (seg_add_tokenval (di_tokenval di)) v
   | UMMU_OP_END \<Rightarrow> v)"

text \<open>When an operation is chosen, as the checks of the segment manager do.\<close>

definition op_allowed :: "seg_info range_table \<Rightarrow> data_info \<Rightarrow> bool" where
  "op_allowed t di = (case (di_op di, map_of t (request_range di)) of
     (UMMU_GRANT, None) \<Rightarrow> (\<nexists>r s. (r, s) \<in> set t \<and> overlaps r (request_range di)) \<and> 4096 dvd unat (di_data_base di) \<and>
        di_token_check di \<in> {0, 1}
   | (UMMU_UNGRANT, Some s) \<Rightarrow> True
   | (UMMU_ADD_TOKEN, Some s) \<Rightarrow> si_token_check s = 1 \<and> si_token_count s = 1
   | (UMMU_REMOVE_TOKEN, Some s) \<Rightarrow> si_token_check s = 1 \<and> di_tokenval di \<in> {si_token_val_0 s, si_token_val_1 s}
   | _ \<Rightarrow> False)"

lemma attrs_of_grant: "di_token_check di \<in> {0, 1} \<Longrightarrow> attrs_of_seg (seg_of_grant di) = req_attr di"
  by (auto simp: attrs_of_seg_def seg_of_grant_def req_attr_def Let_def)

lemma token_attr_seg:
  "di_op di = UMMU_ADD_TOKEN \<Longrightarrow> si_token_check s = 1 \<Longrightarrow> si_token_count s = 1 \<Longrightarrow>
     token_attr di (attrs_of_seg s) = (0, attrs_of_seg (seg_add_tokenval (di_tokenval di) s))"
  "di_op di = UMMU_REMOVE_TOKEN \<Longrightarrow> si_token_check s = 1 \<Longrightarrow> di_tokenval di \<in> {si_token_val_0 s, si_token_val_1 s} \<Longrightarrow>
     token_attr di (attrs_of_seg s) = (0, attrs_of_seg (ummu_remove_tokenval (di_tokenval di) s))"
  by (auto simp: token_attr_def attrs_of_seg_def seg_add_tokenval_def ummu_remove_tokenval_def Let_def UMMU_MAX_TOKEN_NUM_def)

lemma seg_step_ok:
  "op_allowed t di \<Longrightarrow> (\<And>s. map_of t (request_range di) = Some s \<Longrightarrow> seg_ok s) \<Longrightarrow>
   seg_step (di_op di) di (map_of t (request_range di)) = Some s \<Longrightarrow> seg_ok s"
  by (auto simp: op_allowed_def seg_step_def seg_ok_def seg_of_grant_def seg_add_tokenval_def ummu_remove_tokenval_def
      UMMU_MAX_TOKEN_NUM_def Let_def split: grant_op.splits option.splits if_splits)

text \<open>The change of the grants is the change of the segments.\<close>

lemma next_grants_segs:
  assumes r: "request_ok di" "di_data_limit di = di_data_base di + di_data_size di - 1" and wf: "seg_wf t"
    and a: "op_allowed t di"
  shows "legal di (grants_of (map_of t)) \<and>
    next_grants di 0 (grants_of (map_of t)) =
      grants_of ((map_of t)(request_range di := seg_step (di_op di) di (map_of t (request_range di))))"
proof -
  let ?r = "request_range di" and ?m = "map_of t"
  note p = request_range_parts [OF r]
  let ?b = "unat (di_data_base di)" and ?l = "unat (di_data_limit di)"
  have mem: "(?b, ?l, g) \<in> grants_of m \<longleftrightarrow> (\<exists>s. m ?r = Some s \<and> g = attrs_of_seg s)" for g m
    using grants_of_mem [of ?r g m] p by simp
  have other: "(unat (rleft r'), unat (rright r')) = (?b, ?l) \<longleftrightarrow> r' = ?r" for r'
    using range_eqI [of r' ?r] p by auto
  show ?thesis
  proof (cases "?m ?r")
    case None
    with a have o: "di_op di = UMMU_GRANT" "\<nexists>r s. (r, s) \<in> set t \<and> overlaps r ?r" "4096 dvd ?b" "di_token_check di \<in> {0, 1}"
      by (auto simp: op_allowed_def split: grant_op.splits)
    have "apart b l ?b ?l" if "(b, l, g) \<in> grants_of ?m" for b l g
    proof -
      from that obtain r' s where "?m r' = Some s" "b = unat (rleft r')" "l = unat (rright r')" by (auto simp: grants_of_def)
      with o(2) not_overlaps_apart [of r' ?r] p map_of_SomeD show ?thesis by metis
    qed
    then have "grant_legal di (grants_of ?m)" using o p by (auto simp: grant_legal_def)
    moreover have "insert (?b, ?l, req_attr di) (grants_of ?m) = grants_of (?m(?r \<mapsto> seg_of_grant di))"
      using attrs_of_grant [OF o(4)] None p by (simp add: grants_of_upd fun_upd_idem)
    ultimately show ?thesis using o by (simp add: legal_def next_grants_def seg_step_def Let_def)
  next
    case (Some s)
    have g: "(?b, ?l, attrs_of_seg s) \<in> grants_of ?m" using Some mem by blast
    have un: "{(b', l', g) \<in> grants_of ?m. (b', l') \<noteq> (?b, ?l)} = grants_of (?m(?r := None))"
      using other by (auto simp: grants_of_def)
    have uniq: "g' = attrs_of_seg s" if "(?b, ?l, g') \<in> grants_of ?m" for g' using that mem Some by auto
    have ins: "insert (?b, ?l, attrs_of_seg s') (grants_of (?m(?r := None))) = grants_of (?m(?r \<mapsto> s'))" for s'
      using p by (simp add: grants_of_upd)
    note rest = grants_rest(2) [OF g uniq, where f = "\<lambda>g. snd (token_attr di g)", unfolded un]
    from a Some consider "di_op di = UMMU_UNGRANT" | "di_op di = UMMU_ADD_TOKEN" "si_token_check s = 1" "si_token_count s = 1"
      | "di_op di = UMMU_REMOVE_TOKEN" "si_token_check s = 1" "di_tokenval di \<in> {si_token_val_0 s, si_token_val_1 s}"
      by (auto simp: op_allowed_def split: grant_op.splits)
    then show ?thesis
    proof cases
      case 1
      then show ?thesis using g un by (auto simp: legal_def next_grants_def seg_step_def Let_def)
    next
      case 2
      then have "ga_tokens (attrs_of_seg s) \<noteq> None" by (simp add: attrs_of_seg_def)
      then show ?thesis using 2 g rest ins token_attr_seg(1) [OF 2] Some
        by (auto simp: legal_def next_grants_def seg_step_def Let_def)
    next
      case 3
      then have "ga_tokens (attrs_of_seg s) \<noteq> None" by (simp add: attrs_of_seg_def)
      then show ?thesis using 3 g rest ins token_attr_seg(2) [OF 3] Some
        by (auto simp: legal_def next_grants_def seg_step_def Let_def)
    qed
  qed
qed

section \<open>An operation on a TID in table mode\<close>

text \<open>What the hardware finds at an address: in entry mode from the one entry node, in table mode from the
  tables.\<close>

definition entry_access :: "entry_node \<Rightarrow> nat \<Rightarrow> grant_attr option" where
  "entry_access n x = (if en_valid n \<noteq> 0 \<and> unat (en_base n) \<le> x \<and> x \<le> unat (en_limit n)
     then Some \<lparr>ga_perm = en_permission n, ga_ebit = en_e_bit n,
       ga_tokens = (if en_token_check n = 1 then Some (en_token_val_0 n, en_token_val_1 n, en_nonce n) else None)\<rparr> else None)"

definition access :: "mapt_info \<Rightarrow> nat \<Rightarrow> grant_attr option" where
  "access mi = (case mi_block_base mi of
     TableBase ctx \<Rightarrow> perm_at 4 (tree 4 (ctx_walk ctx) 0) | EntryBase a n \<Rightarrow> entry_access n | NoBase \<Rightarrow> (\<lambda>x. None))"

lemma table_okE:
  assumes "table_ok mi t"
  obtains ctx where "mi_mode mi = MAPT_MODE_TABLE" "seg_wf t" "\<forall>(r, s) \<in> set t. seg_ok s" "mi_block_base mi = TableBase ctx"
    "tc_granted_addr_mng ctx = Some t" "represents (ctx_walk ctx) (grants_of (map_of t))"
  using assms unfolding table_ok_def by blast

text \<open>What can be accessed is what the records say.\<close>

lemma table_ok_access:
  assumes "table_ok mi t"
  shows "access mi x = Some g \<longleftrightarrow>
    (\<exists>r s. map_of t r = Some s \<and> unat (rleft r) \<le> x \<and> x \<le> unat (rright r) \<and> g = attrs_of_seg s)"
proof -
  from assms obtain ctx where c: "mi_block_base mi = TableBase ctx" "represents (ctx_walk ctx) (grants_of (map_of t))"
    by (rule table_okE)
  have "access mi x = Some g \<longleftrightarrow> (\<exists>b l. (b, l, g) \<in> grants_of (map_of t) \<and> b \<le> x \<and> x \<le> l)"
    using represents_perm [OF c(2)] c(1) by (simp add: access_def)
  also have "\<dots> \<longleftrightarrow> (\<exists>r s. map_of t r = Some s \<and> unat (rleft r) \<le> x \<and> x \<le> unat (rright r) \<and> g = attrs_of_seg s)"
    unfolding grants_of_def by auto
  finally show ?thesis .
qed

lemma attrs_of_seg_tokens [simp]: "si_token_check s = 1 \<Longrightarrow>
  ga_tokens (attrs_of_seg s) = Some (si_token_val_0 s, si_token_val_1 s, ucast (si_token_count s))"
  by (simp add: attrs_of_seg_def)

lemma table_op_ret:
  assumes r: "request_ok di" "di_data_limit di = di_data_base di + di_data_size di - 1" and wf: "seg_wf t" and a: "op_allowed t di"
    and s: "represents s (grants_of (map_of t))" and E: "fresh_mem E"
  shows "\<exists>ret s'. ummu_table_op E tid fd di s = Some (ret, s') \<and> represents s' (next_grants di ret (grants_of (map_of t))) \<and>
    tc_granted_addr_mng (wk_ctx s') = tc_granted_addr_mng (wk_ctx s) \<and> (di_op di \<noteq> UMMU_GRANT \<longrightarrow> ret = 0) \<and> ret \<in> {0, - ERANGE, - ENOMEM}"
proof -
  have l: "legal di (grants_of (map_of t))" using next_grants_segs [OF r wf a] by simp
  note p = request_range_parts [OF r]
  show ?thesis
  proof (cases "di_op di = UMMU_GRANT")
    case True
    with l have "grant_legal di (grants_of (map_of t))" by (simp add: legal_def)
    from table_op_grant [OF s E True this, of tid fd] True show ?thesis by auto
  next
    case False
    with a obtain g where g: "map_of t (request_range di) = Some g" by (auto simp: op_allowed_def split: grant_op.splits option.splits)
    then have mem: "(unat (di_data_base di), unat (di_data_limit di), attrs_of_seg g) \<in> grants_of (map_of t)"
      using grants_of_mem [of "request_range di"] p by simp
    show ?thesis
    proof (cases "di_op di = UMMU_UNGRANT")
      case True
      from table_op_ungrant [OF s True mem, of E tid fd] show ?thesis by auto
    next
      case False
      with \<open>di_op di \<noteq> UMMU_GRANT\<close> a g have o: "di_op di \<in> {UMMU_ADD_TOKEN, UMMU_REMOVE_TOKEN}"
        "ga_tokens (attrs_of_seg g) \<noteq> None" "fst (token_attr di (attrs_of_seg g)) = 0"
        by (auto simp: op_allowed_def token_attr_seg split: grant_op.splits)
      from table_op_token [OF s o(1) mem o(2), of E tid fd] o(3) show ?thesis by auto
    qed
  qed
qed

lemma run_table_op_ok:
  assumes t: "table_ok mi t" and r: "request_ok di" "di_data_limit di = di_data_base di + di_data_size di - 1"
    and a: "op_allowed t di" and E: "fresh_mem E"
  obtains ret ctx lvl w' where "run_table_op E fd mi di w = Some (ret, mi\<lparr>mi_block_base := TableBase ctx\<rparr>, di\<lparr>di_lvl := lvl\<rparr>, w')"
    "tc_granted_addr_mng ctx = Some t" "represents (ctx_walk ctx) (next_grants di ret (grants_of (map_of t)))"
    "di_op di \<noteq> UMMU_GRANT \<Longrightarrow> ret = 0" "ret \<in> {0, - ERANGE, - ENOMEM}"
proof -
  from t obtain ctx where c: "seg_wf t" "mi_block_base mi = TableBase ctx" "tc_granted_addr_mng ctx = Some t"
    "represents (ctx_walk ctx) (grants_of (map_of t))" by (rule table_okE)
  let ?s = "\<lparr>wk_root = zero_table_node, wk_ctx = ctx, wk_world = w, wk_lvl = di_lvl di\<rparr>"
  have "same_tables (ctx_walk ctx) ?s" by (simp add: same_tables_def ctx_walk_def)
  with c(4) have "represents ?s (grants_of (map_of t))" using represents_same by blast
  from table_op_ret [OF r c(1) a this E, of "mi_tid mi" fd] obtain ret s' where
    s': "ummu_table_op E (mi_tid mi) fd di ?s = Some (ret, s')" "represents s' (next_grants di ret (grants_of (map_of t)))"
      "tc_granted_addr_mng (wk_ctx s') = tc_granted_addr_mng ctx" "di_op di \<noteq> UMMU_GRANT \<longrightarrow> ret = 0" "ret \<in> {0, - ERANGE, - ENOMEM}" by auto
  have "same_tables s' (ctx_walk (wk_ctx s'))" by (simp add: same_tables_def ctx_walk_def)
  with s'(2) have "represents (ctx_walk (wk_ctx s')) (next_grants di ret (grants_of (map_of t)))" using represents_same by blast
  moreover have "run_table_op E fd mi di w = Some (ret, mi\<lparr>mi_block_base := TableBase (wk_ctx s')\<rparr>, di\<lparr>di_lvl := wk_lvl s'\<rparr>, wk_world s')"
    using c(2) s'(1) by (simp add: run_table_op_def)
  ultimately show thesis using that s'(3-5) c(3) by metis
qed

text \<open>Recording the operation.\<close>

lemma update_info_ok:
  assumes wf: "seg_wf t" "\<forall>(r, s) \<in> set t. seg_ok s" and m: "mi_mode mi = MAPT_MODE_TABLE" "mi_block_base mi = TableBase ctx"
    "tc_granted_addr_mng ctx = Some t" and r: "request_ok di" and a: "op_allowed t di" and mem: "di_op di = UMMU_GRANT \<Longrightarrow> os_malloc E (clock w)"
    and rep: "represents (ctx_walk ctx) (grants_of ((map_of t)(request_range di := seg_step (di_op di) di (map_of t (request_range di)))))"
  obtains t' w' where "ummu_update_info E (di_op di) mi di w = Some (0, set_segs mi ctx t', w')" "table_ok (set_segs mi ctx t') t'"
    "map_of t' = (map_of t)(request_range di := seg_step (di_op di) di (map_of t (request_range di)))"
proof -
  let ?r = "request_range di" and ?v = "seg_step (di_op di) di (map_of t (request_range di))"
  obtain t' w' where u: "ummu_update_info E (di_op di) mi di w = Some (0, set_segs mi ctx t', w')" "seg_wf t'"
    "map_of t' = (map_of t)(?r := ?v)"
  proof (cases "map_of t ?r")
    case None
    with a have o: "di_op di = UMMU_GRANT" "\<nexists>r s. (r, s) \<in> set t \<and> overlaps r ?r"
      by (auto simp: op_allowed_def split: grant_op.splits)
    from insert_new_addr_free [OF wf(1) r o(2) mem [OF o(1)]] obtain t' where
      "ummu_insert_new_addr E t di w = ((0, t'), tick w)" "seg_wf t'" "map_of t' = (map_of t)(?r \<mapsto> seg_of_grant di)" .
    with o m show thesis by (intro that [of t' "tick w"]) (simp_all add: ummu_update_info_def seg_step_def)
  next
    case (Some s)
    with a consider "di_op di = UMMU_UNGRANT" | "di_op di \<in> {UMMU_ADD_TOKEN, UMMU_REMOVE_TOKEN}"
      by (auto simp: op_allowed_def split: grant_op.splits)
    then show thesis
    proof cases
      case 1
      from delete_addr_granted [OF wf(1) r Some] obtain t' where
        "ummu_delete_addr t di = (0, t', [clear_seg_info s])" "seg_wf t'" "map_of t' = (map_of t)(?r := None)" .
      with 1 m show thesis by (intro that [of t' w]) (simp_all add: ummu_update_info_def seg_step_def)
    next
      case 2
      from token_update_granted [OF wf(1) r Some, of "di_op di"] obtain t' where
        "ummu_token_update t di (di_op di) = (0, t')" "seg_wf t'"
        "map_of t' = (map_of t)(?r \<mapsto> (if di_op di = UMMU_REMOVE_TOKEN then ummu_remove_tokenval (di_tokenval di) s
           else seg_add_tokenval (di_tokenval di) s))" .
      with 2 m Some show thesis by (intro that [of t' w]) (auto simp: ummu_update_info_def seg_step_def)
    qed
  qed
  have "seg_ok s" if "(k, s) \<in> set t'" for k s
  proof -
    have "map_of t' k = Some s" using that map_of_seg [OF u(2)] by simp
    moreover have "seg_ok s'" if "map_of t k' = Some s'" for k' s' using wf(2) map_of_SomeD [OF that] by auto
    ultimately show ?thesis using seg_step_ok [OF a] u(3) by (auto split: if_splits)
  qed
  moreover have "same_tables (ctx_walk ctx) (ctx_walk (ctx\<lparr>tc_granted_addr_mng := Some t'\<rparr>))"
    by (simp add: same_tables_def ctx_walk_def)
  then have "represents (ctx_walk (ctx\<lparr>tc_granted_addr_mng := Some t'\<rparr>)) (grants_of (map_of t'))"
    using rep represents_same u(3) by simp
  ultimately have "table_ok (set_segs mi ctx t') t'" using m u(2) by (auto simp: table_ok_def set_segs_def)
  with u that show thesis by blast
qed

text \<open>
  The one record that can get lost: the permission of a new segment is in the table, and there is no memory
  for its record.  Then the records are still \<open>t\<close>, while the table is the one of the records \<open>t'\<close>.
\<close>

definition unrecorded :: "mapt_info \<Rightarrow> seg_info range_table \<Rightarrow> seg_info range_table \<Rightarrow> bool" where
  "unrecorded mi t t' \<longleftrightarrow> (\<exists>ctx. mi_block_base mi = TableBase ctx \<and> tc_granted_addr_mng ctx = Some t \<and> seg_wf t \<and>
     table_ok (set_segs mi ctx t') t')"

lemma update_info_lost:
  assumes wf: "seg_wf t" "\<forall>(r, s) \<in> set t. seg_ok s" and m: "mi_mode mi = MAPT_MODE_TABLE" "mi_block_base mi = TableBase ctx"
    "tc_granted_addr_mng ctx = Some t" and r: "request_ok di" and a: "op_allowed t di" "di_op di = UMMU_GRANT" and mem: "\<not> os_malloc E (clock w)"
    and rep: "represents (ctx_walk ctx) (grants_of ((map_of t)(request_range di := seg_step (di_op di) di (map_of t (request_range di)))))"
  obtains t' where "ummu_update_info E (di_op di) mi di w = Some (- ENOMEM, mi, tick w)" "unrecorded mi t t'"
    "map_of t' = (map_of t)(request_range di := seg_step (di_op di) di (map_of t (request_range di)))"
proof -
  let ?E = "E\<lparr>os_malloc := \<lambda>_. True\<rparr>"
  obtain t' w' where t': "table_ok (set_segs mi ctx t') t'"
    "map_of t' = (map_of t)(request_range di := seg_step (di_op di) di (map_of t (request_range di)))"
    by (rule update_info_ok [OF wf m r a(1) _ rep, of ?E w]) simp_all
  have "ctx\<lparr>tc_granted_addr_mng := Some t\<rparr> = ctx" "mi\<lparr>mi_block_base := TableBase ctx\<rparr> = mi" using m(2,3) by simp_all
  then have "ummu_update_info E (di_op di) mi di w = Some (- ENOMEM, mi, tick w)"
    using m a(2) mem by (simp add: ummu_update_info_def ummu_insert_new_addr_def c_malloc_def set_segs_def)
  with t' m(2,3) wf(1) show thesis by (intro that) (auto simp: unrecorded_def)
qed

lemma unrecordedE:
  assumes "unrecorded mi t t'"
  obtains ctx where "mi_block_base mi = TableBase ctx" "tc_granted_addr_mng ctx = Some t" "seg_wf t" "table_ok (set_segs mi ctx t') t'"
    "mi_mode mi = MAPT_MODE_TABLE"
proof -
  from assms obtain ctx where c: "mi_block_base mi = TableBase ctx" "tc_granted_addr_mng ctx = Some t" "seg_wf t" "table_ok (set_segs mi ctx t') t'"
    unfolding unrecorded_def by blast
  have "mi_mode mi = MAPT_MODE_TABLE" using c(4) by (simp add: table_ok_def set_segs_def)
  with c show thesis by (rule that)
qed

lemma access_set_segs: "mi_block_base mi = TableBase ctx \<Longrightarrow> access (set_segs mi ctx t) = access mi"
proof -
  assume b: "mi_block_base mi = TableBase ctx"
  have "same_tables (ctx_walk (ctx\<lparr>tc_granted_addr_mng := Some t\<rparr>)) (ctx_walk ctx)" by (simp add: same_tables_def ctx_walk_def)
  then show ?thesis using b same_tables_view(4) [of _ _ 4 0] by (simp add: access_def set_segs_def)
qed

lemma queue_frame_fields:
  assumes "queue_frame mi mi'"
  shows "mi_block_base mi' = mi_block_base mi" "mi_mode mi' = mi_mode mi" "mi_valid mi' = mi_valid mi"
    "table_ok mi' t = table_ok mi t" "access mi' = access mi"
  using assms by (auto simp: queue_frame_def table_ok_def access_def)

lemma plbi_va_cmd_ready:
  assumes "queues_ready E mi"
  obtains mi' w' where "ummu_plbi_va_cmd E fd mi di w = Some (mi', w')" "queues_ready E mi'" "queue_frame mi mi'"
proof -
  have "plbi_ready E mi" using assms by (simp add: queues_ready_def)
  from plbi_va_cmd_ok [OF this] queues_ready_frame [OF _ assms] that show thesis by blast
qed

text \<open>The record after an operation; \<open>t'\<close> is the new record.\<close>

definition recorded :: "seg_info range_table \<Rightarrow> data_info \<Rightarrow> int \<Rightarrow> seg_info range_table \<Rightarrow> bool" where
  "recorded t di ret t' \<longleftrightarrow> map_of t' = (if ret = 0
     then (map_of t)(request_range di := seg_step (di_op di) di (map_of t (request_range di))) else map_of t)"

text \<open>
  The table operation and, if it succeeds, the change of the record.  \<open>recording\<close> is the change of the
  record: it succeeds, unless there is no memory for the record of a new segment.
\<close>

definition recording :: "os_env \<Rightarrow> seg_info range_table \<Rightarrow> data_info \<Rightarrow> mapt_info \<Rightarrow> data_info \<Rightarrow> world \<Rightarrow> bool" where
  "recording E t di mi1 di1 w1 \<longleftrightarrow> (\<exists>ret mi2 w2 t' x. ummu_update_info E (di_op di) mi1 di1 w1 = Some (ret, mi2, w2) \<and>
     recorded t di 0 t' \<and> mi2 = mi1\<lparr>mi_block_base := x\<rparr> \<and>
     (if di_op di = UMMU_GRANT \<and> \<not> os_malloc E (clock w1) then ret = - ENOMEM \<and> unrecorded mi2 t t'
      else ret = 0 \<and> table_ok mi2 t'))"

lemma table_op_recorded:
  assumes t: "table_ok mi t" and r: "request_ok di" "di_data_limit di = di_data_base di + di_data_size di - 1"
    and a: "op_allowed t di" and E: "fresh_mem E"
  obtains (ok) ctx lvl w' where "run_table_op E fd mi di w = Some (0, mi\<lparr>mi_block_base := TableBase ctx\<rparr>, di\<lparr>di_lvl := lvl\<rparr>, w')"
    "\<And>mi1 di1 w1. queue_frame (mi\<lparr>mi_block_base := TableBase ctx\<rparr>) mi1 \<Longrightarrow> \<exists>l. di1 = di\<lparr>di_lvl := l\<rparr> \<Longrightarrow> recording E t di mi1 di1 w1"
  | (fail) ret ctx lvl w' where "run_table_op E fd mi di w = Some (ret, mi\<lparr>mi_block_base := TableBase ctx\<rparr>, di\<lparr>di_lvl := lvl\<rparr>, w')"
    "ret \<in> {- ERANGE, - ENOMEM}" "ret \<noteq> 0" "di_op di = UMMU_GRANT" "table_ok (mi\<lparr>mi_block_base := TableBase ctx\<rparr>) t"
proof -
  from t have wf: "seg_wf t" "\<forall>(r, s) \<in> set t. seg_ok s" "mi_mode mi = MAPT_MODE_TABLE" by (auto elim: table_okE)
  from run_table_op_ok [OF t r a E, of fd w] obtain ret ctx lvl w' where
    x: "run_table_op E fd mi di w = Some (ret, mi\<lparr>mi_block_base := TableBase ctx\<rparr>, di\<lparr>di_lvl := lvl\<rparr>, w')"
      "tc_granted_addr_mng ctx = Some t" "represents (ctx_walk ctx) (next_grants di ret (grants_of (map_of t)))"
      "di_op di \<noteq> UMMU_GRANT \<Longrightarrow> ret = 0" "ret \<in> {0, - ERANGE, - ENOMEM}" by blast
  show thesis
  proof (cases "ret = 0")
    case False
    then have "next_grants di ret (grants_of (map_of t)) = grants_of (map_of t)" by (simp add: next_grants_def Let_def)
    then have "table_ok (mi\<lparr>mi_block_base := TableBase ctx\<rparr>) t" using x(2,3) wf by (simp add: table_ok_def)
    moreover have "ret \<in> {- ERANGE, - ENOMEM}" "di_op di = UMMU_GRANT" using False x(4,5) by blast+
    ultimately show thesis using fail [OF x(1)] False by blast
  next
    case True
    have upd: "recording E t di mi1 di1 w1"
      if f: "queue_frame (mi\<lparr>mi_block_base := TableBase ctx\<rparr>) mi1" and d: "\<exists>l. di1 = di\<lparr>di_lvl := l\<rparr>" for mi1 di1 w1
    proof -
      from d obtain l where l: "di1 = di\<lparr>di_lvl := l\<rparr>" by blast
      have e: "request_ok di1 = request_ok di" "request_range di1 = request_range di" "op_allowed t di1 = op_allowed t di"
        "di_op di1 = di_op di" "seg_step opt di1 = seg_step opt di" for opt
        by (auto simp: l request_ok_def request_range_def op_allowed_def seg_step_def seg_of_grant_def Let_def fun_eq_iff
            split: grant_op.splits option.splits)
      have m1: "mi_mode mi1 = MAPT_MODE_TABLE" "mi_block_base mi1 = TableBase ctx" using queue_frame_fields [OF f] wf(3) by simp_all
      have rep: "represents (ctx_walk ctx) (grants_of ((map_of t)(request_range di1 := seg_step (di_op di1) di1 (map_of t (request_range di1)))))"
        using x(3) True next_grants_segs [OF r wf(1) a] e by simp
      have req: "request_ok di1" "op_allowed t di1" using r(1) a e by simp_all
      show ?thesis
      proof (cases "di_op di = UMMU_GRANT \<and> \<not> os_malloc E (clock w1)")
        case lost: True
        obtain t' where "ummu_update_info E (di_op di1) mi1 di1 w1 = Some (- ENOMEM, mi1, tick w1)" "unrecorded mi1 t t'"
          "map_of t' = (map_of t)(request_range di1 := seg_step (di_op di1) di1 (map_of t (request_range di1)))"
          by (rule update_info_lost [OF wf(1,2) m1 x(2) req _ _ rep, of E w1]) (use lost e in auto)
        moreover have "\<exists>x. mi1 = mi1\<lparr>mi_block_base := x\<rparr>" by (rule exI [of _ "mi_block_base mi1"]) simp
        ultimately show ?thesis using lost e by (auto simp: recording_def recorded_def)
      next
        case kept: False
        obtain t' w2 where "ummu_update_info E (di_op di1) mi1 di1 w1 = Some (0, set_segs mi1 ctx t', w2)" "table_ok (set_segs mi1 ctx t') t'"
          "map_of t' = (map_of t)(request_range di1 := seg_step (di_op di1) di1 (map_of t (request_range di1)))"
          by (rule update_info_ok [OF wf(1,2) m1 x(2) req _ rep, of E w1]) (use kept e in auto)
        moreover have "set_segs mi1 ctx t' = mi1\<lparr>mi_block_base := TableBase (ctx\<lparr>tc_granted_addr_mng := Some t'\<rparr>)\<rparr>" by (simp add: set_segs_def)
        ultimately show ?thesis using kept e unfolding recording_def by (auto simp: recorded_def)
      qed
    qed
    with True x(1) ok show thesis by blast
  qed
qed

text \<open>Whether this grant loses the record of its segment: its memory is the first thing asked for after
  the permission is in the table.\<close>

definition record_fails :: "os_env \<Rightarrow> int \<Rightarrow> mapt_info \<Rightarrow> data_info \<Rightarrow> world \<Rightarrow> bool" where
  "record_fails E fd mi di w \<longleftrightarrow> di_op di = UMMU_GRANT \<and>
     (case ummu_grant_imp E fd mi di w of Some (ret, _, w1) \<Rightarrow> ret = 0 \<and> \<not> os_malloc E (clock w1) | None \<Rightarrow> False)"

lemma grant_core:
  assumes t: "table_ok mi t" and q: "queues_ready E mi" and r: "request_ok di" "di_data_limit di = di_data_base di + di_data_size di - 1"
    and a: "op_allowed t di" and E: "fresh_mem E"
  obtains ret mi2 w2 t' where "do { (ret1, mi1, w1) \<leftarrow> ummu_grant_imp E fd mi di w;
      if ret1 = 0 then ummu_update_info E (di_op di) mi1 di w1 else Some (ret1, mi1, w1) } = Some (ret, mi2, w2)"
    "queues_ready E mi2" "mi_valid mi2 = mi_valid mi" "ret \<in> {0, - ERANGE, - ENOMEM}"
    "if record_fails E fd mi di w then ret = - ENOMEM \<and> unrecorded mi2 t t' \<and> recorded t di 0 t' else table_ok mi2 t' \<and> recorded t di ret t'"
proof -
  have mode: "mi_mode mi = MAPT_MODE_TABLE" using t by (auto elim: table_okE)
  have ne: "MAPT_MODE_TABLE \<noteq> MAPT_MODE_ENTRY" by (simp add: ummu_consts)
  show thesis
  proof (rule table_op_recorded [OF t r a E, of fd w])
    fix ctx lvl w'
    let ?mi = "mi\<lparr>mi_block_base := TableBase ctx\<rparr>"
    assume x: "run_table_op E fd mi di w = Some (0, ?mi, di\<lparr>di_lvl := lvl\<rparr>, w')"
      and upd: "\<And>mi1 di1 w1. queue_frame ?mi mi1 \<Longrightarrow> \<exists>l. di1 = di\<lparr>di_lvl := l\<rparr> \<Longrightarrow> recording E t di mi1 di1 w1"
    obtain mi1 w1 where imp: "ummu_grant_imp E fd mi di w = Some (0, mi1, w1)" "queue_frame ?mi mi1" "queues_ready E mi1"
    proof (cases "di_op di = UMMU_ADD_TOKEN")
      case True
      have "queues_ready E ?mi" using q by simp
      then obtain mi1 w1 where "ummu_plbi_va_cmd E fd ?mi (di\<lparr>di_lvl := lvl\<rparr>) w' = Some (mi1, w1)" "queues_ready E mi1" "queue_frame ?mi mi1"
        by (rule plbi_va_cmd_ready)
      with True x mode ne show thesis by (intro that [of mi1 w1]) (simp_all add: ummu_grant_imp_def)
    next
      case False
      with x mode ne q show thesis by (intro that [of ?mi w']) (simp_all add: ummu_grant_imp_def)
    qed
    have "\<exists>l. di = di\<lparr>di_lvl := l\<rparr>" by (rule exI [of _ "di_lvl di"]) simp
    from upd [OF imp(2) this, of w1, unfolded recording_def] obtain ret mi2 w2 t' x where
      u: "ummu_update_info E (di_op di) mi1 di w1 = Some (ret, mi2, w2)" "recorded t di 0 t'" "mi2 = mi1\<lparr>mi_block_base := x\<rparr>"
        "if di_op di = UMMU_GRANT \<and> \<not> os_malloc E (clock w1) then ret = - ENOMEM \<and> unrecorded mi2 t t' else ret = 0 \<and> table_ok mi2 t'" by blast
    have "mi_valid mi2 = mi_valid mi" "queues_ready E mi2" using queue_frame_fields(3) [OF imp(2)] u(3) imp(3) by simp_all
    moreover have "record_fails E fd mi di w \<longleftrightarrow> di_op di = UMMU_GRANT \<and> \<not> os_malloc E (clock w1)" using imp(1) by (simp add: record_fails_def)
    ultimately show thesis using imp(1) u by (intro that [of ret mi2 w2 t']) (auto split: if_splits)
  next
    fix ret ctx lvl w'
    let ?mi = "mi\<lparr>mi_block_base := TableBase ctx\<rparr>"
    assume x: "run_table_op E fd mi di w = Some (ret, ?mi, di\<lparr>di_lvl := lvl\<rparr>, w')"
      "ret \<in> {- ERANGE, - ENOMEM}" "ret \<noteq> 0" "di_op di = UMMU_GRANT" "table_ok ?mi t"
    have "queues_ready E ?mi" using q by simp
    then obtain mi1 w1 where p: "ummu_plbi_va_cmd E fd ?mi (di\<lparr>di_lvl := lvl\<rparr>) w' = Some (mi1, w1)" "queues_ready E mi1" "queue_frame ?mi mi1"
      by (rule plbi_va_cmd_ready)
    then have "ummu_grant_imp E fd mi di w = Some (ret, mi1, w1)" using x mode ne by (simp add: ummu_grant_imp_def)
    moreover from this have "\<not> record_fails E fd mi di w" using x(3) by (simp add: record_fails_def)
    ultimately show thesis using p queue_frame_fields [OF p(3)] x by (intro that [of ret mi1 w1 t]) (simp_all add: recorded_def)
  qed
qed

lemma ungrant_core:
  assumes t: "table_ok mi t" and q: "queues_ready E mi" and r: "request_ok di" "di_data_limit di = di_data_base di + di_data_size di - 1"
    and a: "op_allowed t di" "di_op di \<noteq> UMMU_GRANT" and E: "fresh_mem E"
  obtains mi2 w2 t' where "do { (ret1, mi1, di2, w1) \<leftarrow> ummu_ungrant_imp E fd mi di w;
      (ret2, mi2, w2) \<leftarrow> (if ret1 = 0 then ummu_update_info E (di_op di) mi1 di2 w1 else Some (ret1, mi1, w1));
      (mi3, w3) \<leftarrow> ummu_plbi_va_cmd E fd mi2 (plbi_range di2) w2;
      Some (ret2, mi3, w3) } = Some (0, mi2, w2)"
    "table_ok mi2 t'" "recorded t di 0 t'" "queues_ready E mi2" "mi_valid mi2 = mi_valid mi"
proof -
  have mode: "mi_mode mi = MAPT_MODE_TABLE" using t by (auto elim: table_okE)
  have ne: "MAPT_MODE_TABLE \<noteq> MAPT_MODE_ENTRY" by (simp add: ummu_consts)
  show thesis
  proof (rule table_op_recorded [OF t r a(1) E, of fd w])
    fix ctx lvl w'
    let ?mi = "mi\<lparr>mi_block_base := TableBase ctx\<rparr>" and ?di = "di\<lparr>di_lvl := lvl\<rparr>"
    assume x: "run_table_op E fd mi di w = Some (0, ?mi, ?di, w')"
      and upd: "\<And>mi1 di1 w1. queue_frame ?mi mi1 \<Longrightarrow> \<exists>l. di1 = di\<lparr>di_lvl := l\<rparr> \<Longrightarrow> recording E t di mi1 di1 w1"
    have "\<exists>l. ?di = di\<lparr>di_lvl := l\<rparr>" by blast
    from upd [OF queue_frame_refl this, of w'] a(2) obtain mi2 w2 t' y where
      u: "ummu_update_info E (di_op di) ?mi ?di w' = Some (0, mi2, w2)" "table_ok mi2 t'" "recorded t di 0 t'" "mi2 = ?mi\<lparr>mi_block_base := y\<rparr>"
      unfolding recording_def by auto
    have "queues_ready E mi2" using q by (simp add: u(4))
    then obtain mi3 w3 where p: "ummu_plbi_va_cmd E fd mi2 (plbi_range ?di) w2 = Some (mi3, w3)" "queues_ready E mi3" "queue_frame mi2 mi3"
      by (rule plbi_va_cmd_ready)
    have "ummu_ungrant_imp E fd mi di w = Some (0, ?mi, ?di, w')" using x mode ne by (simp add: ummu_ungrant_imp_def)
    with u p queue_frame_fields [OF p(3)] that [of mi3 w3 t'] show thesis by simp
  qed (use a(2) in simp)
qed

end
