(* ===== verification/Ummu_Requests.thy ===== *)
theory Ummu_Requests
  imports Ummu_Records
begin

text \<open>
  \<^verbatim>\<open>ummu_grant\<close> and \<^verbatim>\<open>ummu_ungrant_data\<close> of \<^verbatim>\<open>src/ummu_mapt.c\<close> for a TID in table mode, from the
  caller's arguments to the new state: when they refuse (\<open>grant_possible\<close>, \<open>ungrant_possible\<close>) and
  what they change in the records (\<open>grant_step\<close>, \<open>ungrant_step\<close>).  \<open>ctx_upd\<close> says that only the control
  structure of one TID changes.
\<close>

section \<open>Granting in table mode\<close>

text \<open>Only the control structure of one TID changes.\<close>

definition ctx_upd :: "ummu_ctx_info \<Rightarrow> u32 \<Rightarrow> mapt_info \<Rightarrow> ummu_ctx_info \<Rightarrow> bool" where
  "ctx_upd ctx tid mi ctx' \<longleftrightarrow> cx_shared_fd ctx' = cx_shared_fd ctx \<and>
     (map_wf (cx_mapt_map ctx) \<longrightarrow> map_wf (cx_mapt_map ctx')) \<and>
     ummu_map_get (cx_mapt_map ctx') = (ummu_map_get (cx_mapt_map ctx))(tid \<mapsto> mi)"

lemma ctx_upd_refl: "get_mapt_info_by_tid ctx tid = Some mi \<Longrightarrow> ctx_upd ctx tid mi ctx"
  by (auto simp: ctx_upd_def fun_upd_idem dest: get_mapt_info_SomeD)

lemma ctx_upd_put: "get_mapt_info_by_tid ctx tid = Some mi \<Longrightarrow> ctx_upd ctx tid mi' (put_mapt ctx tid mi')"
  by (auto simp: ctx_upd_def put_mapt_def map_put_get map_put_wf fun_eq_iff dest: get_mapt_info_SomeD)

lemma ctx_upd_get:
  assumes "ctx_upd ctx tid mi ctx'"
  shows "t \<noteq> tid \<Longrightarrow> get_mapt_info_by_tid ctx' t = get_mapt_info_by_tid ctx t"
    "mi_valid mi \<noteq> 0 \<Longrightarrow> mi_mode mi = MAPT_MODE_TABLE \<Longrightarrow> get_mapt_info_by_tid ctx' tid = Some mi"
  using assms by (simp_all add: ctx_upd_def get_mapt_info_by_tid_def check_mode_ok)

definition segment :: "u64 \<Rightarrow> u64 \<Rightarrow> u32 \<Rightarrow> u32 \<Rightarrow> token_info option \<Rightarrow> seg_info" where
  "segment data sz perm ebit tok = \<lparr>si_start_addr = data, si_grant_size = sz, si_permission = perm, si_e_bit = ebit,
     si_token_check = (if tok = None then 0 else 1), si_token_count = (if tok = None then 0 else 1),
     si_token_val_0 = (case tok of None \<Rightarrow> 0 | Some tk \<Rightarrow> ti_tokenVal tk),
     si_token_val_1 = (case tok of None \<Rightarrow> 0 | Some tk \<Rightarrow> ti_tokenVal tk)\<rparr>"

lemma preproc_fields:
  assumes "ummu_perm_data_preproc E d w = ((0, d1), w1)"
  shows "di_data_base d1 = di_data d" "di_data_limit d1 = di_data d + di_data_size d - 1" "di_data_size d1 = di_data_size d"
    "di_token_check d1 = (if di_token d1 = None then 0 else 1)"
    "seg_of_grant (d1\<lparr>di_op := opt\<rparr>) = segment (di_data d) (di_data_size d) (di_perm d) (di_e_bit d) (di_token d1)"
    "di_perm d1 = di_perm d" "di_e_bit d1 = di_e_bit d" "di_token d1 = Some tk \<Longrightarrow> di_tokenval d1 = ti_tokenVal tk"
proof -
  have "di_data_base d1 = di_data d \<and> di_data_limit d1 = di_data d + di_data_size d - 1 \<and> di_data_size d1 = di_data_size d \<and>
    di_perm d1 = di_perm d \<and> di_e_bit d1 = di_e_bit d \<and>
    (di_token d1 = None \<and> di_token_check d1 = 0 \<or> di_token_check d1 = 1 \<and> (\<exists>tk. di_token d1 = Some tk \<and> di_tokenval d1 = ti_tokenVal tk))"
  proof (cases "di_token d")
    case None
    with assms show ?thesis by (auto simp: ummu_perm_data_preproc_def)
  next
    case (Some tok)
    obtain ret tok' v w2 where g: "ummu_get_token E tok (di_tokenval d) w = ((ret, tok', v), w2)" by (metis prod_cases3 prod.exhaust)
    then have "ret = 0 \<Longrightarrow> v = ti_tokenVal tok'"
      by (auto simp: ummu_get_token_def errno_defs Let_def split: if_splits prod.splits)
    with Some g assms show ?thesis by (auto simp: ummu_perm_data_preproc_def Let_def split: if_splits)
  qed
  then show "di_data_base d1 = di_data d" "di_data_limit d1 = di_data d + di_data_size d - 1" "di_data_size d1 = di_data_size d"
    "di_token_check d1 = (if di_token d1 = None then 0 else 1)"
    "seg_of_grant (d1\<lparr>di_op := opt\<rparr>) = segment (di_data d) (di_data_size d) (di_perm d) (di_e_bit d) (di_token d1)"
    "di_perm d1 = di_perm d" "di_e_bit d1 = di_e_bit d" "di_token d1 = Some tk \<Longrightarrow> di_tokenval d1 = ti_tokenVal tk"
    by (auto simp: seg_of_grant_def segment_def Let_def)
qed

text \<open>
  When a grant is possible, and what it changes in the records \<open>m\<close>: a new segment, or a second token
  for the segment that is there.
\<close>

definition grant_possible :: "(range \<Rightarrow> seg_info option) \<Rightarrow> range \<Rightarrow> seg_info \<Rightarrow> token_info option \<Rightarrow> bool" where
  "grant_possible m r new tok \<longleftrightarrow>
     (case m r of
        None \<Rightarrow> \<nexists>q s. m q = Some s \<and> overlaps q r
      | Some s \<Rightarrow> tok \<noteq> None \<and> si_token_check s = 1 \<and> si_token_count s = 1 \<and>
          si_permission s = si_permission new \<and> si_e_bit s = si_e_bit new)"

definition grant_step :: "(range \<Rightarrow> seg_info option) \<Rightarrow> range \<Rightarrow> seg_info \<Rightarrow> token_info option \<Rightarrow> range \<Rightarrow> seg_info option" where
  "grant_step m r new tok = m(r \<mapsto>
     (case (m r, tok) of (Some s, Some tk) \<Rightarrow> seg_add_tokenval (ti_tokenVal tk) s | _ \<Rightarrow> new))"

lemma seg_wf_mem: "seg_wf t \<Longrightarrow> (\<exists>(q, s) \<in> set t. P q s) \<longleftrightarrow> (\<exists>q s. map_of t q = Some s \<and> P q s)"
  using map_of_seg by fastforce

text \<open>
  The course of \<^verbatim>\<open>ummu_grant\<close>, the same in both modes: the request is checked, the token fetched, and
  what is then requested is compared with the records and carried out.
\<close>

definition grant_apply :: "os_env \<Rightarrow> int \<Rightarrow> mapt_info \<Rightarrow> data_info \<Rightarrow> world \<Rightarrow> (int \<times> mapt_info \<times> world) option" where
  "grant_apply E fd mi di w = do {
     (ret1, mi1, w1) \<leftarrow> ummu_grant_imp E fd mi di w;
     if ret1 = 0 then ummu_update_info E (di_op di) mi1 di w1 else Some (ret1, mi1, w1) }"

lemma grant_run:
  assumes g: "get_mapt_info_by_tid ctx tid = Some mi"
    and d: "d = junk\<lparr>di_data := data, di_data_size := sz, di_perm := perm, di_token := sa_token attr, di_e_bit := sa_e_bit attr\<rparr>"
  obtains (check) "ummu_check_data d (mi_mode mi) \<noteq> 0"
      "ummu_grant E junk (Some ctx) tid data sz perm (Some attr) w = Some (- EINVAL, Some ctx, Some (attr\<lparr>sa_token := sa_token attr\<rparr>), w)"
  | (token) ret d1 w1 where "ummu_check_data d (mi_mode mi) = 0" "ummu_perm_data_preproc E d w = ((ret, d1), w1)" "ret \<noteq> 0"
      "ummu_grant E junk (Some ctx) tid data sz perm (Some attr) w = Some (- EINVAL, Some ctx, Some (attr\<lparr>sa_token := di_token d1\<rparr>), w1)"
  | (request) d1 w1 where "ummu_check_data d (mi_mode mi) = 0" "ummu_perm_data_preproc E d w = ((0, d1), w1)"
      "\<And>opt. ummu_grant_check mi d1 = Some opt \<Longrightarrow>
        ummu_grant E junk (Some ctx) tid data sz perm (Some attr) w =
          (if opt = UMMU_OP_END then Some (- EINVAL, Some ctx, Some (attr\<lparr>sa_token := di_token d1\<rparr>), w1)
           else do {
             (ret, mi', w') \<leftarrow> grant_apply E (cx_shared_fd ctx) mi (d1\<lparr>di_op := opt\<rparr>) w1;
             Some (ret, Some (put_mapt ctx tid mi'), Some (attr\<lparr>sa_token := di_token d1\<rparr>), w') })"
proof (cases "ummu_check_data d (mi_mode mi) = 0")
  case False
  then show thesis using g by (intro check) (simp_all add: ummu_grant_def d Let_def)
next
  case chk: True
  obtain ret d1 w1 where p: "ummu_perm_data_preproc E d w = ((ret, d1), w1)" by (metis prod.exhaust)
  show thesis
  proof (cases "ret = 0")
    case False
    with chk p g show thesis by (intro token [OF chk p False]) (simp add: ummu_grant_def d [symmetric] Let_def)
  next
    case True
    show thesis
      by (rule request [OF chk p [unfolded True]], unfold ummu_grant_def grant_apply_def)
        (use g chk p True in \<open>auto simp: d [symmetric] Let_def intro!: Option.bind_cong split: Option.bind_splits prod.splits\<close>)
  qed
qed

text \<open>The operation chosen in table mode.\<close>

lemma grant_choice:
  assumes t: "table_ok mi t" and p: "ummu_perm_data_preproc E d w = ((0, d1), w1)" and ok: "request_ok d1" "4096 dvd unat (di_data d)"
  defines "r \<equiv> request_range d1"
  defines "new \<equiv> segment (di_data d) (di_data_size d) (di_perm d) (di_e_bit d) (di_token d1)"
  obtains opt where "ummu_grant_check mi d1 = Some opt" "opt \<noteq> UMMU_OP_END \<longleftrightarrow> grant_possible (map_of t) r new (di_token d1)"
    "opt \<noteq> UMMU_OP_END \<Longrightarrow> op_allowed t (d1\<lparr>di_op := opt\<rparr>)"
    "\<And>t' ret. opt \<noteq> UMMU_OP_END \<Longrightarrow> recorded t (d1\<lparr>di_op := opt\<rparr>) ret t' \<Longrightarrow>
       map_of t' = (if ret = 0 then grant_step (map_of t) r new (di_token d1) else map_of t)"
proof -
  note f = preproc_fields [OF p]
  have wf: "seg_wf t" using t by (rule table_okE)
  note chk = grant_check_table [OF table_segs_ok [OF t] ok(1), folded r_def]
  have rr: "request_range (d1\<lparr>di_op := opt\<rparr>) = r" for opt by (simp add: request_range_def r_def)
  obtain opt where opt: "ummu_grant_check mi d1 = Some opt" using chk by blast
  with chk have cls: "opt = (case map_of t r of Some s \<Rightarrow> ummu_table_param_check s d1
      | None \<Rightarrow> if \<exists>(r', s) \<in> set t. overlaps r' r then UMMU_OP_END else UMMU_GRANT)" by simp
  have pos: "opt \<noteq> UMMU_OP_END \<longleftrightarrow> grant_possible (map_of t) r new (di_token d1)"
    using seg_wf_mem [OF wf, of "\<lambda>q s. overlaps q r"] cls f(4,6,7)
    by (auto simp: new_def grant_possible_def ummu_table_param_check_def segment_def split: option.splits if_splits)
  have a: "op_allowed t (d1\<lparr>di_op := opt\<rparr>)" if "opt \<noteq> UMMU_OP_END"
    using cls that f ok(2) by (auto simp: op_allowed_def rr ummu_table_param_check_def split: option.splits if_splits)
  have "map_of t' = (if ret = 0 then grant_step (map_of t) r new (di_token d1) else map_of t)"
    if "opt \<noteq> UMMU_OP_END" and rec: "recorded t (d1\<lparr>di_op := opt\<rparr>) ret t'" for t' ret
  proof (cases "map_of t r")
    case None
    with cls that have "opt = UMMU_GRANT" by (auto split: if_splits)
    with rec None rr f(5) [of opt] show ?thesis by (simp add: grant_step_def recorded_def seg_step_def new_def)
  next
    case (Some s)
    with cls that have o: "opt = UMMU_ADD_TOKEN" "di_token_check d1 = 1" by (auto simp: ummu_table_param_check_def split: if_splits)
    then obtain tk where tk: "di_token d1 = Some tk" using f(4) by (auto split: if_splits)
    with o rec Some rr f(8) [OF tk] show ?thesis by (auto simp: grant_step_def recorded_def seg_step_def)
  qed
  with opt pos a show thesis by (rule that)
qed

text \<open>
  Whether a grant loses the record of its segment: the request passes the checks, it is for a new segment,
  the permission is in the table, and then there is no memory for the record.
\<close>

definition record_lost :: "os_env \<Rightarrow> data_info \<Rightarrow> int \<Rightarrow> mapt_info \<Rightarrow> u64 \<Rightarrow> u64 \<Rightarrow> u32 \<Rightarrow> seg_attr \<Rightarrow> world \<Rightarrow> bool" where
  "record_lost E junk fd mi data sz perm attr w \<longleftrightarrow>
     (let d = junk\<lparr>di_data := data, di_data_size := sz, di_perm := perm, di_token := sa_token attr, di_e_bit := sa_e_bit attr\<rparr>;
          ((ret, d1), w1) = ummu_perm_data_preproc E d w in
      mi_mode mi = MAPT_MODE_TABLE \<and> ummu_check_data d (mi_mode mi) = 0 \<and> ret = 0 \<and>
      (case ummu_grant_check mi d1 of None \<Rightarrow> False | Some opt \<Rightarrow> record_fails E fd mi (d1\<lparr>di_op := opt\<rparr>) w1))"

lemma grant_table_mode:
  fixes junk data sz perm attr w
  assumes g: "get_mapt_info_by_tid ctx tid = Some mi" and t: "table_ok mi t" and q: "queues_ready E mi"
    and E: "fresh_mem E"
  defines "lost \<equiv> record_lost E junk (cx_shared_fd ctx) mi data sz perm attr w"
  obtains ret ctx' tok w' mi' t' where
    "ummu_grant E junk (Some ctx) tid data sz perm (Some attr) w = Some (ret, Some ctx', Some (attr\<lparr>sa_token := tok\<rparr>), w')"
    "ctx_upd ctx tid mi' ctx'" "if lost then ret = - ENOMEM \<and> unrecorded mi' t t' else table_ok mi' t'"
    "queues_ready E mi'" "mi_valid mi' \<noteq> 0" "ret \<in> {0, - EINVAL, - ERANGE, - ENOMEM}"
    "let d = junk\<lparr>di_data := data, di_data_size := sz, di_perm := perm, di_token := sa_token attr, di_e_bit := sa_e_bit attr\<rparr> in
       (tok = sa_token attr \<or> tok = di_token (snd (fst (ummu_perm_data_preproc E d w)))) \<and>
       (ret = - EINVAL \<longleftrightarrow> \<not> (ummu_check_data d MAPT_MODE_TABLE = 0 \<and> fst (fst (ummu_perm_data_preproc E d w)) = 0 \<and>
         grant_possible (map_of t) (Range data (sz - 1)) (segment data sz perm (sa_e_bit attr) tok) tok))"
    "map_of t' = (if ret = 0 \<or> lost then grant_step (map_of t) (Range data (sz - 1)) (segment data sz perm (sa_e_bit attr) tok) tok else map_of t)"
proof -
  define d where "d = junk\<lparr>di_data := data, di_data_size := sz, di_perm := perm, di_token := sa_token attr, di_e_bit := sa_e_bit attr\<rparr>"
  have mode: "mi_mode mi = MAPT_MODE_TABLE" using t by (auto elim: table_okE)
  have valid: "mi_valid mi \<noteq> 0" by (rule get_mapt_info_SomeD(2) [OF g])
  note lost = lost_def [unfolded record_lost_def d_def [symmetric] Let_def mode]
  note unchanged = that [OF _ ctx_upd_refl [OF g] _ q valid, of "- EINVAL" _ _ t, unfolded d_def [symmetric] Let_def]
  show thesis
  proof (cases rule: grant_run [OF g d_def, where E = E and w = w, unfolded mode, case_names check token request])
    case check
    then have "\<not> lost" by (simp add: lost split: prod.splits)
    with check t show thesis by (intro unchanged [of "sa_token attr" w]) (simp_all add: errno_defs)
  next
    case (token ret d1 w1)
    then have "\<not> lost" by (simp add: lost)
    with token t show thesis by (intro unchanged [of "di_token d1" w1]) (simp_all add: errno_defs)
  next
    case (request d1 w1)
    note p = request(2) and f = preproc_fields [OF request(2)]
    have d: "di_data d = data" "di_data_size d = sz" "di_perm d = perm" "di_e_bit d = sa_e_bit attr" by (simp_all add: d_def)
    from request(1) [unfolded check_data_ok] f d have ok: "request_ok d1" "4096 dvd unat (di_data d)"
      by (auto simp: request_ok_def)
    have rr: "request_range d1 = Range data (sz - 1)" using f d by (simp add: request_range_def)
    let ?possible = "grant_possible (map_of t) (Range data (sz - 1)) (segment data sz perm (sa_e_bit attr) (di_token d1)) (di_token d1)"
    obtain opt where opt: "ummu_grant_check mi d1 = Some opt" "opt \<noteq> UMMU_OP_END \<longleftrightarrow> ?possible"
      "opt \<noteq> UMMU_OP_END \<Longrightarrow> op_allowed t (d1\<lparr>di_op := opt\<rparr>)"
      "\<And>t' ret. opt \<noteq> UMMU_OP_END \<Longrightarrow> recorded t (d1\<lparr>di_op := opt\<rparr>) ret t' \<Longrightarrow> map_of t' = (if ret = 0
         then grant_step (map_of t) (Range data (sz - 1)) (segment data sz perm (sa_e_bit attr) (di_token d1)) (di_token d1) else map_of t)"
      by (rule grant_choice [OF t p ok, unfolded rr d]) blast
    note start = request(3) [OF opt(1)]
    have lost': "lost \<longleftrightarrow> record_fails E (cx_shared_fd ctx) mi (d1\<lparr>di_op := opt\<rparr>) w1" using request(1) p opt(1) by (simp add: lost)
    show thesis
    proof (cases "opt = UMMU_OP_END")
      case True
      then have "\<not> lost" by (simp add: lost' record_fails_def)
      with True show thesis using start opt(2) p t by (intro unchanged [of "di_token d1" w1]) (simp_all add: errno_defs)
    next
      case False
      have r2: "request_ok (d1\<lparr>di_op := opt\<rparr>)" "di_data_limit (d1\<lparr>di_op := opt\<rparr>) = di_data_base (d1\<lparr>di_op := opt\<rparr>) + di_data_size (d1\<lparr>di_op := opt\<rparr>) - 1"
        using ok(1) f by (simp_all add: request_ok_def)
      from grant_core [OF t q r2 opt(3) [OF False] E, of "cx_shared_fd ctx" w1] obtain ret mi' w' t' where
        c: "grant_apply E (cx_shared_fd ctx) mi (d1\<lparr>di_op := opt\<rparr>) w1 = Some (ret, mi', w')"
          "queues_ready E mi'" "mi_valid mi' = mi_valid mi" "ret \<in> {0, - ERANGE, - ENOMEM}"
          "if lost then ret = - ENOMEM \<and> unrecorded mi' t t' \<and> recorded t (d1\<lparr>di_op := opt\<rparr>) 0 t'
            else table_ok mi' t' \<and> recorded t (d1\<lparr>di_op := opt\<rparr>) ret t'"
        unfolding grant_apply_def lost' by blast
      have res: "ummu_grant E junk (Some ctx) tid data sz perm (Some attr) w =
          Some (ret, Some (put_mapt ctx tid mi'), Some (attr\<lparr>sa_token := di_token d1\<rparr>), w')" using start False c(1) by simp
      have chg: "map_of t' = (if ret = 0 \<or> lost then grant_step (map_of t) (Range data (sz - 1)) (segment data sz perm (sa_e_bit attr) (di_token d1)) (di_token d1)
          else map_of t)"
        using c(5) opt(4) [OF False, of 0 t'] opt(4) [OF False, of ret t'] by (auto split: if_splits)
      have "mi_valid mi' \<noteq> 0" "ret \<in> {0, - EINVAL, - ERANGE, - ENOMEM}" "if lost then ret = - ENOMEM \<and> unrecorded mi' t t' else table_ok mi' t'"
        using c(3-5) valid by (auto split: if_splits)
      then show thesis
        using c(4) opt(2) False p request(1)
        by (intro that [OF res ctx_upd_put [OF g] _ c(2) _ _ _ chg])
          (auto simp: d_def [symmetric] Let_def errno_defs)
    qed
  qed
qed

text \<open>A grant that loses its record is one of a new segment, and a valid request.\<close>

lemma record_lost_new:
  assumes t: "table_ok mi t" and l: "record_lost E junk fd mi data sz perm attr w"
  shows "map_of t (Range data (sz - 1)) = None" "0 < unat sz" "unat data + unat sz \<le> 2 ^ 48" "unat data mod 4096 = 0"
proof -
  define d where "d = junk\<lparr>di_data := data, di_data_size := sz, di_perm := perm, di_token := sa_token attr, di_e_bit := sa_e_bit attr\<rparr>"
  have mode: "mi_mode mi = MAPT_MODE_TABLE" using t by (auto elim: table_okE)
  obtain ret d1 w1 where p: "ummu_perm_data_preproc E d w = ((ret, d1), w1)" by (metis prod_cases3 prod.exhaust)
  have x: "ummu_check_data d MAPT_MODE_TABLE = 0" "ret = 0" "ummu_grant_check mi d1 = Some UMMU_GRANT"
    using l p by (auto simp: record_lost_def record_fails_def d_def [symmetric] mode Let_def split: option.splits)
  note f = preproc_fields [OF p [unfolded x(2)]]
  show n: "0 < unat sz" "unat data + unat sz \<le> 2 ^ 48" "unat data mod 4096 = 0" using x(1) by (simp_all add: check_data_ok d_def)
  have ok: "request_ok d1" using f n by (simp add: request_ok_def d_def)
  have "request_range d1 = Range data (sz - 1)" using f by (simp add: request_range_def d_def)
  with grant_check_table [OF table_segs_ok [OF t] ok] x(3) show "map_of t (Range data (sz - 1)) = None"
    by (auto simp: ummu_table_param_check_def split: option.splits if_splits)
qed

section \<open>Ungranting in table mode\<close>

text \<open>An ungrant that matches a record lies below \<open>2 ^ 48\<close>; its size did not wrap around.\<close>

lemma matched_request:
  assumes t: "table_ok mi t" and m: "map_of t (request_range di) = Some s" "di_data_size di \<noteq> 0"
  shows "request_ok di"
proof -
  let ?r = "request_range di" and ?n = "di_data_size di - 1"
  from t obtain ctx where wf: "seg_wf t" and rep: "represents (ctx_walk ctx) (grants_of (map_of t))" by (rule table_okE)
  have "(unat (rleft ?r), unat (rright ?r), attrs_of_seg s) \<in> grants_of (map_of t)" using m grants_of_mem by blast
  note g = representsD(3) [OF rep this] representsD(5) [OF rep this]
  have r: "rleft ?r = di_data_base di" "rright ?r = di_data_base di + ?n" by (simp_all add: request_range_def Range_def)
  have le: "di_data_base di \<le> di_data_base di + ?n" using g(2) r by (simp add: word_le_nat_alt)
  then have "unat (di_data_base di + ?n) = unat (di_data_base di) + unat ?n" by (simp add: unat_plus_simple)
  moreover have "unat ?n = unat (di_data_size di) - 1" "0 < unat (di_data_size di)" using m(2) unat_size_minus_1 by (auto simp: unat_gt_0)
  ultimately show ?thesis using g(1) r by (simp add: request_ok_def)
qed

lemma ungrant_check_any:
  assumes t: "table_ok mi t" and n: "di_data_size di \<noteq> 0"
  shows "ummu_ungrant_check mi di = Some (case map_of t (request_range di) of
     Some s \<Rightarrow> ummu_ungrant_param_check s di | None \<Rightarrow> UMMU_OP_END)"
proof (cases "request_ok di")
  case True
  then show ?thesis by (rule ungrant_check_table [OF table_segs_ok [OF t]])
next
  case False
  from t obtain ctx where c: "mi_mode mi = MAPT_MODE_TABLE" "seg_wf t" "mi_block_base mi = TableBase ctx" "tc_granted_addr_mng ctx = Some t"
    by (rule table_okE)
  have none: "map_of t (request_range di) = None" using matched_request [OF t _ n] False by (metis not_Some_eq)
  have "ummu_find_seg (di_data_base di) (di_data_size di - 1) t \<noteq> (Some v, RANGE_MATCH)" for v
  proof
    assume "ummu_find_seg (di_data_base di) (di_data_size di - 1) t = (Some v, RANGE_MATCH)"
    then obtain r where r: "map_find t (request_range di) = Some (r, v)" "rleft r = di_data_base di" "rright r = di_data_base di + (di_data_size di - 1)"
      by (auto simp: ummu_find_seg_def request_range_def split: option.splits if_splits)
    then have "r = request_range di" by (intro range_eqI) (simp_all add: request_range_def Range_def)
    with map_find_Some [OF r(1)] none show False by (force simp: map_of_eq_None_iff)
  qed
  then show ?thesis using c none by (auto simp: ummu_ungrant_check_def ummu_consts split: prod.splits option.splits range_compare_ret.splits)
qed

text \<open>
  When an ungrant is possible, and what it changes; \<open>tok\<close> is the token of \<^verbatim>\<open>ummu_ungrant_by_token\<close>.
  With two tokens, only the token goes.
\<close>

definition ungrant_possible :: "(range \<Rightarrow> seg_info option) \<Rightarrow> range \<Rightarrow> u32 option \<Rightarrow> bool" where
  "ungrant_possible m r tok \<longleftrightarrow> (case m r of
     None \<Rightarrow> False
   | Some s \<Rightarrow> (case tok of None \<Rightarrow> True | Some v \<Rightarrow> si_token_check s = 1 \<and> v \<in> {si_token_val_0 s, si_token_val_1 s}))"

definition ungrant_step :: "(range \<Rightarrow> seg_info option) \<Rightarrow> range \<Rightarrow> u32 option \<Rightarrow> range \<Rightarrow> seg_info option" where
  "ungrant_step m r tok = m(r := (case (m r, tok) of
     (Some s, Some v) \<Rightarrow> if si_token_count s = 1 then None else Some (ummu_remove_tokenval v s)
   | _ \<Rightarrow> None))"

text \<open>The operation chosen for an ungrant that is possible.\<close>

lemma ungrant_choice:
  assumes t: "table_ok mi t" and sz: "di_data_size d \<noteq> 0" and l: "di_data_limit d = di_data_base d + di_data_size d - 1"
    and tok: "tok = (if di_bytoken d then Some (di_tokenval d) else None)"
    and p: "ungrant_possible (map_of t) (request_range d) tok"
  obtains opt where "ummu_ungrant_check mi d = Some opt" "opt \<noteq> UMMU_OP_END" "op_allowed t (d\<lparr>di_op := opt\<rparr>)" "opt \<noteq> UMMU_GRANT"
    "request_ok (d\<lparr>di_op := opt\<rparr>)" "\<And>t'. recorded t (d\<lparr>di_op := opt\<rparr>) 0 t' \<Longrightarrow> map_of t' = ungrant_step (map_of t) (request_range d) tok"
proof -
  have segs: "\<forall>(r, s) \<in> set t. seg_ok s" using t by (auto elim: table_okE)
  from p obtain s where s: "map_of t (request_range d) = Some s"
    "tok = Some v \<Longrightarrow> si_token_check s = 1 \<and> v \<in> {si_token_val_0 s, si_token_val_1 s}" for v
    by (auto simp: ungrant_possible_def split: option.splits)
  have sok: "seg_ok s" using segs map_of_SomeD [OF s(1)] by auto
  define opt where "opt = (if \<not> di_bytoken d \<or> si_token_count s = 1 then UMMU_UNGRANT else UMMU_REMOVE_TOKEN)"
  have rr: "request_range (d\<lparr>di_op := x\<rparr>) = request_range d" for x by (simp add: request_range_def)
  have "ummu_ungrant_check mi d = Some opt" "opt \<noteq> UMMU_OP_END"
    using ungrant_check_any [OF t sz] s tok sok
    by (auto simp: opt_def ummu_ungrant_param_check_def seg_ok_def UMMU_MAX_TOKEN_NUM_def)
  moreover have "op_allowed t (d\<lparr>di_op := opt\<rparr>)" "opt \<noteq> UMMU_GRANT" using s tok by (auto simp: op_allowed_def rr opt_def)
  moreover have "request_ok (d\<lparr>di_op := opt\<rparr>)" by (rule matched_request [OF t]) (use s rr sz in auto)
  moreover have "map_of t' = ungrant_step (map_of t) (request_range d) tok" if "recorded t (d\<lparr>di_op := opt\<rparr>) 0 t'" for t'
    using that s(1) tok by (auto simp: ungrant_step_def recorded_def rr seg_step_def opt_def)
  ultimately show thesis by (rule that)
qed

lemma ungrant_table_mode:
  assumes g: "get_mapt_info_by_tid ctx tid = Some mi" and t: "table_ok mi t" and q: "queues_ready E mi"
    and E: "fresh_mem E" and tok: "tok = (if bytoken then Some tv else None)"
  obtains ret ctx' w' mi' t' where
    "ummu_ungrant_data E junk (Some ctx) tid data sz tv bytoken w = Some (ret, Some ctx', w')"
    "ctx_upd ctx tid mi' ctx'" "table_ok mi' t'" "queues_ready E mi'" "mi_valid mi' \<noteq> 0" "ret \<in> {0, - EINVAL, - ENOMEM}"
    "ret = 0 \<longleftrightarrow> sz \<noteq> 0 \<and> unat data mod 4096 = 0 \<and> ungrant_possible (map_of t) (Range data (sz - 1)) tok"
    "map_of t' = (if ret = 0 then ungrant_step (map_of t) (Range data (sz - 1)) tok else map_of t)"
proof -
  define d where "d = junk\<lparr>di_lvl := MAX_LEVEL_INDEX, di_data := data, di_data_size := sz, di_tokenval := tv, di_bytoken := bytoken,
    di_data_base := data, di_data_limit := data + sz - 1\<rparr>"
  have mode: "mi_mode mi = MAPT_MODE_TABLE" and segs: "\<forall>(r, s) \<in> set t. seg_ok s" using t by (auto elim: table_okE)
  have valid: "mi_valid mi \<noteq> 0" by (rule get_mapt_info_SomeD(2) [OF g])
  have al: "ALIGN_VPAGE_SHIFT_CHECK data \<longleftrightarrow> unat data mod 4096 = 0" by (rule ALIGN_VPAGE_iff)
  note unchanged = that [OF _ ctx_upd_refl [OF g] t q valid]
  have rr: "request_range d = Range data (sz - 1)" by (simp add: d_def request_range_def)
  have lim: "di_data_limit d = di_data_base d + di_data_size d - 1" by (simp add: d_def)
  have tok': "tok = (if di_bytoken d then Some (di_tokenval d) else None)" by (simp add: d_def tok)
  show thesis
  proof (cases "sz \<noteq> 0 \<and> unat data mod 4096 = 0")
    case False
    then show thesis using g mode al unchanged [of "if sz = 0 then - ENOMEM else - EINVAL" w]
      by (auto simp: ummu_ungrant_data_def errno_defs split: if_splits)
  next
    case True
    have sz: "di_data_size d \<noteq> 0" using True by (simp add: d_def)
    have start: "ummu_ungrant_data E junk (Some ctx) tid data sz tv bytoken w = do {
        opt \<leftarrow> ummu_ungrant_check mi d;
        if opt = UMMU_OP_END then Some (- EINVAL, Some ctx, w)
        else do {
          (ret2, mi3, w3) \<leftarrow> do { (ret1, mi1, di2, w1) \<leftarrow> ummu_ungrant_imp E (cx_shared_fd ctx) mi (d\<lparr>di_op := opt\<rparr>) w;
            (ret2, mi2, w2) \<leftarrow> (if ret1 = 0 then ummu_update_info E (di_op (d\<lparr>di_op := opt\<rparr>)) mi1 di2 w1 else Some (ret1, mi1, w1));
            (mi3, w3) \<leftarrow> ummu_plbi_va_cmd E (cx_shared_fd ctx) mi2 (plbi_range di2) w2;
            Some (ret2, mi3, w3) };
          Some (ret2, Some (put_mapt ctx tid mi3), w3) } }"
      unfolding ummu_ungrant_data_def using g mode True al
      by (simp add: d_def [symmetric] Let_def) (auto intro!: Option.bind_cong split: Option.bind_splits prod.splits)
    show thesis
    proof (cases "ungrant_possible (map_of t) (Range data (sz - 1)) tok")
      case False
      then have "ummu_ungrant_check mi d = Some UMMU_OP_END"
        using ungrant_check_any [OF t sz, unfolded rr] tok' segs map_of_SomeD
        by (fastforce simp: ungrant_possible_def ummu_ungrant_param_check_def seg_ok_def split: option.splits if_splits)
      then show thesis using start False unchanged [of "- EINVAL" w] by (simp add: errno_defs)
    next
      case poss: True
      obtain opt where opt: "ummu_ungrant_check mi d = Some opt" "opt \<noteq> UMMU_OP_END" "op_allowed t (d\<lparr>di_op := opt\<rparr>)" "opt \<noteq> UMMU_GRANT"
        "request_ok (d\<lparr>di_op := opt\<rparr>)"
        "\<And>t'. recorded t (d\<lparr>di_op := opt\<rparr>) 0 t' \<Longrightarrow> map_of t' = ungrant_step (map_of t) (Range data (sz - 1)) tok"
        by (rule ungrant_choice [OF t sz lim tok', unfolded rr, OF poss]) blast
      have l: "di_data_limit (d\<lparr>di_op := opt\<rparr>) = di_data_base (d\<lparr>di_op := opt\<rparr>) + di_data_size (d\<lparr>di_op := opt\<rparr>) - 1" using lim by simp
      have ng: "di_op (d\<lparr>di_op := opt\<rparr>) \<noteq> UMMU_GRANT" using opt(4) by simp
      from ungrant_core [OF t q opt(5) l opt(3) ng E, of "cx_shared_fd ctx" w] obtain mi2 w2 t' where
        c: "do { (ret1, mi1, di2, w1) \<leftarrow> ummu_ungrant_imp E (cx_shared_fd ctx) mi (d\<lparr>di_op := opt\<rparr>) w;
            (ret2, mi2, w2) \<leftarrow> (if ret1 = 0 then ummu_update_info E (di_op (d\<lparr>di_op := opt\<rparr>)) mi1 di2 w1 else Some (ret1, mi1, w1));
            (mi3, w3) \<leftarrow> ummu_plbi_va_cmd E (cx_shared_fd ctx) mi2 (plbi_range di2) w2;
            Some (ret2, mi3, w3) } = Some (0, mi2, w2)"
          "table_ok mi2 t'" "recorded t (d\<lparr>di_op := opt\<rparr>) 0 t'" "queues_ready E mi2" "mi_valid mi2 = mi_valid mi" by blast
      have res: "ummu_ungrant_data E junk (Some ctx) tid data sz tv bytoken w = Some (0, Some (put_mapt ctx tid mi2), w2)"
        unfolding start using opt(1,2) c(1) by simp
      have nv: "mi_valid mi2 \<noteq> 0" using c(5) valid by simp
      show thesis by (rule that [OF res ctx_upd_put [OF g] c(2,4) nv]) (use True poss opt(6) [OF c(3)] in auto)
    qed
  qed
qed

end
