(* ===== verification/Ummu_Entry.thy ===== *)
theory Ummu_Entry
  imports Ummu_Requests
begin

text \<open>
  A TID in entry mode, in the terms of table mode.  \<open>entry_segs\<close> reads the one entry node as the record of a
  segment, \<open>entry_ok\<close> is the invariant of the node.  The checks and operations on the node
  (\<^verbatim>\<open>ummu_entry_param_check\<close>, \<^verbatim>\<open>ummu_entry_ungrant_param_check\<close>, \<^verbatim>\<open>ummu_entry_op\<close>) are the same
  steps on this record as on the records of table mode, with room for one segment (\<open>entry_possible\<close>).
\<close>

section \<open>The entry node as a record of its segment\<close>

definition entry_seg :: "entry_node \<Rightarrow> seg_info" where
  "entry_seg n = (let c = en_token_check n = 1 in
     \<lparr>si_start_addr = en_base n, si_grant_size = en_limit n - en_base n + 1, si_permission = ucast (en_permission n),
      si_e_bit = ucast (en_e_bit n), si_token_check = (if c then 1 else 0), si_token_count = (if c then ucast (en_nonce n) else 0),
      si_token_val_0 = (if c then en_token_val_0 n else 0), si_token_val_1 = (if c then en_token_val_1 n else 0)\<rparr>)"

definition entry_segs :: "entry_node \<Rightarrow> range \<Rightarrow> seg_info option" where
  "entry_segs n = (if en_valid n = 0 then Map.empty else [Range (en_base n) (en_limit n - en_base n) \<mapsto> entry_seg n])"

definition entry_ok :: "entry_node \<Rightarrow> bool" where
  "entry_ok n \<longleftrightarrow> (en_valid n \<noteq> 0 \<longrightarrow> unat (en_base n) \<le> unat (en_limit n) \<and> unat (en_limit n) < 2 ^ 48 \<and>
     (en_token_check n = 1 \<longrightarrow> en_nonce n \<in> {1, 2}))"

lemma ucast_back: "LENGTH('a) \<le> LENGTH('b) \<Longrightarrow> ucast (ucast (w :: 'a::len word) :: 'b::len word) = w"
  by (rule bit_word_eqI) (simp add: bit_unsigned_iff)

lemma nonce_count: "(ucast (w :: 2 word) :: u8) = 1 \<longleftrightarrow> w = 1" "(ucast (w :: 2 word) :: u8) = 2 \<longleftrightarrow> w = 2"
proof -
  have ub: "ucast (ucast v :: u8) = v" for v :: "2 word" by (rule ucast_back) simp
  have "(ucast w :: u8) = ucast v \<longleftrightarrow> w = v" for v :: "2 word" using ub [of w] ub [of v] by metis
  from this [of 1] this [of 2] show "(ucast w :: u8) = 1 \<longleftrightarrow> w = 1" "(ucast w :: u8) = 2 \<longleftrightarrow> w = 2" by simp_all
qed

lemma one_bit: "(v :: 1 word) \<noteq> 0 \<longleftrightarrow> v = 1"
  by (cases v) (auto simp: less_2_cases_iff)

lemma Range_eq: "Range a m = Range b n \<longleftrightarrow> a = b \<and> m = n"
  by (auto simp: Range_def)

text \<open>A request as \<^verbatim>\<open>ummu_grant\<close> prepares it.\<close>

definition entry_request :: "data_info \<Rightarrow> bool" where
  "entry_request d \<longleftrightarrow> request_ok d \<and> di_data_limit d = di_data_base d + di_data_size d - 1 \<and>
     di_token_check d = (if di_token d = None then 0 else 1) \<and> (\<forall>tk. di_token d = Some tk \<longrightarrow> di_tokenval d = ti_tokenVal tk) \<and>
     di_perm d \<in> valid_perms \<and> di_e_bit d \<in> {UMMU_EBIT_OFF, UMMU_EBIT_ON}"

abbreviation entry_new :: "data_info \<Rightarrow> seg_info" where
  "entry_new d \<equiv> segment (di_data_base d) (di_data_size d) (di_perm d) (di_e_bit d) (di_token d)"

abbreviation entry_range :: "data_info \<Rightarrow> range" where
  "entry_range d \<equiv> Range (di_data_base d) (di_data_size d - 1)"

lemma valid_perm_bits: "p \<in> valid_perms \<Longrightarrow> ucast (ucast p :: 6 word) = p"
  by (auto simp: valid_perms_def ummu_consts)

lemma ebit_bits: "e \<in> {UMMU_EBIT_OFF, UMMU_EBIT_ON} \<Longrightarrow> ucast (ucast e :: 1 word) = e"
  by (auto simp: ummu_consts)

lemma range_limit: "(l :: u64) = b + s - 1 \<Longrightarrow> l - b = s - 1" "(l :: u64) = b + s - 1 \<Longrightarrow> l - b + 1 = s"
  by (simp_all add: algebra_simps)

lemma entry_range_iff:
  assumes "di_data_limit d = di_data_base d + di_data_size d - 1" "en_valid n \<noteq> 0"
  shows "entry_segs n (entry_range d) = (if en_base n = di_data_base d \<and> en_limit n = di_data_limit d then Some (entry_seg n) else None)"
  using assms by (auto simp: entry_segs_def Range_eq algebra_simps)

lemma entry_grant_check:
  assumes d: "entry_request d"
  shows "ummu_entry_param_check n d =
    (if entry_segs n = Map.empty then UMMU_GRANT
     else if entry_segs n (entry_range d) \<noteq> None \<and> grant_possible (entry_segs n) (entry_range d) (entry_new d) (di_token d)
     then UMMU_ADD_TOKEN else UMMU_OP_END)"
proof (cases "en_valid n = 0")
  case True
  then show ?thesis by (simp add: ummu_entry_param_check_def entry_segs_def)
next
  case False
  from d have l: "di_data_limit d = di_data_base d + di_data_size d - 1" and tc: "di_token_check d = 1 \<longleftrightarrow> di_token d \<noteq> None"
    and p: "di_perm d \<in> valid_perms" and e: "di_e_bit d \<in> {UMMU_EBIT_OFF, UMMU_EBIT_ON}" by (auto simp: entry_request_def)
  have "(ucast (en_permission n) :: u64) = ucast (di_perm d) \<longleftrightarrow> (ucast (en_permission n) :: u32) = di_perm d"
  proof
    assume "(ucast (en_permission n) :: u64) = ucast (di_perm d)"
    then have "(ucast (ucast (en_permission n) :: u64) :: u32) = ucast (ucast (di_perm d) :: u64)" by simp
    moreover have "(ucast (ucast (en_permission n) :: u64) :: u32) = ucast (en_permission n)"
      by (rule bit_word_eqI) (auto simp: bit_unsigned_iff dest: bit_imp_le_length)
    ultimately show "(ucast (en_permission n) :: u32) = di_perm d" by (simp add: ucast_back)
  next
    have "(ucast (en_permission n) :: u64) = ucast (ucast (en_permission n) :: u32)"
      by (rule bit_word_eqI) (auto simp: bit_unsigned_iff dest: bit_imp_le_length)
    then show "(ucast (en_permission n) :: u32) = di_perm d \<Longrightarrow> (ucast (en_permission n) :: u64) = ucast (di_perm d)" by simp
  qed
  then have poss: "grant_possible [entry_range d \<mapsto> entry_seg n] (entry_range d) (entry_new d) (di_token d) \<longleftrightarrow>
      en_token_check n = 1 \<and> di_token_check d = 1 \<and> (ucast (en_permission n) :: u64) = ucast (di_perm d) \<and>
      ucast (en_e_bit n) = di_e_bit d \<and> en_nonce n = 1"
    using tc by (auto simp: grant_possible_def entry_seg_def segment_def Let_def nonce_count)
  have ne: "entry_segs n \<noteq> Map.empty" using False by (simp add: entry_segs_def)
  note r = entry_range_iff [OF l False]
  show ?thesis
  proof (cases "en_base n = di_data_base d \<and> en_limit n = di_data_limit d")
    case True
    then have "entry_segs n = [entry_range d \<mapsto> entry_seg n]" using False range_limit(1) [OF l] by (simp add: entry_segs_def)
    then show ?thesis using poss True False by (simp add: ummu_entry_param_check_def)
  next
    case f: False
    then have "entry_segs n (entry_range d) = None" using r by auto
    then show ?thesis using ne f False by (auto simp: ummu_entry_param_check_def)
  qed
qed
text \<open>Storing a grant, adding a token, removing one.\<close>

lemma entry_grant_op:
  assumes d: "entry_request d" and op: "di_op d' = UMMU_GRANT" and d': "d' = d\<lparr>di_op := di_op d'\<rparr>"
  shows "\<exists>n'. ummu_entry_op n d' = (0, n') \<and> entry_ok n' \<and> entry_segs n' = [entry_range d \<mapsto> entry_new d]"
proof -
  let ?n = "ummu_entry_fill_node n d'"
  have f: "di_data_base d' = di_data_base d" "di_data_limit d' = di_data_limit d" "di_perm d' = di_perm d" "di_e_bit d' = di_e_bit d"
    "di_token_check d' = di_token_check d" "di_tokenval d' = di_tokenval d" by (subst d', simp)+
  from d have r: "request_ok d" and l: "di_data_limit d = di_data_base d + di_data_size d - 1"
    and tc: "di_token_check d = (if di_token d = None then 0 else 1)" and tv: "\<And>tk. di_token d = Some tk \<Longrightarrow> di_tokenval d = ti_tokenVal tk"
    and p: "di_perm d \<in> valid_perms" and e: "di_e_bit d \<in> {UMMU_EBIT_OFF, UMMU_EBIT_ON}" by (auto simp: entry_request_def)
  have lim: "unat (di_data_limit d) = unat (di_data_base d) + (unat (di_data_size d) - 1)"
    using last_byte_in_range [of "di_data_size d" "di_data_base d"] r l by (simp add: request_ok_def)
  have "unat (di_data_base d) < 2 ^ 48" "unat (di_data_limit d) < 2 ^ 48" using r lim unfolding request_ok_def by linarith+
  then have b: "unat (di_data_base d') < 2 ^ 48" "unat (di_data_limit d') < 2 ^ 48" using f by simp_all
  note g = entry_fill_fields [OF refl b, of n, unfolded f]
  have "en_token_check ?n = 1 \<longleftrightarrow> di_token d \<noteq> None" using g(6) tc by simp
  moreover from this have "en_token_check ?n = 1 \<Longrightarrow> en_token_val_0 ?n = di_tokenval d \<and> en_token_val_1 ?n = di_tokenval d \<and> en_nonce ?n = 1"
    using g(7) tc by simp
  ultimately have "entry_seg ?n = entry_new d"
    using g range_limit [OF l] tv valid_perm_bits [OF p] ebit_bits [OF e]
    by (cases "di_token d") (auto simp: entry_seg_def segment_def Let_def)
  moreover have "entry_ok ?n" using g lim r b f tc by (auto simp: entry_ok_def request_ok_def)
  moreover have "ummu_entry_op n d' = (0, ?n)" by (simp add: ummu_entry_op_def op)
  ultimately show ?thesis using g range_limit [OF l] by (simp add: entry_segs_def)
qed

lemma entry_add_op:
  assumes d: "entry_request d" and op: "di_op d' = UMMU_ADD_TOKEN" and d': "d' = d\<lparr>di_op := di_op d'\<rparr>" and n: "entry_ok n"
    and c: "entry_segs n \<noteq> Map.empty" "entry_segs n (entry_range d) \<noteq> None" "grant_possible (entry_segs n) (entry_range d) (entry_new d) (di_token d)"
  shows "\<exists>n'. ummu_entry_op n d' = (0, n') \<and> entry_ok n' \<and> entry_segs n' = grant_step (entry_segs n) (entry_range d) (entry_new d) (di_token d)"
proof -
  have v: "en_valid n = 1" using c(1) one_bit [of "en_valid n"] by (auto simp: entry_segs_def split: if_splits)
  have l: "di_data_limit d = di_data_base d + di_data_size d - 1" using d by (simp add: entry_request_def)
  have "en_valid n \<noteq> 0" using v by simp
  note r = entry_range_iff [OF l this]
  have here: "en_base n = di_data_base d" "en_limit n = di_data_limit d" using c(2) r by (auto split: if_splits)
  obtain tk where tk: "di_token d = Some tk" "di_tokenval d = ti_tokenVal tk" using c(2,3) d by (auto simp: grant_possible_def entry_request_def)
  have one: "en_token_check n = 1" "en_nonce n = 1"
    using c(2,3) r here n v by (auto simp: grant_possible_def entry_seg_def Let_def entry_ok_def split: if_splits)
  let ?n = "n\<lparr>en_token_val_1 := di_tokenval d, en_nonce := 2\<rparr>"
  have "di_tokenval d' = di_tokenval d" by (subst d') simp
  then have "ummu_entry_op n d' = (0, ?n)" using v one op
    by (simp add: ummu_entry_op_def ummu_update_token_def ummu_add_token_def UMMU_MAX_TOKEN_NUM_def)
  moreover have "entry_ok ?n" using n by (simp add: entry_ok_def en_base_def en_limit_def)
  moreover have "entry_segs ?n = grant_step (entry_segs n) (entry_range d) (entry_new d) (di_token d)"
    using v one here tk range_limit [OF l]
    by (simp add: entry_segs_def grant_step_def seg_add_tokenval_def entry_seg_def Let_def en_base_def en_limit_def UMMU_MAX_TOKEN_NUM_def)
  ultimately show ?thesis by blast
qed

text \<open>Ungranting.\<close>

lemma entry_ungrant_check:
  assumes n: "entry_ok n" and l: "di_data_limit d = di_data_base d + di_data_size d - 1"
    and tok: "tok = (if di_bytoken d then Some (di_tokenval d) else None)"
  shows "ummu_entry_ungrant_param_check n d =
    (if \<not> ungrant_possible (entry_segs n) (entry_range d) tok then UMMU_OP_END
     else if ungrant_step (entry_segs n) (entry_range d) tok (entry_range d) = None then UMMU_UNGRANT else UMMU_REMOVE_TOKEN)"
proof (cases "en_valid n = 0")
  case True
  then show ?thesis by (simp add: ummu_entry_ungrant_param_check_def entry_segs_def ungrant_possible_def)
next
  case v: False
  show ?thesis
  proof (cases "en_base n = di_data_base d \<and> en_limit n = di_data_limit d")
    case True
    then have s: "entry_segs n = [entry_range d \<mapsto> entry_seg n]" using v range_limit(1) [OF l] by (simp add: entry_segs_def)
    have "en_token_check n = 1 \<longrightarrow> en_nonce n = 1 \<or> en_nonce n = 2" using n v by (auto simp: entry_ok_def)
    then show ?thesis using True v
      by (auto simp: s tok ummu_entry_ungrant_param_check_def ungrant_possible_def ungrant_step_def entry_seg_def Let_def nonce_count UMMU_MAX_TOKEN_NUM_def)
  next
    case False
    then have "entry_segs n (entry_range d) = None" using entry_range_iff [OF l v] by auto
    with False v show ?thesis by (auto simp: ummu_entry_ungrant_param_check_def ungrant_possible_def)
  qed
qed

lemma entry_remove_token:
  assumes "en_token_check n = 1" "di_tokenval d = en_token_val_0 n \<or> di_tokenval d = en_token_val_1 n"
  shows "\<exists>n'. ummu_remove_token n d = (0, n') \<and> en_valid n' = en_valid n \<and> en_base n' = en_base n \<and> en_limit n' = en_limit n \<and>
    en_nonce n' = 1 \<and> entry_seg n' = ummu_remove_tokenval (di_tokenval d) (entry_seg n)"
proof (cases "en_token_val_0 n = di_tokenval d")
  case True
  with assms(1) show ?thesis
    by (simp add: ummu_remove_token_def entry_seg_def Let_def ummu_remove_tokenval_def en_base_def en_limit_def)
next
  case False
  with assms show ?thesis
    by (simp add: ummu_remove_token_def entry_seg_def Let_def ummu_remove_tokenval_def en_base_def en_limit_def)
qed

lemma entry_ungrant_op:
  assumes n: "entry_ok n" and l: "di_data_limit d = di_data_base d + di_data_size d - 1"
    and tok: "tok = (if di_bytoken d then Some (di_tokenval d) else None)"
    and c: "ungrant_possible (entry_segs n) (entry_range d) tok"
    and d': "d' = d\<lparr>di_op := if ungrant_step (entry_segs n) (entry_range d) tok (entry_range d) = None then UMMU_UNGRANT else UMMU_REMOVE_TOKEN\<rparr>"
  shows "\<exists>n'. ummu_entry_op n d' = (0, n') \<and> entry_ok n' \<and> entry_segs n' = ungrant_step (entry_segs n) (entry_range d) tok"
proof -
  have v: "en_valid n \<noteq> 0"
  proof
    assume "en_valid n = 0"
    then have "entry_segs n = Map.empty" by (simp add: entry_segs_def)
    with c show False by (simp add: ungrant_possible_def)
  qed
  have "entry_segs n (entry_range d) \<noteq> None" using c by (auto simp: ungrant_possible_def split: option.splits)
  then have s: "entry_segs n = [entry_range d \<mapsto> entry_seg n]" and here: "en_base n = di_data_base d" "en_limit n = di_data_limit d"
    using entry_range_iff [OF l v] v range_limit(1) [OF l] by (auto simp: entry_segs_def split: if_splits)
  show ?thesis
  proof (cases "ungrant_step (entry_segs n) (entry_range d) tok (entry_range d) = None")
    case True
    have "en_valid zero_entry_node = 0" by (simp add: zero_entry_node_def entry_of_words_def)
    then have "entry_ok zero_entry_node" "entry_segs zero_entry_node = Map.empty" by (simp_all add: entry_ok_def entry_segs_def)
    moreover have "ungrant_step (entry_segs n) (entry_range d) tok = (entry_segs n)(entry_range d := ungrant_step (entry_segs n) (entry_range d) tok (entry_range d))"
      by (simp add: ungrant_step_def)
    then have "ungrant_step (entry_segs n) (entry_range d) tok = Map.empty" unfolding True by (simp add: s)
    ultimately show ?thesis using True by (simp add: d' ummu_entry_op_def)
  next
    case False
    then have "tok \<noteq> None" by (auto simp: ungrant_step_def split: option.splits)
    then obtain tv where t: "tok = Some tv" "di_tokenval d = tv" using tok by (auto split: if_splits)
    have "si_token_check (entry_seg n) = 1" "tv = si_token_val_0 (entry_seg n) \<or> tv = si_token_val_1 (entry_seg n)"
      using c unfolding s t(1) by (simp_all add: ungrant_possible_def)
    then have k: "en_token_check n = 1" "tv = en_token_val_0 n \<or> tv = en_token_val_1 n"
      by (simp_all add: entry_seg_def Let_def split: if_splits)
    have dv: "di_tokenval d' = tv" by (simp add: d' t(2))
    with k(2) have "di_tokenval d' = en_token_val_0 n \<or> di_tokenval d' = en_token_val_1 n" by simp
    note rm = entry_remove_token [OF k(1) this, unfolded dv]
    obtain n' where m: "ummu_remove_token n d' = (0, n')" "en_valid n' = en_valid n"
      "en_base n' = en_base n" "en_limit n' = en_limit n" "en_nonce n' = 1" "entry_seg n' = ummu_remove_tokenval tv (entry_seg n)"
      using rm by (elim exE conjE) (rule that)
    have "di_op d' = UMMU_REMOVE_TOKEN" using False by (simp add: d')
    then have x: "ummu_entry_op n d' = (0, n')" using m(1) by (simp add: ummu_entry_op_def ummu_update_token_def)
    have y: "entry_ok n'" using n m(2-5) by (simp add: entry_ok_def)
    have "en_valid n' \<noteq> 0" using v m(2) by simp
    then have z: "entry_segs n' = [entry_range d \<mapsto> ummu_remove_tokenval tv (entry_seg n)]"
      by (simp only: entry_segs_def m(3,4,6) here range_limit(1) [OF l] if_False)
    have "si_token_count (entry_seg n) \<noteq> 1" using False unfolding s t(1) by (auto simp: ungrant_step_def)
    then have "ungrant_step (entry_segs n) (entry_range d) tok = [entry_range d \<mapsto> ummu_remove_tokenval tv (entry_seg n)]"
      unfolding s t(1) by (simp add: ungrant_step_def)
    with x y z show ?thesis by (intro exI [of _ n']) (simp only:)
  qed
qed

section \<open>Granting and ungranting in entry mode\<close>

text \<open>An entry node has room for one segment: a request is possible when nothing is granted, or when it adds
  a second token to the very segment that is.\<close>

definition entry_possible :: "(range \<Rightarrow> seg_info option) \<Rightarrow> range \<Rightarrow> seg_info \<Rightarrow> token_info option \<Rightarrow> bool" where
  "entry_possible m r new tok \<longleftrightarrow> m = Map.empty \<or> m r \<noteq> None \<and> grant_possible m r new tok"

lemma entry_grant_run:
  assumes d: "entry_request d" and n: "entry_ok n"
  shows "if entry_possible (entry_segs n) (entry_range d) (entry_new d) (di_token d)
    then \<exists>opt n'. ummu_entry_param_check n d = opt \<and> opt \<noteq> UMMU_OP_END \<and> ummu_entry_op n (d\<lparr>di_op := opt\<rparr>) = (0, n') \<and> entry_ok n' \<and>
      entry_segs n' = grant_step (entry_segs n) (entry_range d) (entry_new d) (di_token d)
    else ummu_entry_param_check n d = UMMU_OP_END"
proof (cases "entry_segs n = Map.empty")
  case True
  then have g: "grant_step (entry_segs n) (entry_range d) (entry_new d) (di_token d) = [entry_range d \<mapsto> entry_new d]"
    by (simp add: grant_step_def)
  have "di_op (d\<lparr>di_op := UMMU_GRANT\<rparr>) = UMMU_GRANT" "d\<lparr>di_op := UMMU_GRANT\<rparr> = d\<lparr>di_op := di_op (d\<lparr>di_op := UMMU_GRANT\<rparr>)\<rparr>" by simp_all
  from entry_grant_op [OF d this, of n] show ?thesis using True entry_grant_check [OF d, of n] g by (auto simp: entry_possible_def)
next
  case ne: False
  show ?thesis
  proof (cases "entry_segs n (entry_range d) \<noteq> None \<and> grant_possible (entry_segs n) (entry_range d) (entry_new d) (di_token d)")
    case True
    then have c: "entry_segs n (entry_range d) \<noteq> None" "grant_possible (entry_segs n) (entry_range d) (entry_new d) (di_token d)" by blast+
    have "di_op (d\<lparr>di_op := UMMU_ADD_TOKEN\<rparr>) = UMMU_ADD_TOKEN"
      "d\<lparr>di_op := UMMU_ADD_TOKEN\<rparr> = d\<lparr>di_op := di_op (d\<lparr>di_op := UMMU_ADD_TOKEN\<rparr>)\<rparr>" by simp_all
    from entry_add_op [OF d this n ne c] show ?thesis using True ne entry_grant_check [OF d, of n] by (auto simp: entry_possible_def)
  next
    case False
    then have "\<not> entry_possible (entry_segs n) (entry_range d) (entry_new d) (di_token d)" using ne by (simp add: entry_possible_def)
    moreover have "ummu_entry_param_check n d = UMMU_OP_END" using False ne entry_grant_check [OF d, of n] by argo
    ultimately show ?thesis by simp
  qed
qed

lemma ctx_upd_get_entry:
  assumes "ctx_upd ctx tid mi ctx'" "mi_valid mi \<noteq> 0" "mi_mode mi = MAPT_MODE_ENTRY"
  shows "get_mapt_info_by_tid ctx' tid = Some mi"
  using assms by (simp add: ctx_upd_def get_mapt_info_by_tid_def check_mode_ok)

lemma grant_apply_entry:
  assumes e: "mi_mode mi = MAPT_MODE_ENTRY" "mi_block_base mi = EntryBase a n" "queues_ready E mi"
    and o: "ummu_entry_op n d = (0, n')"
  obtains mi' w' where "grant_apply E fd mi d w = Some (0, mi', w')" "queue_frame (mi\<lparr>mi_block_base := EntryBase a n'\<rparr>) mi'"
    "queues_ready E mi'"
proof -
  let ?mi = "mi\<lparr>mi_block_base := EntryBase a n'\<rparr>"
  have x: "run_entry_op mi d = Some (0, ?mi)" using e(2) o by (simp add: run_entry_op_def)
  have q: "queues_ready E ?mi" using e(3) by simp
  obtain mi' w' where i: "ummu_grant_imp E fd mi d w = Some (0, mi', w')" "queue_frame ?mi mi'" "queues_ready E mi'"
  proof (cases "di_op d = UMMU_ADD_TOKEN")
    case True
    obtain mi' w' where "ummu_plbi_va_cmd E fd ?mi d w = Some (mi', w')" "queues_ready E mi'" "queue_frame ?mi mi'"
      by (rule plbi_va_cmd_ready [OF q])
    with True x e(1) show thesis by (intro that [of mi' w']) (simp_all add: ummu_grant_imp_def)
  next
    case False
    with x e(1) q show thesis by (intro that [of ?mi w]) (simp_all add: ummu_grant_imp_def)
  qed
  moreover have "ummu_update_info E (di_op d) mi' d w' = Some (0, mi', w')"
    using queue_frame_fields [OF i(2)] e(1) by (simp add: ummu_update_info_def ummu_consts)
  ultimately show thesis by (intro that) (simp_all add: grant_apply_def)
qed

lemma grant_entry_mode:
  assumes g: "get_mapt_info_by_tid ctx tid = Some mi" and e: "mi_mode mi = MAPT_MODE_ENTRY" "mi_block_base mi = EntryBase a n"
      "entry_ok n" "queues_ready E mi" "mi_valid mi \<noteq> 0"
  obtains ret ctx' tok w' mi' n' where
    "ummu_grant E junk (Some ctx) tid data sz perm (Some attr) w = Some (ret, Some ctx', Some (attr\<lparr>sa_token := tok\<rparr>), w')"
    "ctx_upd ctx tid mi' ctx'" "mi_mode mi' = MAPT_MODE_ENTRY" "mi_block_base mi' = EntryBase a n'" "entry_ok n'"
    "queues_ready E mi'" "mi_valid mi' \<noteq> 0" "ret \<in> {0, - EINVAL}"
    "let d = junk\<lparr>di_data := data, di_data_size := sz, di_perm := perm, di_token := sa_token attr, di_e_bit := sa_e_bit attr\<rparr> in
       (tok = sa_token attr \<or> tok = di_token (snd (fst (ummu_perm_data_preproc E d w)))) \<and>
       (ret = 0 \<longleftrightarrow> ummu_check_data d MAPT_MODE_ENTRY = 0 \<and> fst (fst (ummu_perm_data_preproc E d w)) = 0 \<and>
         entry_possible (entry_segs n) (Range data (sz - 1)) (segment data sz perm (sa_e_bit attr) tok) tok)"
    "entry_segs n' = (if ret = 0 then grant_step (entry_segs n) (Range data (sz - 1)) (segment data sz perm (sa_e_bit attr) tok) tok
       else entry_segs n)"
proof -
  define d where "d = junk\<lparr>di_data := data, di_data_size := sz, di_perm := perm, di_token := sa_token attr, di_e_bit := sa_e_bit attr\<rparr>"
  note unchanged = that [OF _ ctx_upd_refl [OF g] e, of "- EINVAL", unfolded d_def [symmetric] Let_def]
  show thesis
  proof (cases rule: grant_run [OF g d_def, where E = E and w = w, unfolded e(1), case_names check token request])
    case check
    then show thesis by (intro unchanged [of "sa_token attr" w]) (simp_all add: errno_defs)
  next
    case (token ret d1 w1)
    then show thesis by (intro unchanged [of "di_token d1" w1]) (simp_all add: errno_defs)
  next
    case (request d1 w1)
    note p = request(2) and f = preproc_fields [OF request(2)]
    have c: "0 < unat sz" "unat data + unat sz \<le> 2 ^ 48" "perm \<in> valid_perms" "sa_e_bit attr \<in> {UMMU_EBIT_OFF, UMMU_EBIT_ON}"
      using request(1) by (simp_all add: check_data_ok d_def)
    have d: "entry_request d1" using f c by (auto simp: entry_request_def request_ok_def d_def)
    have r: "entry_range d1 = Range data (sz - 1)" "entry_new d1 = segment data sz perm (sa_e_bit attr) (di_token d1)"
      using f by (simp_all add: d_def)
    note run = entry_grant_run [OF d e(3), unfolded r]
    have "ummu_grant_check mi d1 = Some (ummu_entry_param_check n d1)" using e by (simp add: ummu_grant_check_def)
    note start = request(3) [OF this]
    show thesis
    proof (cases "entry_possible (entry_segs n) (Range data (sz - 1)) (segment data sz perm (sa_e_bit attr) (di_token d1)) (di_token d1)")
      case False
      then show thesis using start run p by (intro unchanged [of "di_token d1" w1]) (simp_all add: errno_defs)
    next
      case True
      then obtain opt n' where o: "ummu_entry_param_check n d1 = opt" "opt \<noteq> UMMU_OP_END" "ummu_entry_op n (d1\<lparr>di_op := opt\<rparr>) = (0, n')"
        "entry_ok n'" "entry_segs n' = grant_step (entry_segs n) (Range data (sz - 1)) (segment data sz perm (sa_e_bit attr) (di_token d1)) (di_token d1)"
        using run by auto
      obtain mi' w' where i: "grant_apply E (cx_shared_fd ctx) mi (d1\<lparr>di_op := opt\<rparr>) w1 = Some (0, mi', w')"
        "queue_frame (mi\<lparr>mi_block_base := EntryBase a n'\<rparr>) mi'" "queues_ready E mi'"
        by (rule grant_apply_entry [OF e(1,2,4) o(3)])
      have "ummu_grant E junk (Some ctx) tid data sz perm (Some attr) w =
          Some (0, Some (put_mapt ctx tid mi'), Some (attr\<lparr>sa_token := di_token d1\<rparr>), w')" using start o(1,2) i(1) by simp
      then show thesis
        by (rule that [OF _ ctx_upd_put [OF g], where n' = n'])
          (use queue_frame_fields [OF i(2)] e(1,5) i(3) o(4,5) True p request(1) in \<open>simp_all add: d_def [symmetric] Let_def\<close>)
    qed
  qed
qed

lemma ungrant_entry_mode:
  assumes g: "get_mapt_info_by_tid ctx tid = Some mi" and e: "mi_mode mi = MAPT_MODE_ENTRY" "mi_block_base mi = EntryBase a n"
      "entry_ok n" "queues_ready E mi" "mi_valid mi \<noteq> 0"
    and tok: "tok = (if bytoken then Some tv else None)"
  obtains ret ctx' w' mi' n' where
    "ummu_ungrant_data E junk (Some ctx) tid data sz tv bytoken w = Some (ret, Some ctx', w')"
    "ctx_upd ctx tid mi' ctx'" "mi_mode mi' = MAPT_MODE_ENTRY" "mi_block_base mi' = EntryBase a n'" "entry_ok n'"
    "queues_ready E mi'" "mi_valid mi' \<noteq> 0" "ret \<in> {0, - EINVAL, - ENOMEM}"
    "ret = 0 \<longleftrightarrow> sz \<noteq> 0 \<and> ungrant_possible (entry_segs n) (Range data (sz - 1)) tok"
    "entry_segs n' = (if ret = 0 then ungrant_step (entry_segs n) (Range data (sz - 1)) tok else entry_segs n)"
proof -
  define d where "d = junk\<lparr>di_lvl := MAX_LEVEL_INDEX, di_data := data, di_data_size := sz, di_tokenval := tv, di_bytoken := bytoken,
    di_data_base := data, di_data_limit := data + sz - 1\<rparr>"
  note unchanged = that [OF _ ctx_upd_refl [OF g] e]
  have mode: "mi_mode mi \<noteq> MAPT_MODE_TABLE" using e(1) by (simp add: ummu_consts)
  have l: "di_data_limit d = di_data_base d + di_data_size d - 1" and r: "entry_range d = Range data (sz - 1)"
    and tok': "tok = (if di_bytoken d then Some (di_tokenval d) else None)" using tok by (simp_all add: d_def)
  have uc: "ummu_ungrant_check mi d = Some (ummu_entry_ungrant_param_check n d)" using e by (simp add: ummu_ungrant_check_def)
  note check = entry_ungrant_check [OF e(3) l tok', unfolded r]
  show thesis
  proof (cases "sz \<noteq> 0 \<and> ungrant_possible (entry_segs n) (Range data (sz - 1)) tok")
    case False
    have "ummu_ungrant_data E junk (Some ctx) tid data sz tv bytoken w = Some (if sz = 0 then - ENOMEM else - EINVAL, Some ctx, w)"
    proof (cases "sz = 0")
      case nz: False
      then have "ummu_ungrant_check mi d = Some UMMU_OP_END" using False uc check by argo
      with nz show ?thesis using g mode by (simp add: ummu_ungrant_data_def d_def [symmetric] Let_def)
    qed (use g in \<open>simp add: ummu_ungrant_data_def\<close>)
    then show thesis by (rule unchanged) (use False in \<open>auto simp: errno_defs\<close>)
  next
    case True
    let ?opt = "if ungrant_step (entry_segs n) (Range data (sz - 1)) tok (Range data (sz - 1)) = None then UMMU_UNGRANT else UMMU_REMOVE_TOKEN"
    let ?d = "d\<lparr>di_op := ?opt\<rparr>"
    have poss: "ungrant_possible (entry_segs n) (entry_range d) tok" using True r by simp
    have opt: "ummu_entry_ungrant_param_check n d = ?opt" "?opt \<noteq> UMMU_OP_END" using check True by simp_all
    have d': "?d = d\<lparr>di_op := if ungrant_step (entry_segs n) (entry_range d) tok (entry_range d) = None then UMMU_UNGRANT else UMMU_REMOVE_TOKEN\<rparr>"
      by (simp only: r)
    obtain n' where o: "ummu_entry_op n ?d = (0, n')" "entry_ok n'" "entry_segs n' = ungrant_step (entry_segs n) (Range data (sz - 1)) tok"
      using entry_ungrant_op [OF e(3) l tok' poss d'] unfolding r by (elim exE conjE) (rule that)
    let ?mi = "mi\<lparr>mi_block_base := EntryBase a n'\<rparr>"
    have imp: "ummu_ungrant_imp E (cx_shared_fd ctx) mi ?d w = Some (0, ?mi, ?d, w)"
      using e(1,2) o(1) by (simp add: ummu_ungrant_imp_def run_entry_op_def)
    have upd: "ummu_update_info E ?opt ?mi ?d w = Some (0, ?mi, w)" using mode by (simp add: ummu_update_info_def)
    have q: "queues_ready E ?mi" using e(4) by simp
    obtain mi2 w2 where p: "ummu_plbi_va_cmd E (cx_shared_fd ctx) ?mi (plbi_range ?d) w = Some (mi2, w2)" "queues_ready E mi2" "queue_frame ?mi mi2"
      by (rule plbi_va_cmd_ready [OF q])
    note ff = queue_frame_fields [OF p(3)]
    have "ummu_ungrant_data E junk (Some ctx) tid data sz tv bytoken w = Some (0, Some (put_mapt ctx tid mi2), w2)"
      unfolding ummu_ungrant_data_def using g mode True uc opt imp upd p(1) by (simp add: d_def [symmetric] Let_def del: if_split_eq1)
    then show thesis
      by (rule that [OF _ ctx_upd_put [OF g], where n' = n']) (use ff e(1,5) p(2) o(2,3) True in simp_all)
  qed
qed

end
