(* ===== verification/Ummu_Api.thy ===== *)
theory Ummu_Api
  imports Ummu_Entry
begin

text \<open>
  The library as a whole.  \<open>mi_ok\<close> and \<open>ctx_ok\<close> are the invariant of a TID and of the context
  \<^verbatim>\<open>g_ummu_ctx\<close>; \<^verbatim>\<open>ummu_mapt_create\<close> establishes it and every public call keeps it.  \<open>env_ok\<close> collects
  what the library relies on: the driver answers an allocation in the requested mode, with blocks of
  64K or more and queues in their reset state, and fresh block memory holds no valid node.  \<open>malloc\<close> and
  \<open>mmap\<close> may fail at any time.  \<open>api_exec\<close> runs one public call; \<open>reachable\<close> are the contexts a process can
  get to from \<^verbatim>\<open>ummu_init\<close> by any sequence of calls, with a world that may change freely in between, as
  long as no grant has lost the record of its segment (\<open>lost\<close>): the one failure of \<open>malloc\<close> after which
  the records and the permission table disagree.
\<close>

section \<open>Creating and destroying a TID's structures\<close>

definition mi_ok :: "os_env \<Rightarrow> mapt_info \<Rightarrow> bool" where
  "mi_ok E mi \<longleftrightarrow> mi_valid mi \<noteq> 0 \<and> queues_ready E mi \<and>
     (mi_mode mi = MAPT_MODE_ENTRY \<and> (\<exists>a n. mi_block_base mi = EntryBase a n \<and> entry_ok n) \<or> (\<exists>t. table_ok mi t))"

lemma mi_ok_cases:
  assumes "mi_ok E mi"
  obtains (entry) a n where "mi_mode mi = MAPT_MODE_ENTRY" "mi_block_base mi = EntryBase a n" "entry_ok n" "queues_ready E mi" "mi_valid mi \<noteq> 0"
  | (table) t where "table_ok mi t" "mi_mode mi = MAPT_MODE_TABLE" "queues_ready E mi" "mi_valid mi \<noteq> 0"
  using assms unfolding mi_ok_def by (auto elim: table_okE)

lemma mi_ok_entry: "mi_mode mi = MAPT_MODE_ENTRY \<Longrightarrow> mi_block_base mi = EntryBase a n \<Longrightarrow> entry_ok n \<Longrightarrow>
    queues_ready E mi \<Longrightarrow> mi_valid mi \<noteq> 0 \<Longrightarrow> mi_ok E mi"
  by (auto simp: mi_ok_def)

lemma mi_ok_table: "table_ok mi t \<Longrightarrow> queues_ready E mi \<Longrightarrow> mi_valid mi \<noteq> 0 \<Longrightarrow> mi_ok E mi"
  by (auto simp: mi_ok_def)

lemma alloc_first:
  assumes "find_first_zero_bit (tc_level_block_bitmap (wk_ctx s)) MAX_LEVEL_ID_SIZE = Some 0"
    "ummu_alloc_level_block E tid fd r pb s = Some (Some q, s')"
  shows "q = At 0 0"
  using assms unfolding ummu_alloc_level_block_def
  by (auto simp: Let_def MAX_MAPT_ENTRY_INDEX_def split: Option.bind_splits if_splits)

lemma first_table:
  assumes c: "tc_level_block_bitmap ctx = replicate 32 0" "tc_mapt_block_array ctx = replicate 512 None" "tc_block_cnt ctx = 0"
      "65536 \<le> unat (tc_blk_exp_size ctx)"
    and E: "fresh_mem E"
  obtains (fail) s' where "ummu_alloc_level_block E tid fd Local None \<lparr>wk_root = root, wk_ctx = ctx, wk_world = w, wk_lvl = l\<rparr> = Some (None, s')"
      "errno (wk_world s') \<in> {ERANGE, ENOMEM}"
  | (new) q s' where "ummu_alloc_level_block E tid fd Local None \<lparr>wk_root = root, wk_ctx = ctx, wk_world = w, wk_lvl = l\<rparr> = Some (Some q, s')"
      "represents s' {}" "tc_granted_addr_mng (wk_ctx s') = tc_granted_addr_mng ctx"
proof -
  let ?s = "\<lparr>wk_root = root, wk_ctx = ctx, wk_world = w, wk_lvl = l\<rparr>"
  have cs: "tc_block_cnt (wk_ctx ?s) = 0" "tc_level_block_bitmap (wk_ctx ?s) = replicate 32 0"
    "tc_mapt_block_array (wk_ctx ?s) = replicate 512 None" "65536 \<le> unat (tc_blk_exp_size (wk_ctx ?s))"
    using c by simp_all
  note e = empty_ctx_ok [OF cs]
  have ne: "no_empty ?s" using c by (simp add: no_empty_def blk_at_def arr_rd_def)
  have "find (\<lambda>k. \<not> bm_bit (replicate 32 (0::u64)) k) [0..<2048] = Some 0" by (subst upt_conv_Cons) (simp_all add: bm_bit_def del: upt_Suc)
  moreover have b: "BITS_TO_LONGS 2048 = 32" using BITS_TO_LONGS_mult [of 32] by simp
  ultimately have z: "find_first_zero_bit (tc_level_block_bitmap (wk_ctx ?s)) MAX_LEVEL_ID_SIZE = Some 0"
    using find_first_zero_bit_scan [of 2048 "replicate 32 (0::u64)"] c
    by (simp add: MAX_LEVEL_ID_SIZE_def INDEX_MAX_SIZE_def PER_MAPT_LEVEL_BLOCK_CNT_def)
  show thesis
  proof (rule alloc_level_cases [OF e(1,2) vref_lref(2) E, of tid fd None])
    fix s' nb assume "ummu_alloc_level_block E tid fd Local None ?s = Some (None, s')" "errno (wk_world s') \<in> {ERANGE, ENOMEM}"
    then show thesis by (rule fail)
  next
    fix s' t nb
    assume a: "ummu_alloc_level_block E tid fd Local None ?s = Some (Some (lref t 0), s')" "blocks_ok s'" "free_ok s'"
      "\<And>u. live s' u \<longleftrightarrow> live ?s u \<or> u = t" "ec s' t = 0" "\<And>i. i < 512 \<Longrightarrow> tn_valid (nd s' t i) = 0"
      "no_empty ?s \<Longrightarrow> no_empty s'" "tc_granted_addr_mng (wk_ctx s') = tc_granted_addr_mng (wk_ctx ?s)"
    have "lref t 0 = At 0 0" by (rule alloc_first [OF z a(1)])
    then have "t div 4 = 0" "t mod 4 = 0" by (simp_all add: lref_def)
    then have t: "t = 0" by presburger
    have "store_ok s'" using a(2-4,7) ne t by (simp add: store_ok_def)
    then have "represents s' {}" by (rule root_represents) (use a(4-6) e(3) t in auto)
    with a(1,8) show thesis by (intro new) simp_all
  qed
qed

lemma table_ctx_init_ok:
  assumes E: "fresh_mem E" and sz: "65536 \<le> unat (tf_blk_exp_size info)" and m: "mi_mode mi = MAPT_MODE_TABLE"
  obtains (fail) ret w' where "ummu_mapt_table_ctx_init E fd mi info w = Some ((ret, mi), w')" "ret \<noteq> 0"
  | (ok) x w' where "ummu_mapt_table_ctx_init E fd mi info w = Some ((0, mi\<lparr>mi_block_base := x\<rparr>), w')" "table_ok (mi\<lparr>mi_block_base := x\<rparr>) []"
proof -
  obtain ok w1 where k: "c_malloc E w = (ok, w1)" by (rule prod.exhaust)
  obtain ret mng w2 where g: "ummu_create_seg_mng E w1 = ((ret, mng), w2)" by (metis prod.exhaust)
  have mng: "ret = 0 \<and> mng = Some [] \<or> ret = - ENOMEM"
    using g by (auto simp: ummu_create_seg_mng_def ummu_create_seg_tree_def split: if_splits prod.splits)
  show thesis
  proof (cases "ok \<and> ret = 0")
    case False
    then show thesis using k g by (intro fail [of "- ENOMEM" "if ok then w2 else w1"]) (auto simp: ummu_mapt_table_ctx_init_def errno_defs)
  next
    case True
    define ctx where "ctx = zero_table_ctx\<lparr>tc_granted_addr_mng := mng, tc_expan := tf_hw_cap info AND HW_CAP_EXPAN \<noteq> 0,
      tc_blk_exp_size := tf_blk_exp_size info\<rparr>"
    have c: "tc_level_block_bitmap ctx = replicate 32 0" "tc_mapt_block_array ctx = replicate 512 None" "tc_block_cnt ctx = 0"
      "65536 \<le> unat (tc_blk_exp_size ctx)" "tc_granted_addr_mng ctx = Some []"
      using sz mng True by (simp_all add: ctx_def zero_table_ctx_def INDEX_LEVEL_BITMAP_SIZE_def MAX_LEVEL_ID_SIZE_def INDEX_MAX_SIZE_def
          PER_MAPT_LEVEL_BLOCK_CNT_def drop_bit_eq_div errno_defs)
    let ?s = "\<lparr>wk_root = zero_table_node, wk_ctx = ctx, wk_world = w2, wk_lvl = 0\<rparr>"
    have start: "ummu_mapt_table_ctx_init E fd mi info w = do {
       (root, s) \<leftarrow> ummu_alloc_level_block E (mi_tid mi) fd Local None ?s;
       if root = None then Some ((- errno (wk_world s), mi), wk_world s)
       else Some ((0, mi\<lparr>mi_block_base := TableBase (wk_ctx s)\<rparr>), wk_world s) }"
      using k g True by (simp add: ummu_mapt_table_ctx_init_def ctx_def Let_def)
    show thesis
    proof (rule first_table [OF c(1-4) E, of "mi_tid mi" fd zero_table_node w2 0])
      fix s' assume "ummu_alloc_level_block E (mi_tid mi) fd Local None ?s = Some (None, s')" "errno (wk_world s') \<in> {ERANGE, ENOMEM}"
      then show thesis using start by (intro fail [of "- errno (wk_world s')" "wk_world s'"]) (auto simp: errno_defs)
    next
      fix q s' assume a: "ummu_alloc_level_block E (mi_tid mi) fd Local None ?s = Some (Some q, s')" "represents s' {}"
        "tc_granted_addr_mng (wk_ctx s') = tc_granted_addr_mng ctx"
      have "same_tables s' (ctx_walk (wk_ctx s'))" by (simp add: same_tables_def ctx_walk_def)
      with a(2) have "represents (ctx_walk (wk_ctx s')) {}" using represents_same by blast
      with a(3) c(5) m have "table_ok (mi\<lparr>mi_block_base := TableBase (wk_ctx s')\<rparr>) []"
        by (simp add: table_ok_def seg_wf_def grants_of_def)
      with a(1) start show thesis by (intro ok) simp_all
    qed
  qed
qed

text \<open>What the library relies on when the driver hands out a TID.\<close>

definition driver_ok :: "os_env \<Rightarrow> bool" where
  "driver_ok E \<longleftrightarrow> (\<forall>c m info. os_ioctl E c UMMU_IOCALLOC_TID (zero_tid_info\<lparr>tf_mode := m, tf_dev := - 1\<rparr>) = (0, info) \<longrightarrow>
     tf_mode info = m \<and> 65536 \<le> unat (tf_blk_exp_size info) \<and> fresh_queues_ok E info)"

text \<open>A new TID: nothing is granted.\<close>

definition fresh_mapt :: "mapt_info \<Rightarrow> bool" where
  "fresh_mapt mi \<longleftrightarrow> (case mi_block_base mi of
     NoBase \<Rightarrow> False
   | EntryBase a n \<Rightarrow> en_valid n = 0
   | TableBase ctx \<Rightarrow> tc_granted_addr_mng ctx = Some [])"

text \<open>The structure of the mode is made on top of the queues; when that fails, the queues go again.\<close>

lemma mapt_init_ok:
  assumes E: "fresh_mem E" and sz: "65536 \<le> unat (tf_blk_exp_size info)" and m: "mi_mode mi \<in> {MAPT_MODE_ENTRY, MAPT_MODE_TABLE}"
    and r: "queues_ready E mi" "mi_valid mi \<noteq> 0"
  obtains ret x w' where "(if mi_mode mi = MAPT_MODE_ENTRY then Some (ummu_mapt_entry_init E fd mi w)
      else ummu_mapt_table_ctx_init E fd mi info w) = Some ((ret, mi\<lparr>mi_block_base := x\<rparr>), w')"
    "ret = 0 \<Longrightarrow> mi_ok E (mi\<lparr>mi_block_base := x\<rparr>)" "ret = 0 \<Longrightarrow> fresh_mapt (mi\<lparr>mi_block_base := x\<rparr>)"
proof -
  have same: "mi = mi\<lparr>mi_block_base := mi_block_base mi\<rparr>" by simp
  show thesis
  proof (cases "mi_mode mi = MAPT_MODE_ENTRY")
    case True
    obtain a w2 where g: "ummu_get_core_buf E (mi_tid mi) BASE_MODE_ENTRY_BLOCK BLOCK_SIZE_4K fd 0 w = (a, w2)" by (rule prod.exhaust)
    let ?x = "if CORE_BUF_CHECK_INVALID a then mi_block_base mi else EntryBase a ((os_entry_mem E (clock w))\<lparr>en_valid := 0, en_nonce := 0\<rparr>)"
    show thesis
      by (rule that [of "if CORE_BUF_CHECK_INVALID a then - ENOMEM else 0" ?x w2])
        (use True g r in \<open>auto simp: ummu_mapt_entry_init_def mi_ok_def entry_ok_def fresh_mapt_def zero_entry_node_def entry_of_words_def errno_defs\<close>)
  next
    case False
    then have t: "mi_mode mi = MAPT_MODE_TABLE" using m by simp
    show thesis
    proof (rule table_ctx_init_ok [OF E sz t, of fd w])
      fix ret w' assume "ummu_mapt_table_ctx_init E fd mi info w = Some ((ret, mi), w')" "ret \<noteq> 0"
      with False show thesis by (intro that [of ret "mi_block_base mi" w']) simp_all
    next
      fix x w' assume x: "ummu_mapt_table_ctx_init E fd mi info w = Some ((0, mi\<lparr>mi_block_base := x\<rparr>), w')"
        "table_ok (mi\<lparr>mi_block_base := x\<rparr>) []"
      have "mi_ok E (mi\<lparr>mi_block_base := x\<rparr>)" using x(2) r by (intro mi_ok_table) simp_all
      moreover have "fresh_mapt (mi\<lparr>mi_block_base := x\<rparr>)" using x(2) by (auto simp: fresh_mapt_def elim!: table_okE)
      ultimately show thesis using False x(1) by (intro that [of 0 x w']) simp_all
    qed
  qed
qed

lemma mapt_create_ok:
  assumes E: "fresh_mem E" and f: "fresh_queues_ok E info" and sz: "65536 \<le> unat (tf_blk_exp_size info)"
    and m: "tf_mode info \<in> {MAPT_MODE_ENTRY, MAPT_MODE_TABLE}"
  obtains (fail) w' where "ummu_mapt_create E fd info w = Some (None, w')"
  | (ok) mi w' where "ummu_mapt_create E fd info w = Some (Some mi, w')" "mi_ok E mi" "mi_mode mi = tf_mode info" "mi_tid mi = tf_tid info"
      "fresh_mapt mi"
proof -
  obtain mem w1 where k: "c_malloc E w = (mem, w1)" by (rule prod.exhaust)
  define mi where "mi = \<lparr>mi_block_base = NoBase, mi_tid = tf_tid info, mi_valid = 1, mi_double_plbi = ucast (tf_hw_cap info AND HW_CAP_DOUBLE_PLBI),
    mi_kcmd_plbi = ucast (tf_hw_cap info AND HW_CAP_KCMD_PLBI), mi_mode = tf_mode info, mi_queue_ctx = zero_queue_ctx\<rparr>"
  have alloc: "ummu_alloc_mapt_mem E info w = (if mem then Some mi else None, w1)"
    using k by (simp add: ummu_alloc_mapt_mem_def mi_def)
  show thesis
  proof (cases mem)
    case False
    then show thesis using alloc by (intro fail [of w1]) (simp add: ummu_mapt_create_def)
  next
    case mem: True
    show thesis
    proof (rule queue_create_ok [OF f, of mi fd w1])
      fix w2 assume "ummu_queue_create E mi info fd w1 = Some ((- ENOMEM, mi), w2)"
      then show thesis using alloc mem by (intro fail [of w2]) (simp add: ummu_mapt_create_def errno_defs)
    next
      fix qc w2
      let ?mi = "mi\<lparr>mi_queue_ctx := qc\<rparr>"
      assume q: "ummu_queue_create E mi info fd w1 = Some ((0, ?mi), w2)" and r: "queues_ready E ?mi"
      have m1: "mi_mode ?mi \<in> {MAPT_MODE_ENTRY, MAPT_MODE_TABLE}" "mi_valid ?mi \<noteq> 0" using m by (simp_all add: mi_def)
      obtain ret x w3 where i: "(if mi_mode ?mi = MAPT_MODE_ENTRY then Some (ummu_mapt_entry_init E fd ?mi w2)
          else ummu_mapt_table_ctx_init E fd ?mi info w2) = Some ((ret, ?mi\<lparr>mi_block_base := x\<rparr>), w3)"
        "ret = 0 \<Longrightarrow> mi_ok E (?mi\<lparr>mi_block_base := x\<rparr>)" "ret = 0 \<Longrightarrow> fresh_mapt (?mi\<lparr>mi_block_base := x\<rparr>)"
        by (rule mapt_init_ok [OF E sz m1(1) r m1(2), of fd w2]) (rule that; blast)
      have start: "ummu_mapt_create E fd info w = (if ret \<noteq> 0 then do { (_, w4) \<leftarrow> ummu_queue_destroy E fd (?mi\<lparr>mi_block_base := x\<rparr>) w3; Some (None, w4) }
          else Some (Some (?mi\<lparr>mi_block_base := x\<rparr>), w3))"
        unfolding ummu_mapt_create_def using alloc mem q i(1) by (simp del: if_split_eq1)
      show thesis
      proof (cases "ret = 0")
        case True
        with i start show thesis by (intro ok) (simp_all add: mi_def)
      next
        case False
        have "queues_ready E (?mi\<lparr>mi_block_base := x\<rparr>)" using r by simp
        from queue_destroy_ok [OF this, of fd w3] obtain mi4 w4 where "ummu_queue_destroy E fd (?mi\<lparr>mi_block_base := x\<rparr>) w3 = Some (mi4, w4)" by blast
        with False start show thesis by (intro fail [of w4]) simp
      qed
    qed
  qed
qed

lemma fold_opt_total:
  assumes "\<And>x s. x \<in> set xs \<Longrightarrow> P s \<Longrightarrow> \<exists>s'. f x s = Some s' \<and> P s'"
  shows "P s \<Longrightarrow> \<exists>s'. fold_opt f xs s = Some s' \<and> P s'"
  using assms
proof (induction xs arbitrary: s)
  case (Cons x xs)
  then obtain s1 where "f x s = Some s1" "P s1" by (metis list.set_intros(1))
  with Cons show ?case by auto
qed simp

lemma filter_upt_four:
  "filter P [0..<4 * Suc m] = filter P [0..<4 * m] @ filter P [4 * m, Suc (4 * m), Suc (Suc (4 * m)), Suc (Suc (Suc (4 * m)))]"
  by (simp add: upt_add_eq_append [of 0 "4 * m" 4, simplified] add.commute [of 4] numeral_eq_Suc)

lemma uninit_step_inner:
  "idx mod 4 \<noteq> 0 \<Longrightarrow> uninit_step sz idx (arr, w) = Some (arr, w)"
  by (simp add: uninit_step_def PER_MAPT_LEVEL_BLOCK_CNT_def Let_def)

lemma uninit_step_first:
  "b < length arr \<Longrightarrow> uninit_step sz (4 * b) (arr, w) = Some (arr[b := None],
     case arr ! b of None \<Rightarrow> w | Some blk \<Rightarrow> sys_munmap (mb_block_addr blk) sz w)"
  by (simp add: uninit_step_def PER_MAPT_LEVEL_BLOCK_CNT_def Let_def arr_rd_def arr_wr_def ummu_free_core_buf_def split: option.split)

text \<open>One pass over the first \<open>4 * m\<close> level tables.\<close>

lemma uninit_fold:
  assumes "\<And>b. P (4 * b) \<Longrightarrow> b < length arr \<Longrightarrow> arr ! b \<noteq> None"
  shows "m \<le> length arr \<Longrightarrow> \<exists>arr' w'. fold_opt (uninit_step sz) (filter P [0..<4 * m]) (arr, w) = Some (arr', w') \<and>
     length arr' = length arr \<and> (\<forall>b. m \<le> b \<longrightarrow> b < length arr \<longrightarrow> arr' ! b = arr ! b) \<and>
     trace w' = trace w @ map (\<lambda>b. SysMunmap (mb_block_addr (the (arr ! b))) sz) (filter (\<lambda>b. P (4 * b)) [0..<m])"
proof (induction m)
  case (Suc m)
  then obtain arr1 w1 where i: "fold_opt (uninit_step sz) (filter P [0..<4 * m]) (arr, w) = Some (arr1, w1)"
    "length arr1 = length arr" "\<forall>b. m \<le> b \<longrightarrow> b < length arr \<longrightarrow> arr1 ! b = arr ! b"
    "trace w1 = trace w @ map (\<lambda>b. SysMunmap (mb_block_addr (the (arr ! b))) sz) (filter (\<lambda>b. P (4 * b)) [0..<m])" by auto
  have skip: "fold_opt (uninit_step sz) (filter P [Suc (4 * m), Suc (Suc (4 * m)), Suc (Suc (Suc (4 * m)))]) s = Some s" for s
  proof -
    have "Suc (4 * m) mod 4 \<noteq> 0" "Suc (Suc (4 * m)) mod 4 \<noteq> 0" "Suc (Suc (Suc (4 * m))) mod 4 \<noteq> 0" by presburger+
    then show ?thesis by (cases s) (simp add: uninit_step_inner)
  qed
  have m: "m < length arr" "arr1 ! m = arr ! m" using Suc.prems i(3) by simp_all
  show ?case
  proof (cases "P (4 * m)")
    case False
    then show ?thesis using i skip unfolding filter_upt_four by (simp add: fold_opt_append del: filter.simps) simp
  next
    case True
    then obtain blk where b: "arr ! m = Some blk" using assms m(1) by blast
    let ?arr = "arr1[m := None]" and ?w = "sys_munmap (mb_block_addr blk) sz w1"
    have "fold_opt (uninit_step sz) (filter P [0..<4 * Suc m]) (arr, w) = Some (?arr, ?w)"
      using True i(1) m skip b uninit_step_first [of m arr1 sz w1] i(2) unfolding filter_upt_four
      by (simp only: fold_opt_append filter.simps(2) [of P "4 * m"]) simp
    moreover have "trace ?w = trace w @ map (\<lambda>b. SysMunmap (mb_block_addr (the (arr ! b))) sz) (filter (\<lambda>b. P (4 * b)) [0..<Suc m])"
      using i(4) True b by simp
    ultimately show ?thesis using i(2,3) by (intro exI [of _ ?arr] exI [of _ ?w]) auto
  qed
qed simp

lemma blocks_ok_mapped:
  assumes "blocks_ok s" "b < 512" "live s (4 * b)"
  shows "blk_at b s \<noteq> None"
proof
  assume "blk_at b s = None"
  with assms(1,2) have "\<forall>k < 4. \<not> live s (4 * b + k)" unfolding blocks_ok_def by (auto split: option.splits)
  then show False using assms(3) by (metis add.right_neutral zero_less_numeral)
qed

text \<open>The destruction of a TID in table mode unmaps, in order, the blocks whose first level table is in
  use, and only these.\<close>

lemma table_uninit_trace:
  assumes "mi_block_base mi = TableBase ctx" "blocks_ok (ctx_walk ctx)"
  obtains freed w' where "ummu_mapt_table_ctx_uninit mi w = Some (mi\<lparr>mi_block_base := NoBase\<rparr>, freed, w')"
    "trace w' = trace w @ map (\<lambda>b. SysMunmap (mb_block_addr (the (blk_at b (ctx_walk ctx)))) (tc_blk_exp_size ctx))
       (filter (\<lambda>b. live (ctx_walk ctx) (4 * b)) [0..<512])"
proof -
  let ?s = "ctx_walk ctx" and ?bm = "tc_level_block_bitmap ctx" and ?arr = "tc_mapt_block_array ctx" and ?sz = "tc_blk_exp_size ctx"
  from blocks_ok_lengths [OF assms(2)] have l: "length ?bm = 32" "length ?arr = 512" by (simp_all add: ctx_walk_def)
  have live: "live ?s (4 * b) \<longleftrightarrow> bm_bit ?bm (4 * b)" if "b < 512" for b using that by (simp add: live_def ctx_walk_def)
  have at: "blk_at b ?s = ?arr ! b" if "b < 512" for b using that l by (simp add: blk_at_def ctx_walk_def arr_rd_def)
  have "?arr ! b \<noteq> None" if "bm_bit ?bm (4 * b)" "b < length ?arr" for b
    using that l at live blocks_ok_mapped [OF assms(2), of b] by simp
  from uninit_fold [where P = "bm_bit ?bm" and m = 512 and arr = ?arr and sz = ?sz and w = w, OF this] l obtain arr' w' where
    f: "fold_opt (uninit_step ?sz) (filter (bm_bit ?bm) [0..<64 * 32]) (?arr, w) = Some (arr', w')"
    "trace w' = trace w @ map (\<lambda>b. SysMunmap (mb_block_addr (the (?arr ! b))) ?sz) (filter (\<lambda>b. bm_bit ?bm (4 * b)) [0..<512])"
    by auto
  have n: "MAX_LEVEL_ID_SIZE = 64 * 32" by (simp add: MAX_LEVEL_ID_SIZE_def INDEX_MAX_SIZE_def PER_MAPT_LEVEL_BLOCK_CNT_def)
  have "FOR_EACH_SET_BIT ?bm MAX_LEVEL_ID_SIZE (uninit_step ?sz) (?arr, w) = Some (arr', w')"
    unfolding n using l f(1) FOR_EACH_SET_BIT_eq [of "64 * 32" 32 ?bm "uninit_step ?sz" "(?arr, w)"] by simp
  then have u: "ummu_mapt_table_ctx_uninit mi w =
     Some (mi\<lparr>mi_block_base := NoBase\<rparr>, case tc_granted_addr_mng ctx of None \<Rightarrow> [] | Some t \<Rightarrow> snd (ummu_destroy_seg_mng t), w')"
    using assms(1) by (simp add: ummu_mapt_table_ctx_uninit_def)
  have "filter (\<lambda>b. bm_bit ?bm (4 * b)) [0..<512] = filter (\<lambda>b. live ?s (4 * b)) [0..<512]" using live by (intro filter_cong) auto
  moreover have "map (\<lambda>b. SysMunmap (mb_block_addr (the (?arr ! b))) ?sz) (filter (\<lambda>b. live ?s (4 * b)) [0..<512]) =
     map (\<lambda>b. SysMunmap (mb_block_addr (the (blk_at b ?s))) ?sz) (filter (\<lambda>b. live ?s (4 * b)) [0..<512])" using at by (intro map_cong) auto
  ultimately have "trace w' = trace w @ map (\<lambda>b. SysMunmap (mb_block_addr (the (blk_at b ?s))) ?sz) (filter (\<lambda>b. live ?s (4 * b)) [0..<512])"
    using f(2) by (simp only:)
  then show thesis by (rule that [OF u])
qed

lemma table_uninit_ok:
  assumes "table_ok mi t"
  shows "\<exists>freed w'. ummu_mapt_table_ctx_uninit mi w = Some (mi\<lparr>mi_block_base := NoBase\<rparr>, freed, w')"
proof -
  from assms obtain ctx where c: "mi_block_base mi = TableBase ctx" "represents (ctx_walk ctx) (grants_of (map_of t))" by (rule table_okE)
  then have "blocks_ok (ctx_walk ctx)" by (simp add: represents_def mapt_ok_def store_ok_def)
  with c(1) show ?thesis by (rule table_uninit_trace) blast
qed

lemma mapt_destroy_ok:
  assumes "mi_ok E mi"
  shows "\<exists>w'. ummu_mapt_destroy E fd mi w = Some w'"
  using assms
proof (cases rule: mi_ok_cases)
  case (entry a n)
  from queue_destroy_ok [OF entry(4), of fd "ummu_free_core_buf BASE_MODE_ENTRY_BLOCK a 0 w"] entry show ?thesis
    by (auto simp: ummu_mapt_destroy_def ummu_mapt_entry_uninit_def)
next
  case (table t)
  from table_uninit_ok [OF table(1), of w] obtain freed w1 where
    u: "ummu_mapt_table_ctx_uninit mi w = Some (mi\<lparr>mi_block_base := NoBase\<rparr>, freed, w1)" by blast
  have "queues_ready E (mi\<lparr>mi_block_base := NoBase\<rparr>)" using table(3) by simp
  from queue_destroy_ok [OF this, of fd w1] u table(2) show ?thesis by (auto simp: ummu_mapt_destroy_def ummu_consts)
qed

section \<open>The context\<close>

definition ctx_ok :: "os_env \<Rightarrow> ummu_ctx_info \<Rightarrow> bool" where
  "ctx_ok E ctx \<longleftrightarrow> map_wf (cx_mapt_map ctx) \<and> (\<forall>tid mi. ummu_map_get (cx_mapt_map ctx) tid = Some mi \<longrightarrow> mi_ok E mi)"

lemma mi_ok_ready: "mi_ok E mi \<Longrightarrow> queues_ready E mi" "mi_ok E mi \<Longrightarrow> mi_valid mi \<noteq> 0"
  by (simp_all add: mi_ok_def)

lemma ctx_ok_upd: "ctx_ok E ctx \<Longrightarrow> ctx_upd ctx tid mi ctx' \<Longrightarrow> mi_ok E mi \<Longrightarrow> ctx_ok E ctx'"
  by (auto simp: ctx_ok_def ctx_upd_def split: if_splits)

lemma ctx_ok_get: "ctx_ok E ctx \<Longrightarrow> get_mapt_info_by_tid ctx tid = Some mi \<Longrightarrow> mi_ok E mi"
  by (auto simp: ctx_ok_def dest: get_mapt_info_SomeD)

text \<open>What the library relies on: the driver and zeroed block memory.\<close>

definition env_ok :: "os_env \<Rightarrow> bool" where
  "env_ok E \<longleftrightarrow> driver_ok E \<and> fresh_mem E"

lemma env_mem: "env_ok E \<Longrightarrow> fresh_mem E"
  by (simp add: env_ok_def)

lemma allocate_ok:
  assumes c: "ctx_ok E ctx" and E: "driver_ok E" "fresh_mem E"
  obtains (fail) ret w' where "ummu_allocate_tid E (Some ctx) mode null w = Some (ret, Some ctx, None, w')" "ret \<noteq> 0"
      "\<forall>m info w1. mode = Some m \<and> ummu_check_input_param m null = 0 \<and>
         ummu_get_tid E (cx_shared_fd ctx) (zero_tid_info\<lparr>tf_mode := m\<rparr>) w = ((0, info), w1) \<longrightarrow>
         (\<exists>w2. w' = ummu_put_tid E (cx_shared_fd ctx) (tf_tid info) w2)"
  | (ok) tid mi ctx' w' where "ummu_allocate_tid E (Some ctx) mode null w = Some (0, Some ctx', Some tid, w')"
      "ummu_map_get (cx_mapt_map ctx) tid = None" "ctx_upd ctx tid mi ctx'" "mi_ok E mi"
      "mode = Some (mi_mode mi)" "fresh_mapt mi" "mi_tid mi = tid"
proof (cases mode)
  case None
  then show thesis by (intro fail [of "- EINVAL" w]) (simp_all add: ummu_allocate_tid_def errno_defs)
next
  case (Some m)
  show thesis
  proof (cases "ummu_check_input_param m null = 0")
    case False
    with Some show thesis by (intro fail [of "ummu_check_input_param m null" w]) (simp_all add: ummu_allocate_tid_def)
  next
    case True
    then have m: "m \<in> {MAPT_MODE_ENTRY, MAPT_MODE_TABLE}"
      by (auto simp: ummu_check_input_param_def check_mode_ok Let_def split: if_splits)
    obtain ret1 info w1 where g: "ummu_get_tid E (cx_shared_fd ctx) (zero_tid_info\<lparr>tf_mode := m\<rparr>) w = ((ret1, info), w1)" by (metis prod.exhaust)
    show thesis
    proof (cases "ret1 = 0")
      case False
      with Some True g show thesis by (intro fail [of ret1 w1]) (simp_all add: ummu_allocate_tid_def)
    next
      case ret1: True
      obtain r2 i2 where io: "os_ioctl E (clock w) UMMU_IOCALLOC_TID ((zero_tid_info\<lparr>tf_mode := m\<rparr>)\<lparr>tf_dev := - 1\<rparr>) = (r2, i2)" by (rule prod.exhaust)
      have "r2 = 0 \<and> i2 = info" using g ret1 io by (auto simp: ummu_get_tid_def sys_ioctl_def errno_defs split: if_splits)
      then have "os_ioctl E (clock w) UMMU_IOCALLOC_TID ((zero_tid_info\<lparr>tf_mode := m\<rparr>)\<lparr>tf_dev := - 1\<rparr>) = (0, info)" using io by simp
      with E(1) have d: "tf_mode info = m" "65536 \<le> unat (tf_blk_exp_size info)" "fresh_queues_ok E info"
        unfolding driver_ok_def by fastforce+
      have md: "tf_mode info \<in> {MAPT_MODE_ENTRY, MAPT_MODE_TABLE}" using m d(1) by simp
      have start: "ummu_allocate_tid E (Some ctx) mode null w = do {
          (created, w2) \<leftarrow> ummu_mapt_create E (cx_shared_fd ctx) info w1;
          case created of
            None \<Rightarrow> Some (- ENOMEM, Some ctx, None, ummu_put_tid E (cx_shared_fd ctx) (tf_tid info) w2)
          | Some mi \<Rightarrow>
              (let (ret2, m') = ummu_map_insert (cx_mapt_map ctx) (tf_tid info) mi in
               if ret2 \<noteq> 0 then do {
                 w3 \<leftarrow> ummu_mapt_destroy E (cx_shared_fd ctx) mi w2;
                 Some (ret2, Some ctx, None, ummu_put_tid E (cx_shared_fd ctx) (tf_tid info) w3) }
               else Some (0, Some (ctx\<lparr>cx_mapt_map := m'\<rparr>), Some (tf_tid info), w2)) }"
        using Some True g ret1 by (simp add: ummu_allocate_tid_def)
      have returned: "\<forall>m' info' w1'. mode = Some m' \<and> ummu_check_input_param m' null = 0 \<and>
          ummu_get_tid E (cx_shared_fd ctx) (zero_tid_info\<lparr>tf_mode := m'\<rparr>) w = ((0, info'), w1') \<longrightarrow>
          (\<exists>w3. ummu_put_tid E (cx_shared_fd ctx) (tf_tid info) w2 = ummu_put_tid E (cx_shared_fd ctx) (tf_tid info') w3)" for w2
        using Some g by auto
      show thesis
      proof (rule mapt_create_ok [OF E(2) d(3,2) md, of "cx_shared_fd ctx" w1])
        fix w2 assume "ummu_mapt_create E (cx_shared_fd ctx) info w1 = Some (None, w2)"
        then have "ummu_allocate_tid E (Some ctx) mode null w =
            Some (- ENOMEM, Some ctx, None, ummu_put_tid E (cx_shared_fd ctx) (tf_tid info) w2)" using start by simp
        then show thesis by (rule fail [OF _ _ returned]) (simp add: errno_defs)
      next
        fix mi w2 assume x: "ummu_mapt_create E (cx_shared_fd ctx) info w1 = Some (Some mi, w2)" "mi_ok E mi"
          "mi_mode mi = tf_mode info" "mi_tid mi = tf_tid info" "fresh_mapt mi"
        obtain ret2 m' where i: "ummu_map_insert (cx_mapt_map ctx) (tf_tid info) mi = (ret2, m')" by (rule prod.exhaust)
        have wf: "map_wf (cx_mapt_map ctx)" using c by (simp add: ctx_ok_def)
        note law = hm.ins_law [OF wf i]
        show thesis
        proof (cases "ret2 = 0")
          case False
          from mapt_destroy_ok [OF x(2), of "cx_shared_fd ctx" w2] obtain w3 where "ummu_mapt_destroy E (cx_shared_fd ctx) mi w2 = Some w3" by blast
          then have "ummu_allocate_tid E (Some ctx) mode null w =
              Some (ret2, Some ctx, None, ummu_put_tid E (cx_shared_fd ctx) (tf_tid info) w3)" using start x(1) i False by simp
          then show thesis using False returned by (rule fail)
        next
          case True
          then have n: "ummu_map_get (cx_mapt_map ctx) (tf_tid info) = None" using law by (auto split: if_splits)
          with law have "ctx_upd ctx (tf_tid info) mi (ctx\<lparr>cx_mapt_map := m'\<rparr>)" by (auto simp: ctx_upd_def)
          with start x i True n Some d(1) show thesis by (intro ok) simp_all
        qed
      qed
    qed
  qed
qed

lemma free_ok_call:
  assumes c: "ctx_ok E ctx"
  obtains (no) "ummu_free_tid E (Some ctx) tid w = Some (- EINVAL, Some ctx, w)" "ummu_map_get (cx_mapt_map ctx) tid = None"
  | (yes) ctx' w1 where "ummu_free_tid E (Some ctx) tid w = Some (0, Some ctx', ummu_put_tid E (cx_shared_fd ctx) tid w1)"
      "ctx_ok E ctx'" "cx_shared_fd ctx' = cx_shared_fd ctx"
      "ummu_map_get (cx_mapt_map ctx') = (ummu_map_get (cx_mapt_map ctx))(tid := None)" "ummu_map_get (cx_mapt_map ctx) tid \<noteq> None"
proof (cases "ummu_map_get (cx_mapt_map ctx) tid")
  case None
  then show thesis by (intro no) (simp_all add: ummu_free_tid_def)
next
  case (Some mi)
  then have mi: "mi_ok E mi" using c by (simp add: ctx_ok_def)
  then have v: "mi_valid mi \<noteq> 0" by (simp add: mi_ok_def)
  obtain r m' where d: "ummu_map_del (cx_mapt_map ctx) tid = (r, m')" by (rule prod.exhaust)
  have wf: "map_wf (cx_mapt_map ctx)" using c by (simp add: ctx_ok_def)
  note law = hm.del_law [OF wf d]
  let ?ctx = "ctx\<lparr>cx_mapt_map := m'\<rparr>"
  from mapt_destroy_ok [OF mi, of "cx_shared_fd ctx" w] obtain w1 where "ummu_mapt_destroy E (cx_shared_fd ctx) mi w = Some w1" by blast
  then have "ummu_free_tid E (Some ctx) tid w = Some (0, Some ?ctx, ummu_put_tid E (cx_shared_fd ctx) tid w1)"
    using Some v d by (simp add: ummu_free_tid_def Let_def)
  moreover have "ctx_ok E ?ctx" using c law by (auto simp: ctx_ok_def)
  moreover have "ummu_map_get (cx_mapt_map ?ctx) = (ummu_map_get (cx_mapt_map ctx))(tid := None)" using law by simp
  moreover have "ummu_map_get (cx_mapt_map ctx) tid \<noteq> None" using Some by simp
  ultimately show thesis by - (rule yes [of ?ctx w1], simp_all)
qed

text \<open>Whether a grant loses the record of its segment.\<close>

definition grant_lost :: "os_env \<Rightarrow> data_info \<Rightarrow> ummu_ctx_info \<Rightarrow> u32 \<Rightarrow> u64 \<Rightarrow> u64 \<Rightarrow> u32 \<Rightarrow> seg_attr option \<Rightarrow> world \<Rightarrow> bool" where
  "grant_lost E junk ctx tid data sz perm attr w \<longleftrightarrow> (case (get_mapt_info_by_tid ctx tid, attr) of
     (Some mi, Some a) \<Rightarrow> record_lost E junk (cx_shared_fd ctx) mi data sz perm a w | _ \<Rightarrow> False)"

lemma grant_any:
  assumes c: "ctx_ok E ctx" and E: "fresh_mem E"
  shows "\<exists>ret ctx' attr' w'. ummu_grant E junk (Some ctx) tid data sz perm attr w = Some (ret, Some ctx', attr', w') \<and>
    (\<not> grant_lost E junk ctx tid data sz perm attr w \<longrightarrow> ctx_ok E ctx')"
proof (cases "attr = None \<or> get_mapt_info_by_tid ctx tid = None")
  case True
  with c show ?thesis by (auto simp: ummu_grant_def split: option.splits)
next
  case False
  obtain a where a: "attr = Some a" using False by (cases attr) simp_all
  obtain mi where g: "get_mapt_info_by_tid ctx tid = Some mi" using False by (cases "get_mapt_info_by_tid ctx tid") simp_all
  from ctx_ok_get [OF c g] show ?thesis
  proof (cases rule: mi_ok_cases)
    case (entry b n)
    obtain ret ctx' tok w' mi' n' where x: "ummu_grant E junk (Some ctx) tid data sz perm (Some a) w = Some (ret, Some ctx', Some (a\<lparr>sa_token := tok\<rparr>), w')"
      "ctx_upd ctx tid mi' ctx'" "mi_mode mi' = MAPT_MODE_ENTRY" "mi_block_base mi' = EntryBase b n'" "entry_ok n'"
      "queues_ready E mi'" "mi_valid mi' \<noteq> 0" by (rule grant_entry_mode [OF g entry])
    with ctx_ok_upd [OF c x(2) mi_ok_entry [OF x(3-7)]] a show ?thesis by blast
  next
    case (table t)
    let ?lost = "record_lost E junk (cx_shared_fd ctx) mi data sz perm a w"
    obtain ret ctx' tok w' mi' t' where x: "ummu_grant E junk (Some ctx) tid data sz perm (Some a) w = Some (ret, Some ctx', Some (a\<lparr>sa_token := tok\<rparr>), w')"
      "ctx_upd ctx tid mi' ctx'" "if ?lost then ret = - ENOMEM \<and> unrecorded mi' t t' else table_ok mi' t'" "queues_ready E mi'" "mi_valid mi' \<noteq> 0"
      by (rule grant_table_mode [OF g table(1,3) E, of junk data sz perm a w])
    have "ctx_ok E ctx'" if "\<not> ?lost" using that x(3) ctx_ok_upd [OF c x(2) mi_ok_table [OF _ x(4,5)]] by simp
    with x(1) a g show ?thesis by (auto simp: grant_lost_def)
  qed
qed

lemma ungrant_any:
  assumes c: "ctx_ok E ctx" and E: "fresh_mem E"
  shows "\<exists>ret ctx' w'. ummu_ungrant_data E junk (Some ctx) tid data sz tv bytoken w = Some (ret, Some ctx', w') \<and> ctx_ok E ctx'"
proof (cases "get_mapt_info_by_tid ctx tid")
  case None
  with c show ?thesis by (auto simp: ummu_ungrant_data_def)
next
  case (Some mi)
  from ctx_ok_get [OF c Some] show ?thesis
  proof (cases rule: mi_ok_cases)
    case (entry b n)
    obtain ret ctx' w' mi' n' where x: "ummu_ungrant_data E junk (Some ctx) tid data sz tv bytoken w = Some (ret, Some ctx', w')"
      "ctx_upd ctx tid mi' ctx'" "mi_mode mi' = MAPT_MODE_ENTRY" "mi_block_base mi' = EntryBase b n'" "entry_ok n'"
      "queues_ready E mi'" "mi_valid mi' \<noteq> 0" by (rule ungrant_entry_mode [OF Some entry refl])
    with ctx_ok_upd [OF c x(2) mi_ok_entry [OF x(3-7)]] show ?thesis by blast
  next
    case (table t)
    obtain ret ctx' w' mi' t' where "ummu_ungrant_data E junk (Some ctx) tid data sz tv bytoken w = Some (ret, Some ctx', w')"
      "ctx_upd ctx tid mi' ctx'" "table_ok mi' t'" "queues_ready E mi'" "mi_valid mi' \<noteq> 0"
      by (rule ungrant_table_mode [OF Some table(1,3) E refl])
    with ctx_ok_upd [OF c] mi_ok_table show ?thesis by blast
  qed
qed

section \<open>The library as a state machine\<close>

datatype api_call =
    AllocateTid "u32 option" bool
  | FreeTid u32
  | Grant u32 u64 u64 u32 "seg_attr option"
  | Ungrant u32 u64 u64
  | UngrantByToken u32 u64 u64 u32

definition api_exec :: "os_env \<Rightarrow> data_info \<Rightarrow> api_call \<Rightarrow> ummu_ctx_info \<Rightarrow> world \<Rightarrow> (int \<times> ummu_ctx_info option \<times> world) option" where
  "api_exec E junk c ctx w = (case c of
     AllocateTid mode null \<Rightarrow> do { (ret, g, _, w') \<leftarrow> ummu_allocate_tid E (Some ctx) mode null w; Some (ret, g, w') }
   | FreeTid tid \<Rightarrow> ummu_free_tid E (Some ctx) tid w
   | Grant tid data sz perm attr \<Rightarrow> do { (ret, g, _, w') \<leftarrow> ummu_grant E junk (Some ctx) tid data sz perm attr w; Some (ret, g, w') }
   | Ungrant tid data sz \<Rightarrow> ummu_ungrant E junk (Some ctx) tid data sz w
   | UngrantByToken tid data sz tv \<Rightarrow> ummu_ungrant_by_token E junk (Some ctx) tid data sz tv w)"

definition lost :: "os_env \<Rightarrow> data_info \<Rightarrow> api_call \<Rightarrow> ummu_ctx_info \<Rightarrow> world \<Rightarrow> bool" where
  "lost E junk c ctx w \<longleftrightarrow> (case c of Grant tid data sz perm attr \<Rightarrow> grant_lost E junk ctx tid data sz perm attr w | _ \<Rightarrow> False)"

lemma lost_simps [simp]:
  "\<not> lost E junk (AllocateTid mode null) ctx w" "\<not> lost E junk (FreeTid tid) ctx w" "\<not> lost E junk (Ungrant tid data sz) ctx w"
  "\<not> lost E junk (UngrantByToken tid data sz tv) ctx w"
  "lost E junk (Grant tid data sz perm attr) ctx w \<longleftrightarrow> grant_lost E junk ctx tid data sz perm attr w"
  by (simp_all add: lost_def)

text \<open>Only a \<open>malloc\<close> that fails loses a record.\<close>

lemma not_lost:
  assumes "\<And>n. os_malloc E n"
  shows "\<not> lost E junk c ctx w"
proof -
  have "\<not> record_fails E fd mi di v" for fd mi di v using assms by (simp add: record_fails_def split: option.split prod.split)
  then show ?thesis by (auto simp: lost_def grant_lost_def record_lost_def Let_def split: api_call.splits option.splits prod.splits)
qed

text \<open>The states of a process that uses the library and has lost no record; between calls the world may change
  freely.\<close>

inductive reachable :: "os_env \<Rightarrow> ummu_ctx_info \<Rightarrow> bool" for E where
  init: "ummu_init E f w = Some (level, Some ctx, w') \<Longrightarrow> reachable E ctx"
| call: "reachable E ctx \<Longrightarrow> api_exec E junk c ctx w = Some (ret, Some ctx', w') \<Longrightarrow> \<not> lost E junk c ctx w \<Longrightarrow> reachable E ctx'"

lemma init_empty: "ummu_init E f w = Some (level, Some ctx, w') \<Longrightarrow> cx_mapt_map ctx = [] \<and> 0 \<le> cx_shared_fd ctx"
  by (auto simp: ummu_init_def ummu_new_ctx_def ummu_ctx_init_def ummu_map_create_def create_map_def Let_def
      split: Option.bind_splits if_splits prod.splits)

lemma api_exec_ok:
  assumes c: "ctx_ok E ctx" and E: "env_ok E"
  shows "\<exists>ret ctx' w'. api_exec E junk call ctx w = Some (ret, Some ctx', w') \<and> (\<not> lost E junk call ctx w \<longrightarrow> ctx_ok E ctx')"
proof -
  have d: "driver_ok E" "fresh_mem E" using E by (simp_all add: env_ok_def)
  show ?thesis
proof (cases call)
  case (AllocateTid mode null)
  show ?thesis
  proof (rule allocate_ok [OF c d, of mode null w])
    fix ret w' assume "ummu_allocate_tid E (Some ctx) mode null w = Some (ret, Some ctx, None, w')"
    with c AllocateTid show ?thesis by (simp add: api_exec_def)
  next
    fix tid mi ctx' w' assume "ummu_allocate_tid E (Some ctx) mode null w = Some (0, Some ctx', Some tid, w')" "ctx_upd ctx tid mi ctx'" "mi_ok E mi"
    with ctx_ok_upd [OF c] AllocateTid show ?thesis by (simp add: api_exec_def)
  qed
next
  case (FreeTid tid)
  show ?thesis
  proof (rule free_ok_call [OF c, of tid w])
    assume "ummu_free_tid E (Some ctx) tid w = Some (- EINVAL, Some ctx, w)"
    with FreeTid c show ?thesis by (simp add: api_exec_def)
  next
    fix ctx' w1 assume "ummu_free_tid E (Some ctx) tid w = Some (0, Some ctx', ummu_put_tid E (cx_shared_fd ctx) tid w1)" "ctx_ok E ctx'"
    with FreeTid show ?thesis by (simp add: api_exec_def)
  qed
next
  case (Grant tid data sz perm attr)
  then show ?thesis using grant_any [OF c d(2), of junk tid data sz perm attr w] by (auto simp: api_exec_def)
next
  case (Ungrant tid data sz)
  then show ?thesis using ungrant_any [OF c d(2)] by (simp add: api_exec_def ummu_ungrant_def)
next
  case (UngrantByToken tid data sz tv)
  then show ?thesis using ungrant_any [OF c d(2)] by (simp add: api_exec_def ummu_ungrant_by_token_def)
qed
qed

lemma reachable_ok: "reachable E ctx \<Longrightarrow> env_ok E \<Longrightarrow> ctx_ok E ctx"
proof (induction rule: reachable.induct)
  case (init f w level ctx w')
  then show ?case using init_empty by (simp add: ctx_ok_def map_wf_def ummu_map_get_def hashmap_get_def)
next
  case (call ctx junk c w ret ctx' w')
  from api_exec_ok [OF call.IH [OF call.prems] call.prems, of junk c w] call.hyps(2,3) show ?case by auto
qed

section \<open>What a caller can observe\<close>

definition segs :: "mapt_info \<Rightarrow> range \<Rightarrow> seg_info option" where
  "segs mi = (case mi_block_base mi of
     TableBase ctx \<Rightarrow> (case tc_granted_addr_mng ctx of Some t \<Rightarrow> map_of t | None \<Rightarrow> Map.empty)
   | EntryBase a n \<Rightarrow> entry_segs n
   | NoBase \<Rightarrow> Map.empty)"

definition in_range :: "range \<Rightarrow> nat \<Rightarrow> bool" where
  "in_range r x \<longleftrightarrow> unat (rleft r) \<le> x \<and> x \<le> unat (rright r)"

lemma table_ok_segs: "table_ok mi t \<Longrightarrow> segs mi = map_of t"
  by (auto simp: segs_def elim!: table_okE)

lemma access_seg: "table_ok mi t \<Longrightarrow> segs mi r = Some s \<Longrightarrow> in_range r x \<Longrightarrow> access mi x = Some (attrs_of_seg s)"
  using table_ok_access [of mi t x "attrs_of_seg s"] by (auto simp: table_ok_segs in_range_def)

lemma access_segD:
  assumes "table_ok mi t" "access mi x = Some g"
  obtains r s where "segs mi r = Some s" "in_range r x" "g = attrs_of_seg s"
  using table_ok_access [OF assms(1), of x g] assms by (auto simp: table_ok_segs in_range_def)

lemma segs_disjoint:
  assumes t: "table_ok mi t" and m: "segs mi r = Some s" "segs mi q = Some v" and x: "in_range r x" "in_range q x"
  shows "q = r"
proof (rule ccontr)
  assume "q \<noteq> r"
  then have ne: "(unat (rleft q), unat (rright q)) \<noteq> (unat (rleft r), unat (rright r))" using range_eqI [of q r] by blast
  from t obtain ctx where rep: "represents (ctx_walk ctx) (grants_of (map_of t))" by (rule table_okE)
  have g: "(unat (rleft r), unat (rright r), attrs_of_seg s) \<in> grants_of (map_of t)"
    "(unat (rleft q), unat (rright q), attrs_of_seg v) \<in> grants_of (map_of t)"
    using m grants_of_mem by (auto simp: table_ok_segs [OF t])
  show False using apartD [OF same_range(2) [OF rep g ne]] x unfolding in_range_def by blast
qed

text \<open>In entry mode too, what can be accessed is what the record of the segment says.\<close>

lemma entry_access_segs:
  "entry_access n x = Some g \<longleftrightarrow> (\<exists>r s. entry_segs n r = Some s \<and> in_range r x \<and> g = attrs_of_seg s)"
proof -
  have "attrs_of_seg (entry_seg n) = \<lparr>ga_perm = en_permission n, ga_ebit = en_e_bit n,
       ga_tokens = (if en_token_check n = 1 then Some (en_token_val_0 n, en_token_val_1 n, en_nonce n) else None)\<rparr>"
    by (simp add: attrs_of_seg_def entry_seg_def Let_def ucast_back)
  moreover have "in_range (Range (en_base n) (en_limit n - en_base n)) x \<longleftrightarrow> unat (en_base n) \<le> x \<and> x \<le> unat (en_limit n)"
    by (simp add: in_range_def Range_def)
  ultimately show ?thesis by (auto simp: entry_access_def entry_segs_def)
qed

lemma entry_access_same:
  assumes "entry_segs n' = entry_segs n"
  shows "entry_access n' = entry_access n"
proof
  fix x
  have "entry_access n' x = Some y \<longleftrightarrow> entry_access n x = Some y" for y unfolding entry_access_segs using assms by simp
  then show "entry_access n' x = entry_access n x" by (rule option_eqI)
qed

lemma entry_access_step:
  assumes s: "entry_segs n' = (entry_segs n)(r := v)" and m: "entry_segs n = Map.empty \<or> entry_segs n r \<noteq> None"
  shows "entry_access n' x = (if in_range r x then map_option attrs_of_seg v else entry_access n x)"
proof -
  have one: "q = r" if "entry_segs n q = Some y" for q y using m that by (auto simp: entry_segs_def split: if_splits)
  have "entry_access n' x = Some g \<longleftrightarrow> (if in_range r x then map_option attrs_of_seg v else entry_access n x) = Some g" for g
    using one by (auto simp: entry_access_segs s)
  then show ?thesis by (rule option_eqI)
qed

text \<open>What a grant in entry mode makes accessible.\<close>

lemma entry_grant_access:
  assumes s: "entry_segs n' = (if ok then grant_step (entry_segs n) r new tok else entry_segs n)"
    and m: "ok \<Longrightarrow> entry_segs n = Map.empty \<or> entry_segs n r \<noteq> None"
  shows "entry_access n' x = (if ok \<and> in_range r x then map_option attrs_of_seg (entry_segs n' r) else entry_access n x)"
proof (cases ok)
  case True
  then have "entry_segs n' = (entry_segs n)(r := entry_segs n' r)" using s by (simp add: grant_step_def)
  from entry_access_step [OF this m [OF True], of x] True show ?thesis by simp
next
  case False
  then have "entry_segs n' = entry_segs n" using s by simp
  from entry_access_same [OF this] False show ?thesis by simp
qed

text \<open>When the records change for one range, access changes on that range alone.\<close>

lemma access_change:
  assumes t: "table_ok mi t" "table_ok mi' t'" and m: "segs mi' = (segs mi)(r := v)" and ne: "v \<noteq> None \<or> segs mi r \<noteq> None"
  shows "access mi' x = (if in_range r x then map_option attrs_of_seg v else access mi x)"
proof (cases "in_range r x")
  case in_r: True
  show ?thesis
  proof (cases v)
    case (Some s)
    then show ?thesis using in_r access_seg [OF t(2), of r s x] m by simp
  next
    case None
    then obtain s where s: "segs mi r = Some s" using ne by auto
    have "access mi' x = None"
    proof (rule ccontr)
      assume "access mi' x \<noteq> None"
      then obtain q u where q: "segs mi' q = Some u" "in_range q x" using access_segD [OF t(2)] by (metis option.exhaust)
      then have "segs mi q = Some u" "q \<noteq> r" using m None by (auto split: if_splits)
      with segs_disjoint [OF t(1) s _ in_r q(2)] show False by blast
    qed
    with in_r None show ?thesis by simp
  qed
next
  case False
  have "access mi' x = Some g \<longleftrightarrow> access mi x = Some g" for g
    using False m access_segD [OF t(1), of x g] access_segD [OF t(2), of x g] access_seg [OF t(1)] access_seg [OF t(2)]
    by (metis fun_upd_other)
  with False show ?thesis by (metis option.exhaust)
qed

lemma access_same:
  assumes t: "table_ok mi t" "table_ok mi' t'" and m: "segs mi' = segs mi"
  shows "access mi' = access mi"
proof
  fix x
  have "map_of t' = map_of t" using m by (simp add: table_ok_segs [OF t(1)] table_ok_segs [OF t(2)])
  then have "access mi' x = Some g \<longleftrightarrow> access mi x = Some g" for g
    by (simp only: table_ok_access [OF t(1)] table_ok_access [OF t(2)])
  then show "access mi' x = access mi x" by (metis option.exhaust)
qed

lemma access_step:
  assumes t: "table_ok mi t" "table_ok mi' t'" and m: "map_of t' = (if c then (map_of t)(r := v) else map_of t)"
    and ne: "c \<Longrightarrow> v \<noteq> None \<or> map_of t r \<noteq> None"
  shows "segs mi' = (if c then (segs mi)(r := v) else segs mi)"
    "access mi' x = (if c \<and> in_range r x then map_option attrs_of_seg v else access mi x)"
proof -
  show s: "segs mi' = (if c then (segs mi)(r := v) else segs mi)"
    using m by (simp add: table_ok_segs [OF t(1)] table_ok_segs [OF t(2)])
  show "access mi' x = (if c \<and> in_range r x then map_option attrs_of_seg v else access mi x)"
  proof (cases c)
    case True
    with s ne access_change [OF t, of r v x] show ?thesis by (simp add: table_ok_segs [OF t(1)])
  next
    case False
    with s access_same [OF t] show ?thesis by simp
  qed
qed

text \<open>The state after a grant that lost its record: the records are as before, the range can be accessed.\<close>

lemma unrecorded_access:
  assumes t: "table_ok mi t" and u: "unrecorded mi' t t'" and m: "map_of t' = (map_of t)(r \<mapsto> s)"
  shows "segs mi' = segs mi" "access mi' x = (if in_range r x then Some (attrs_of_seg s) else access mi x)"
proof -
  obtain ctx where c: "mi_block_base mi' = TableBase ctx" "tc_granted_addr_mng ctx = Some t" "table_ok (set_segs mi' ctx t') t'"
    by (rule unrecordedE [OF u])
  show "segs mi' = segs mi" using c(1,2) table_ok_segs [OF t] by (simp add: segs_def)
  from access_step(2) [OF t c(3), of True r "Some s" x] m
  show "access mi' x = (if in_range r x then Some (attrs_of_seg s) else access mi x)" by (simp add: access_set_segs [OF c(1)])
qed

text \<open>What a grant in table mode does.\<close>

lemma grant_outcome:
  fixes junk data sz perm attr w
  assumes c: "ctx_ok E ctx" and E: "fresh_mem E" and g: "get_mapt_info_by_tid ctx tid = Some mi" and mode: "mi_mode mi = MAPT_MODE_TABLE"
  defines "r \<equiv> Range data (sz - 1)" and "new \<equiv> \<lambda>tok. segment data sz perm (sa_e_bit attr) tok"
    and "gone \<equiv> record_lost E junk (cx_shared_fd ctx) mi data sz perm attr w"
    and "d \<equiv> junk\<lparr>di_data := data, di_data_size := sz, di_perm := perm, di_token := sa_token attr, di_e_bit := sa_e_bit attr\<rparr>"
  obtains ret ctx' tok w' mi' where
    "ummu_grant E junk (Some ctx) tid data sz perm (Some attr) w = Some (ret, Some ctx', Some (attr\<lparr>sa_token := tok\<rparr>), w')"
    "get_mapt_info_by_tid ctx' tid = Some mi'" "\<forall>t. t \<noteq> tid \<longrightarrow> get_mapt_info_by_tid ctx' t = get_mapt_info_by_tid ctx t"
    "ret \<in> {0, - EINVAL, - ERANGE, - ENOMEM}" "gone \<longrightarrow> ret = - ENOMEM"
    "tok = sa_token attr \<or> tok = di_token (snd (fst (ummu_perm_data_preproc E d w)))"
    "ret = - EINVAL \<longleftrightarrow> \<not> (ummu_check_data d MAPT_MODE_TABLE = 0 \<and> fst (fst (ummu_perm_data_preproc E d w)) = 0 \<and>
       grant_possible (segs mi) r (new tok) tok)"
    "segs mi' = (if ret = 0 then grant_step (segs mi) r (new tok) tok else segs mi)"
    "\<forall>x. access mi' x = (if ret = 0 \<and> in_range r x then map_option attrs_of_seg (segs mi' r)
       else if gone \<and> in_range r x then Some (attrs_of_seg (new tok)) else access mi x)"
proof -
  obtain t where t: "table_ok mi t" "queues_ready E mi" using ctx_ok_get [OF c g] mode by (cases rule: mi_ok_cases) (auto simp: ummu_consts)
  obtain ret ctx' tok w' mi' t' where x: "ummu_grant E junk (Some ctx) tid data sz perm (Some attr) w = Some (ret, Some ctx', Some (attr\<lparr>sa_token := tok\<rparr>), w')"
    "ctx_upd ctx tid mi' ctx'" "if gone then ret = - ENOMEM \<and> unrecorded mi' t t' else table_ok mi' t'" "mi_valid mi' \<noteq> 0"
    "ret \<in> {0, - EINVAL, - ERANGE, - ENOMEM}"
    "let d = d in (tok = sa_token attr \<or> tok = di_token (snd (fst (ummu_perm_data_preproc E d w)))) \<and>
       (ret = - EINVAL \<longleftrightarrow> \<not> (ummu_check_data d MAPT_MODE_TABLE = 0 \<and> fst (fst (ummu_perm_data_preproc E d w)) = 0 \<and>
         grant_possible (map_of t) r (new tok) tok))"
    "map_of t' = (if ret = 0 \<or> gone then grant_step (map_of t) r (new tok) tok else map_of t)"
    unfolding d_def r_def new_def gone_def
    by (rule grant_table_mode [OF g t E, where junk = junk and data = data and sz = sz and perm = perm and attr = attr and w = w])
  note segs = table_ok_segs [OF t(1)]
  have eff: "mi_mode mi' = MAPT_MODE_TABLE \<and> segs mi' = (if ret = 0 then grant_step (segs mi) r (new tok) tok else segs mi) \<and>
    (\<forall>x. access mi' x = (if ret = 0 \<and> in_range r x then map_option attrs_of_seg (segs mi' r)
       else if gone \<and> in_range r x then Some (attrs_of_seg (new tok)) else access mi x))"
  proof (cases gone)
    case True
    then have u: "unrecorded mi' t t'" "ret \<noteq> 0" using x(3) by (auto simp: errno_defs)
    have "map_of t r = None" unfolding r_def by (rule record_lost_new(1) [OF t(1) True [unfolded gone_def]])
    then have m: "map_of t' = (map_of t)(r \<mapsto> new tok)" using x(7) True by (simp add: grant_step_def)
    have "mi_mode mi' = MAPT_MODE_TABLE" by (rule unrecordedE [OF u(1)])
    with unrecorded_access [OF t(1) u(1) m] u(2) True show ?thesis by simp
  next
    case False
    then have ok: "table_ok mi' t'" using x(3) by simp
    have chg: "map_of t' = (if ret = 0 then (map_of t)(r := grant_step (map_of t) r (new tok) tok r) else map_of t)"
      using x(7) False by (simp add: grant_step_def)
    have ne: "grant_step (map_of t) r (new tok) tok r \<noteq> None" by (simp add: grant_step_def)
    have s: "segs mi' = (if ret = 0 then grant_step (segs mi) r (new tok) tok else segs mi)"
      using x(7) False by (simp add: segs table_ok_segs [OF ok])
    have "access mi' x = (if ret = 0 \<and> in_range r x then map_option attrs_of_seg (segs mi' r) else access mi x)" for x
      using access_step(2) [OF t(1) ok chg, of x] ne by (simp add: s segs)
    with s False show ?thesis using ok by (auto elim: table_okE)
  qed
  have get: "get_mapt_info_by_tid ctx' tid = Some mi'" "\<forall>t. t \<noteq> tid \<longrightarrow> get_mapt_info_by_tid ctx' t = get_mapt_info_by_tid ctx t"
    using ctx_upd_get [OF x(2)] x(4) eff by simp_all
  have gone_ret: "gone \<longrightarrow> ret = - ENOMEM" using x(3) by simp
  show thesis
    by (rule that [OF x(1) get x(5) gone_ret _ _ _ eff [THEN conjunct2, THEN conjunct2]])
      (use x(6) eff in \<open>simp_all add: Let_def segs\<close>)
qed

text \<open>What an ungrant does, in both modes.\<close>

lemma entry_ungrant_access:
  assumes s: "entry_segs n' = (if ok then ungrant_step (entry_segs n) r tok else entry_segs n)" and p: "ok \<Longrightarrow> ungrant_possible (entry_segs n) r tok"
  shows "entry_access n' x = (if ok \<and> in_range r x then map_option attrs_of_seg (entry_segs n' r) else entry_access n x)"
proof (cases ok)
  case True
  then have "entry_segs n' = (entry_segs n)(r := entry_segs n' r)" using s by (simp add: ungrant_step_def)
  moreover have "entry_segs n r \<noteq> None" using p [OF True] by (auto simp: ungrant_possible_def split: option.splits)
  ultimately show ?thesis using entry_access_step [of n' n r "entry_segs n' r" x] True by simp
next
  case False
  then have "entry_segs n' = entry_segs n" using s by simp
  from entry_access_same [OF this] False show ?thesis by simp
qed

lemma ungrant_outcome:
  fixes data sz
  assumes c: "ctx_ok E ctx" and E: "fresh_mem E" and g: "get_mapt_info_by_tid ctx tid = Some mi" and tok: "tok = (if bytoken then Some tv else None)"
  defines "r \<equiv> Range data (sz - 1)"
  obtains ret ctx' w' mi' where "ummu_ungrant_data E junk (Some ctx) tid data sz tv bytoken w = Some (ret, Some ctx', w')"
    "ctx_upd ctx tid mi' ctx'" "get_mapt_info_by_tid ctx' tid = Some mi'"
    "ret = 0 \<longleftrightarrow> sz \<noteq> 0 \<and> (mi_mode mi = MAPT_MODE_TABLE \<longrightarrow> unat data mod 4096 = 0) \<and> ungrant_possible (segs mi) r tok"
    "segs mi' = (if ret = 0 then ungrant_step (segs mi) r tok else segs mi)"
    "\<forall>x. access mi' x = (if ret = 0 \<and> in_range r x then map_option attrs_of_seg (segs mi' r) else access mi x)"
  using ctx_ok_get [OF c g]
proof (cases rule: mi_ok_cases)
  case (entry a n)
  obtain ret ctx' w' mi' n' where u: "ummu_ungrant_data E junk (Some ctx) tid data sz tv bytoken w = Some (ret, Some ctx', w')"
    "ctx_upd ctx tid mi' ctx'" "mi_mode mi' = MAPT_MODE_ENTRY" "mi_block_base mi' = EntryBase a n'" "mi_valid mi' \<noteq> 0"
    "ret = 0 \<longleftrightarrow> sz \<noteq> 0 \<and> ungrant_possible (entry_segs n) r tok"
    "entry_segs n' = (if ret = 0 then ungrant_step (entry_segs n) r tok else entry_segs n)"
    unfolding r_def by (rule ungrant_entry_mode [OF g entry tok, where junk = junk and data = data and sz = sz and w = w])
  have b: "segs mi = entry_segs n" "access mi = entry_access n" "segs mi' = entry_segs n'" "access mi' = entry_access n'"
    using entry(2) u(4) by (simp_all add: segs_def access_def)
  have p: "ret = 0 \<Longrightarrow> ungrant_possible (entry_segs n) r tok" using u(6) by simp
  have "mi_mode mi \<noteq> MAPT_MODE_TABLE" using entry(1) by (simp add: ummu_consts)
  then show thesis using u(6,7) entry_ungrant_access [OF u(7) p] ctx_upd_get_entry [OF u(2,5,3)]
    by (intro that [OF u(1,2)]) (simp_all add: b)
next
  case (table t)
  obtain ret ctx' w' mi' t' where u: "ummu_ungrant_data E junk (Some ctx) tid data sz tv bytoken w = Some (ret, Some ctx', w')"
    "ctx_upd ctx tid mi' ctx'" "table_ok mi' t'" "mi_valid mi' \<noteq> 0"
    "ret = 0 \<longleftrightarrow> sz \<noteq> 0 \<and> unat data mod 4096 = 0 \<and> ungrant_possible (map_of t) r tok"
    "map_of t' = (if ret = 0 then ungrant_step (map_of t) r tok else map_of t)"
    unfolding r_def by (rule ungrant_table_mode [OF g table(1,3) E tok, where junk = junk and data = data and sz = sz and w = w])
  have b: "segs mi = map_of t" "segs mi' = map_of t'" using table_ok_segs [OF table(1)] table_ok_segs [OF u(3)] by simp_all
  have chg: "map_of t' = (if ret = 0 then (map_of t)(r := map_of t' r) else map_of t)" using u(6) by (simp add: ungrant_step_def)
  have ne: "map_of t' r \<noteq> None \<or> map_of t r \<noteq> None" if "ret = 0" using u(5) that by (auto simp: ungrant_possible_def split: option.splits)
  have mode: "mi_mode mi' = MAPT_MODE_TABLE" using u(3) by (auto elim: table_okE)
  show thesis using u(5,6) table(2) access_step(2) [OF table(1) u(3) chg ne] ctx_upd_get(2) [OF u(2,4) mode]
    by (intro that [OF u(1,2)]) (simp_all add: b)
qed

lemma preproc_supplied:
  assumes "\<forall>tk \<in> set_option (di_token d). ti_input tk = 0"
  shows "\<exists>d1. ummu_perm_data_preproc E d w = ((0, d1), w) \<and> di_token d1 = di_token d"
  using assms by (cases "di_token d") (auto simp: ummu_perm_data_preproc_def ummu_get_token_def)

lemma table_op_ungrant_lvl:
  "ummu_table_op E tid fd di s = Some (ret, s') \<Longrightarrow> di_op di = UMMU_UNGRANT \<Longrightarrow> wk_lvl s' \<le> wk_lvl s"
  by (auto simp: ummu_table_op_def Let_def dest!: clear_by_level_lvl)

lemma base_refl: "\<exists>x. mi = mi\<lparr>mi_block_base := x\<rparr>"
  by (rule exI [of _ "mi_block_base mi"]) simp

lemma run_table_op_frame:
  assumes "run_table_op E fd mi di w = Some (ret, mi', di', w')"
  shows "\<exists>x. mi' = mi\<lparr>mi_block_base := x\<rparr>" "\<exists>l. di' = di\<lparr>di_lvl := l\<rparr> \<and> (di_op di = UMMU_UNGRANT \<longrightarrow> l \<le> di_lvl di)"
proof -
  from assms obtain ctx s where b: "mi_block_base mi = TableBase ctx"
    by (auto simp: run_table_op_def split: block_base.splits)
  with assms obtain s where s: "ummu_table_op E (mi_tid mi) fd di \<lparr>wk_root = zero_table_node, wk_ctx = ctx, wk_world = w, wk_lvl = di_lvl di\<rparr> = Some (ret, s)"
      "mi' = mi\<lparr>mi_block_base := TableBase (wk_ctx s)\<rparr>" "di' = di\<lparr>di_lvl := wk_lvl s\<rparr>"
    unfolding run_table_op_def by (auto elim: bind_SomeE)
  show "\<exists>x. mi' = mi\<lparr>mi_block_base := x\<rparr>" using s(2) by blast
  show "\<exists>l. di' = di\<lparr>di_lvl := l\<rparr> \<and> (di_op di = UMMU_UNGRANT \<longrightarrow> l \<le> di_lvl di)"
    using table_op_ungrant_lvl [OF s(1)] s(3) by auto
qed

lemma update_info_frame:
  assumes "ummu_update_info E opt mi di w = Some (ret, mi', w')"
  shows "\<exists>x. mi' = mi\<lparr>mi_block_base := x\<rparr>"
  using assms base_refl [of mi] by (auto simp: ummu_update_info_def set_segs_def Let_def
      split: block_base.splits grant_op.splits prod.splits if_splits elim!: bind_SomeE)

lemma run_entry_op_frame: "run_entry_op mi di = Some (ret, mi') \<Longrightarrow> \<exists>x. mi' = mi\<lparr>mi_block_base := x\<rparr>"
  using base_refl [of mi] by (auto simp: run_entry_op_def split: block_base.splits prod.splits)

text \<open>An ungrant that matches a record lies below \<open>2 ^ 48\<close>, in both modes.\<close>

lemma recorded_request:
  assumes m: "mi_ok E mi" and s: "segs mi (request_range d) = Some s" "di_data_size d \<noteq> 0"
  shows "request_ok d"
  using m
proof (cases rule: mi_ok_cases)
  case (table t)
  then show ?thesis using matched_request [OF table(1) _ s(2)] s(1) table_ok_segs [OF table(1)] by simp
next
  case (entry a n)
  let ?n = "di_data_size d - 1"
  from s(1) entry(2) have e: "en_valid n \<noteq> 0" "en_base n = di_data_base d" "en_limit n - en_base n = ?n"
    by (auto simp: segs_def entry_segs_def request_range_def Range_eq split: if_splits)
  then have le: "unat (di_data_base d) \<le> unat (en_limit n)" "unat (en_limit n) < 2 ^ 48" and lim: "en_limit n = di_data_base d + ?n"
    using entry(3) by (auto simp: entry_ok_def algebra_simps)
  have "unat (en_limit n) = unat (di_data_base d) + unat ?n"
    using le(1) unfolding lim word_le_nat_alt [symmetric] by (simp add: unat_plus_simple)
  moreover have "unat ?n = unat (di_data_size d) - 1" "0 < unat (di_data_size d)" using s(2) unat_size_minus_1 by (auto simp: unat_gt_0)
  ultimately show ?thesis using le(2) by (simp add: request_ok_def)
qed

text \<open>The last step of an ungrant that succeeds: an invalidation, which sees the request, widened when a
  whole segment went, and a control structure whose table or entry alone has changed.\<close>

lemma ungrant_last_step:
  assumes u: "ummu_ungrant_data E junk (Some ctx) tid data sz tv bytoken w = Some (0, Some ctx', w')"
    and g: "get_mapt_info_by_tid ctx tid = Some mi" and t: "mi_ok E' mi" and m: "segs mi (Range data (sz - 1)) = Some s"
  obtains x di w2 mi3 where
    "ummu_plbi_va_cmd E (cx_shared_fd ctx) (mi\<lparr>mi_block_base := x\<rparr>) (plbi_range di) w2 = Some (mi3, w')"
    "ctx' = put_mapt ctx tid mi3" "request_ok di" "di_op di = UMMU_UNGRANT \<longrightarrow> di_lvl di \<le> 3" "di_data_base di = data" "di_data_size di = sz"
proof -
  define d where "d = junk\<lparr>di_lvl := MAX_LEVEL_INDEX, di_data := data, di_data_size := sz, di_tokenval := tv, di_bytoken := bytoken,
    di_data_base := data, di_data_limit := data + sz - 1\<rparr>"
  have ne: "MAPT_MODE_TABLE \<noteq> MAPT_MODE_ENTRY" by (simp add: ummu_consts)
  have mode: "mi_mode mi \<in> {MAPT_MODE_ENTRY, MAPT_MODE_TABLE}" using t by (cases rule: mi_ok_cases) simp_all
  from u have sz: "sz \<noteq> 0" by (auto simp: ummu_ungrant_data_def errno_defs)
  from u g sz obtain opt ret1 mi1 di2 w1 ret2 mi2 w2 mi3 where c:
    "ummu_ungrant_imp E (cx_shared_fd ctx) mi (d\<lparr>di_op := opt\<rparr>) w = Some (ret1, mi1, di2, w1)"
    "(if ret1 = 0 then ummu_update_info E opt mi1 di2 w1 else Some (ret1, mi1, w1)) = Some (ret2, mi2, w2)"
    "ummu_plbi_va_cmd E (cx_shared_fd ctx) mi2 (plbi_range di2) w2 = Some (mi3, w')" "ctx' = put_mapt ctx tid mi3"
    unfolding ummu_ungrant_data_def
    by (auto simp: d_def [symmetric] Let_def errno_defs split: if_splits elim!: bind_SomeE)
  have "(\<exists>x. mi1 = mi\<lparr>mi_block_base := x\<rparr>) \<and> (\<exists>l. di2 = d\<lparr>di_op := opt, di_lvl := l\<rparr> \<and> (opt = UMMU_UNGRANT \<longrightarrow> l \<le> 3))"
  proof (cases "mi_mode mi = MAPT_MODE_ENTRY")
    case True
    with c(1) obtain n where e: "run_entry_op mi (d\<lparr>di_op := opt\<rparr>) = Some (ret1, mi1)" "di2 = d\<lparr>di_op := opt\<rparr>"
      by (auto simp: ummu_ungrant_imp_def elim!: bind_SomeE)
    have "di2 = d\<lparr>di_op := opt, di_lvl := di_lvl d\<rparr>" "di_lvl d \<le> 3" using e(2) by (simp_all add: d_def MAX_LEVEL_INDEX_def)
    with run_entry_op_frame [OF e(1)] show ?thesis by blast
  next
    case False
    then have "run_table_op E (cx_shared_fd ctx) mi (d\<lparr>di_op := opt\<rparr>) w = Some (ret1, mi1, di2, w1)"
      using c(1) mode by (auto simp: ummu_ungrant_imp_def)
    note f = run_table_op_frame [OF this]
    from f(2) obtain l where "di2 = d\<lparr>di_op := opt, di_lvl := l\<rparr>" "opt = UMMU_UNGRANT \<longrightarrow> l \<le> 3"
      by (auto simp: d_def MAX_LEVEL_INDEX_def)
    with f(1) show ?thesis by blast
  qed
  then obtain l where f: "\<exists>x. mi1 = mi\<lparr>mi_block_base := x\<rparr>" and l: "di2 = d\<lparr>di_op := opt, di_lvl := l\<rparr>" "opt = UMMU_UNGRANT \<longrightarrow> l \<le> 3" by blast
  obtain x where x: "mi2 = mi\<lparr>mi_block_base := x\<rparr>"
    using c(2) f update_info_frame [of E opt mi1 di2 w1 ret2 mi2 w2] by (auto split: if_splits)
  have ok: "request_ok d" by (rule recorded_request [OF t]) (use m sz in \<open>simp_all add: d_def request_range_def\<close>)
  have "request_ok di2" using ok l(1) by (simp add: request_ok_def)
  then show thesis using c(3,4) l x by (intro that [of x di2 w2 mi3]) (simp_all add: d_def)
qed

text \<open>With the invalidation done by the kernel, the last call is the one that asks for it.\<close>

lemma kcmd_plbi_va:
  assumes "ummu_plbi_va_cmd E fd mi di w = Some (mi', w')" "mi_kcmd_plbi mi \<noteq> 0" "0 \<le> fd"
  shows "\<exists>r. last (trace w') = SysIoctl UMMU_IOCPLBI_VA
    (zero_tid_info\<lparr>tf_tid := mi_tid mi, tf_va := di_data_base di, tf_size := di_data_size di\<rparr>) r"
  using assms by (auto simp: ummu_plbi_va_cmd_def ummu_send_plbi_def ummu_kcmd_plbi_def sys_ioctl_def split: prod.splits)

definition covers :: "tid_info \<Rightarrow> u64 \<Rightarrow> u64 \<Rightarrow> bool" where
  "covers info data sz \<longleftrightarrow> unat (tf_va info) \<le> unat data \<and> unat data + unat sz \<le> unat (tf_va info) + unat (tf_size info)"

text \<open>A PLBI command of the user queues names the power of two of its size.\<close>

definition cmd_covers :: "cmd_entry \<Rightarrow> u64 \<Rightarrow> u64 \<Rightarrow> bool" where
  "cmd_covers cmd data sz \<longleftrightarrow> ce_opcode cmd = PLBI_VA_OP \<and> unat (ce_addr cmd) \<le> unat data \<and>
     unat data + unat sz \<le> unat (ce_addr cmd) + 2 ^ unat (ce_range cmd)"

lemma plbi_range_within:
  assumes "request_ok di" "di_op di = UMMU_UNGRANT \<longrightarrow> di_lvl di \<le> 3"
  shows "unat (di_data_base (plbi_range di)) \<le> unat (di_data_base di)"
    "unat (di_data_base di) + unat (di_data_size di) \<le> unat (di_data_base (plbi_range di)) + unat (di_data_size (plbi_range di))"
    "unat (di_data_size (plbi_range di)) \<le> 2 ^ 48"
proof -
  have "unat (di_data_base (plbi_range di)) \<le> unat (di_data_base di) \<and>
    unat (di_data_base di) + unat (di_data_size di) \<le> unat (di_data_base (plbi_range di)) + unat (di_data_size (plbi_range di)) \<and>
    unat (di_data_size (plbi_range di)) \<le> 2 ^ 48"
  proof (cases "di_op di = UMMU_UNGRANT")
    case True
    with assms plbi_range_wide [of di] show ?thesis by (simp add: Let_def)
  next
    case False
    with assms(1) show ?thesis by (simp add: plbi_range_def request_ok_def)
  qed
  then show "unat (di_data_base (plbi_range di)) \<le> unat (di_data_base di)"
    "unat (di_data_base di) + unat (di_data_size di) \<le> unat (di_data_base (plbi_range di)) + unat (di_data_size (plbi_range di))"
    "unat (di_data_size (plbi_range di)) \<le> 2 ^ 48" by blast+
qed

lemma plbi_range_covers_request:
  assumes "request_ok di" "di_op di = UMMU_UNGRANT \<longrightarrow> di_lvl di \<le> 3"
  shows "covers (zero_tid_info\<lparr>tf_tid := tid, tf_va := di_data_base (plbi_range di), tf_size := di_data_size (plbi_range di)\<rparr>)
    (di_data_base di) (di_data_size di)"
  using plbi_range_within [OF assms] by (simp add: covers_def)

lemma log2size_field:
  fixes n :: u64
  assumes "0 < unat n" "unat n \<le> 2 ^ 48"
  shows "unat n \<le> 2 ^ unat (ucast (get_minist_log2size_range n) :: 6 word)"
proof -
  let ?k = "LEAST k. unat n \<le> 2 ^ k"
  have "n > 0" using assms(1) by (simp add: word_gt_0 unat_gt_0)
  then have "unat (get_minist_log2size_range n) = ?k" by (rule minist_log2size_range_least)
  moreover have "?k \<le> 48" by (rule Least_le) (rule assms(2))
  moreover have "unat n \<le> 2 ^ ?k" by (rule LeastI) (rule assms(2))
  ultimately show ?thesis by (simp add: unsigned_ucast_eq take_bit_nat_eq_self)
qed

lemma ungrant_invalidation:
  assumes u: "ummu_ungrant_data E junk (Some ctx) tid data sz tv bytoken w = Some (0, Some ctx', w')"
    and g: "get_mapt_info_by_tid ctx tid = Some mi" and t: "mi_ok E' mi" and k: "mi_kcmd_plbi mi \<noteq> 0" "0 \<le> cx_shared_fd ctx"
    and m: "segs mi (Range data (sz - 1)) = Some s"
  shows "\<exists>info r. last (trace w') = SysIoctl UMMU_IOCPLBI_VA info r \<and> tf_tid info = mi_tid mi \<and> covers info data sz"
proof -
  obtain x di w2 mi3 where s: "ummu_plbi_va_cmd E (cx_shared_fd ctx) (mi\<lparr>mi_block_base := x\<rparr>) (plbi_range di) w2 = Some (mi3, w')"
    "request_ok di" "di_op di = UMMU_UNGRANT \<longrightarrow> di_lvl di \<le> 3" "di_data_base di = data" "di_data_size di = sz"
    by (rule ungrant_last_step [OF u g t m])
  let ?info = "zero_tid_info\<lparr>tf_tid := mi_tid mi, tf_va := di_data_base (plbi_range di), tf_size := di_data_size (plbi_range di)\<rparr>"
  have "covers ?info data sz" using plbi_range_covers_request [OF s(2,3), of "mi_tid mi"] s(4,5) by simp
  moreover obtain r where "last (trace w') = SysIoctl UMMU_IOCPLBI_VA ?info r" using kcmd_plbi_va [OF s(1)] k by auto
  ultimately show ?thesis by (intro exI [of _ ?info] exI [of _ r]) (simp add: zero_tid_info_def)
qed

lemma ungrant_posted:
  assumes u: "ummu_ungrant_data E junk (Some ctx) tid data sz tv bytoken w = Some (0, Some ctx', w')"
    and g: "get_mapt_info_by_tid ctx tid = Some mi" and t: "mi_ok E' mi" and m: "segs mi (Range data (sz - 1)) = Some s"
    and r: "plbi_ready E mi" "mi_kcmd_plbi mi = 0" "mi_prompt E mi" "qc_queue (mi_queue_ctx mi) = Some qs"
  shows "\<exists>cmd mi3 qs'. ctx' = put_mapt ctx tid mi3 \<and> cmd_covers cmd data sz \<and> qc_queue (mi_queue_ctx mi3) = Some qs' \<and>
    length qs' = length qs \<and> (\<forall>i < length qs. posted (qc_cmd_que_pi_size (mi_queue_ctx mi)) (plbi_pairs mi cmd) (qs ! i) (qs' ! i))"
proof -
  obtain x di w2 mi3 where s: "ummu_plbi_va_cmd E (cx_shared_fd ctx) (mi\<lparr>mi_block_base := x\<rparr>) (plbi_range di) w2 = Some (mi3, w')"
    "ctx' = put_mapt ctx tid mi3" "request_ok di" "di_op di = UMMU_UNGRANT \<longrightarrow> di_lvl di \<le> 3" "di_data_base di = data" "di_data_size di = sz"
    by (rule ungrant_last_step [OF u g t m])
  let ?mi = "mi\<lparr>mi_block_base := x\<rparr>" and ?d = "plbi_range di"
  let ?cmd = "\<lparr>ce_opcode = PLBI_VA_OP, ce_cqe_en = 0, ce_range = ucast (get_minist_log2size_range (di_data_size ?d)), ce_addr = di_data_base ?d\<rparr>"
  have "plbi_ready E ?mi" using r(1) by (simp add: plbi_ready_def queues_ok_def mi_device_ok_def)
  moreover have "mi_prompt E ?mi" "plbi_pairs ?mi ?cmd = plbi_pairs mi ?cmd" using r(3) by (simp_all add: mi_prompt_def plbi_num_def plbi_pairs_def)
  ultimately obtain qs' where q: "qc_queue (mi_queue_ctx mi3) = Some qs'" "length qs' = length qs"
    "\<forall>i < length qs. posted (qc_cmd_que_pi_size (mi_queue_ctx mi)) (plbi_pairs mi ?cmd) (qs ! i) (qs' ! i)"
    using send_plbi_posted [of E ?mi qs "cx_shared_fd ctx" ?cmd _ w2 mi3 w'] r(2,4) s(1) unfolding ummu_plbi_va_cmd_def by auto
  note rg = plbi_range_within [OF s(3,4)]
  have "0 < unat (di_data_size ?d)" using rg(1,2) s(3) by (simp add: request_ok_def)
  from log2size_field [OF this rg(3)] rg(1,2) s(5,6) have "cmd_covers ?cmd data sz" by (simp add: cmd_covers_def)
  with q s(2) show ?thesis by blast
qed

lemma ungrant_dropped:
  assumes u: "ummu_ungrant_data E junk (Some ctx) tid data sz tv bytoken w = Some (0, Some ctx', w')"
    and g: "get_mapt_info_by_tid ctx tid = Some mi" and t: "mi_ok E' mi" and m: "segs mi (Range data (sz - 1)) = Some s"
    and r: "device_stopped E" "queues_ok mi" "queues_full mi" "mi_kcmd_plbi mi = 0"
  shows "\<exists>mi3. ctx' = put_mapt ctx tid mi3 \<and> mi_queue_ctx mi3 = mi_queue_ctx mi"
proof -
  obtain x di w2 mi3 where s: "ummu_plbi_va_cmd E (cx_shared_fd ctx) (mi\<lparr>mi_block_base := x\<rparr>) (plbi_range di) w2 = Some (mi3, w')"
    "ctx' = put_mapt ctx tid mi3" by (rule ungrant_last_step [OF u g t m])
  have "plbi_num (mi\<lparr>mi_block_base := x\<rparr>) = plbi_num mi" by (simp add: plbi_num_def)
  then have "queues_full (mi\<lparr>mi_block_base := x\<rparr>)"
    using r(3) by (cases "qc_queue (mi_queue_ctx mi)") (simp_all add: queues_full_def del: of_nat_mult)
  moreover have "queues_ok (mi\<lparr>mi_block_base := x\<rparr>)" using r(2) by (simp add: queues_ok_def)
  ultimately have full: "queues_ok (mi\<lparr>mi_block_base := x\<rparr>)" "queues_full (mi\<lparr>mi_block_base := x\<rparr>)" by blast+
  have "mi_kcmd_plbi (mi\<lparr>mi_block_base := x\<rparr>) = 0" using r(4) by simp
  note st = send_plbi_stopped [OF r(1) full this]
  have "mi3 = mi\<lparr>mi_block_base := x\<rparr>" using s(1) st unfolding ummu_plbi_va_cmd_def by (metis option.inject prod.inject)
  with s(2) show ?thesis by auto
qed

section \<open>The first grant of a TID\<close>

text \<open>
  On a fresh TID a grant below \<open>2 ^ 39\<close> needs no new level table, so only the segment record can fail;
  it is allocated after the permission is in the table.
\<close>

lemma first_grant:
  assumes g: "get_mapt_info_by_tid ctx tid = Some mi" and t: "table_ok mi []" and E: "fresh_mem E"
    and tk: "\<forall>tk \<in> set_option (sa_token attr). ti_input tk = 0"
    and chk: "0 < unat sz" "unat data + unat sz \<le> 2 ^ 39" "unat data mod 4096 = 0" "perm \<in> valid_perms" "sa_e_bit attr \<in> {UMMU_EBIT_OFF, UMMU_EBIT_ON}"
  obtains tc di w1 where
    "represents (ctx_walk tc) (grants_of [Range data (sz - 1) \<mapsto> segment data sz perm (sa_e_bit attr) (sa_token attr)])"
    "tc_granted_addr_mng tc = Some []" "request_ok di" "request_range di = Range data (sz - 1)" "seg_of_grant di = segment data sz perm (sa_e_bit attr) (sa_token attr)"
    "ummu_grant E junk (Some ctx) tid data sz perm (Some attr) w =
      (let ((ret, t'), w2) = ummu_insert_new_addr E [] di w1
       in Some (ret, Some (put_mapt ctx tid (set_segs mi tc t')), Some attr, w2))"
    "record_lost E junk (cx_shared_fd ctx) mi data sz perm attr w \<longleftrightarrow> \<not> os_malloc E (clock w1)"
proof -
  define d0 where "d0 = junk\<lparr>di_data := data, di_data_size := sz, di_perm := perm, di_token := sa_token attr, di_e_bit := sa_e_bit attr\<rparr>"
  from t obtain tc where c: "mi_mode mi = MAPT_MODE_TABLE" "mi_block_base mi = TableBase tc" "tc_granted_addr_mng tc = Some []"
    "represents (ctx_walk tc) (grants_of (map_of []))" by (rule table_okE)
  have ne: "MAPT_MODE_TABLE \<noteq> MAPT_MODE_ENTRY" by (simp add: ummu_consts)
  have ok: "ummu_check_data d0 MAPT_MODE_TABLE = 0" using chk by (simp add: check_data_ok d0_def)
  from tk obtain d1 where p: "ummu_perm_data_preproc E d0 w = ((0, d1), w)" "di_token d1 = sa_token attr"
    using preproc_supplied [of d0 E w] by (auto simp: d0_def)
  note f = preproc_fields [OF p(1)]
  let ?d = "d1\<lparr>di_op := UMMU_GRANT\<rparr>" and ?r = "Range data (sz - 1)" and ?new = "segment data sz perm (sa_e_bit attr) (sa_token attr)"
  have seg: "seg_of_grant ?d = ?new" using f(5) [of UMMU_GRANT] p(2) by (simp add: d0_def)
  have rq: "request_ok d1" "request_ok ?d" "di_data_limit ?d = di_data_base ?d + di_data_size ?d - 1"
    using f(1-3) chk by (auto simp: request_ok_def d0_def)
  have rr: "request_range ?d = ?r" "request_range d1 = ?r" using f(1,3) by (simp_all add: request_range_def d0_def)
  have opt: "ummu_grant_check mi d1 = Some UMMU_GRANT" using grant_check_table [OF table_segs_ok [OF t] rq(1)] by simp
  have a: "op_allowed [] ?d" using f(1,4) chk(3) by (auto simp: op_allowed_def d0_def)
  note parts = request_range_parts [OF rq(2,3)]
  note nx = next_grants_segs [OF rq(2,3) _ a]
  have "legal ?d (grants_of (map_of []))" and
    new: "next_grants ?d 0 (grants_of (map_of [])) = grants_of [?r \<mapsto> ?new]"
    using nx seg by (simp_all add: seg_wf_def rr seg_step_def)
  then have l: "grant_legal ?d {}" by (simp add: legal_def grants_of_def)
  let ?s = "\<lparr>wk_root = zero_table_node, wk_ctx = tc, wk_world = w, wk_lvl = di_lvl ?d\<rparr>"
  have "same_tables (ctx_walk tc) ?s" by (simp add: same_tables_def ctx_walk_def)
  then have s: "represents ?s {}" using c(4) represents_same by (simp add: grants_of_def)
  have one: "unat (di_data_limit ?d) < 2 ^ 39" using parts f(1,3) chk by (simp add: d0_def)
  have o: "di_op ?d = UMMU_GRANT" by simp
  from grant_into_empty [OF s E o l one, of "mi_tid mi" "cx_shared_fd ctx"] obtain s' where
    s': "ummu_table_op E (mi_tid mi) (cx_shared_fd ctx) ?d ?s = Some (0, s')" by blast
  from table_op_grant [OF s E o l, of "mi_tid mi" "cx_shared_fd ctx"] s' c(3) have
    r: "represents s' (next_grants ?d 0 {})" "tc_granted_addr_mng (wk_ctx s') = Some []" by auto
  have "same_tables s' (ctx_walk (wk_ctx s'))" by (simp add: same_tables_def ctx_walk_def)
  then have rep: "represents (ctx_walk (wk_ctx s')) (grants_of [?r \<mapsto> ?new])"
    using r(1) represents_same new by (simp add: grants_of_def)
  have imp: "ummu_grant_imp E (cx_shared_fd ctx) mi ?d w = Some (0, mi\<lparr>mi_block_base := TableBase (wk_ctx s')\<rparr>, wk_world s')"
    using c(1,2) s' ne by (simp add: ummu_grant_imp_def run_table_op_def)
  then have "ummu_grant E junk (Some ctx) tid data sz perm (Some attr) w =
      (let ((ret, t'), w2) = ummu_insert_new_addr E [] ?d (wk_world s')
       in Some (ret, Some (put_mapt ctx tid (set_segs mi (wk_ctx s') t')), Some attr, w2))"
    unfolding ummu_grant_def using g c(1) ok p opt r(2)
    by (simp add: d0_def [symmetric] Let_def ummu_update_info_def set_segs_def split: prod.splits)
  moreover have "record_lost E junk (cx_shared_fd ctx) mi data sz perm attr w \<longleftrightarrow> \<not> os_malloc E (clock (wk_world s'))"
    using c(1) ok p(1) opt imp by (simp add: record_lost_def record_fails_def d0_def [symmetric] Let_def)
  ultimately show thesis using rep r(2) rq(2) rr(1) seg by (intro that)
qed

section \<open>A well-behaved process\<close>

lemma quiet_driver_ok: "driver_ok quiet_env"
proof -
  have p: "PAGE_SHIFT quiet_env = 12" by code_simp
  have c: "cmd_que_size quiet_env info = 8" "cpl_que_size quiet_env info = 10"
    if "tf_pcmdq_order info = 0" "tf_pcplq_order info = 0" for info
    using that by (simp_all add: cmd_que_size_def cpl_que_size_def p CMD_ENTRY_SHIFT_def CPL_ENTRY_SHIFT_def)
  have "fresh_queues_ok quiet_env info" if "tf_pcmdq_order info = 0" "tf_pcplq_order info = 0" for info
    unfolding fresh_queues_ok_def c [OF that]
    by (simp add: quiet_device_ok) (simp add: quiet_env_def queue_ok_def ring_legal_def queue_used_def Let_def)
  then show ?thesis by (auto simp: driver_ok_def quiet_env_def zero_tid_info_def)
qed

lemma quiet_env_ok: "env_ok quiet_env"
  by (simp add: env_ok_def quiet_driver_ok quiet_fresh_mem)

lemma quiet_malloc: "os_malloc quiet_env n"
  by (simp add: quiet_env_def)

lemma quiet_call: "reachable quiet_env ctx \<Longrightarrow> api_exec quiet_env junk c ctx w = Some (ret, Some ctx', w') \<Longrightarrow> reachable quiet_env ctx'"
  using reachable.call not_lost [of quiet_env] quiet_malloc by metis

definition start_ctx :: ummu_ctx_info where "start_ctx = \<lparr>cx_mapt_map = [], cx_shared_fd = 3\<rparr>"

lemma start_reachable: "reachable quiet_env start_ctx"
proof -
  have "\<exists>w'. ummu_init quiet_env None world0 = Some (6, Some start_ctx, w')"
    by (simp add: ummu_init_def ummu_new_ctx_def ummu_ctx_init_def c_malloc_def sys_open_def quiet_env_def ummu_map_create_def create_map_def
        ummu_get_log_level_def UMMU_VLOG_LEVEL_INFO_def start_ctx_def world0_def Let_def)
  then show ?thesis using reachable.init by blast
qed

lemma first_level_id: "find_first_zero_bit (replicate 32 0) MAX_LEVEL_ID_SIZE = Some 0"
proof -
  have "find (\<lambda>k. \<not> bm_bit (replicate 32 (0::u64)) k) [0..<2048] = Some 0" by (subst upt_conv_Cons) (simp_all add: bm_bit_def del: upt_Suc)
  moreover have "BITS_TO_LONGS 2048 = 32" using BITS_TO_LONGS_mult [of 32] by simp
  ultimately show ?thesis using find_first_zero_bit_scan [of 2048 "replicate 32 (0::u64)"]
    by (simp add: MAX_LEVEL_ID_SIZE_def INDEX_MAX_SIZE_def PER_MAPT_LEVEL_BLOCK_CNT_def)
qed

lemma quiet_root: "\<exists>s'. ummu_alloc_level_block quiet_env 5 3 Local None
    \<lparr>wk_root = root, wk_ctx = zero_table_ctx\<lparr>tc_granted_addr_mng := Some [], tc_expan := x, tc_blk_exp_size := 0x10000\<rparr>,
      wk_world = \<lparr>clock = 6, errno = e, trace = tr\<rparr>, wk_lvl = l\<rparr> = Some (Some (At 0 0), s')"
  using first_level_id
  by (simp add: ummu_alloc_level_block_def zero_table_ctx_def INDEX_LEVEL_BITMAP_SIZE_def MAX_LEVEL_ID_SIZE_def INDEX_MAX_SIZE_def
        PER_MAPT_LEVEL_BLOCK_CNT_def drop_bit_eq_div arr_rd_def)
    (simp add: ummu_alloc_new_mapt_block_def c_malloc_def ummu_get_core_buf_def set_errno_def BLOCK_SIZE_16K_def BLOCK_SIZE_2M_def
    sys_mmap_def quiet_env_def CORE_BUF_CHECK_INVALID_def set_blk_def arr_wr_def blk_at_def arr_rd_def PER_MAPT_LEVEL_BLOCK_CNT_def ummu_set_bit_def MAX_MAPT_ENTRY_INDEX_def)

lemma quiet_queue:
  assumes "mi_kcmd_plbi mi = 0" "tf_ummu_cnt info = 1" "tf_pcmdq_order info = 0" "tf_pcplq_order info = 0"
  shows "\<exists>qc tr'. ummu_queue_create quiet_env mi info 3 \<lparr>clock = 2, errno = e, trace = tr\<rparr> =
    Some ((0, mi\<lparr>mi_queue_ctx := qc\<rparr>), \<lparr>clock = 4, errno = e, trace = tr'\<rparr>)"
proof -
  have m: "c_malloc quiet_env \<lparr>clock = 2, errno = e, trace = tr\<rparr> = (True, \<lparr>clock = 3, errno = e, trace = tr\<rparr>)"
    by (simp add: c_malloc_def tick_def quiet_env_def)
  have a: "ummu_get_core_buf quiet_env tid BASE_MODE_QUEUE sz 3 0 \<lparr>clock = 3, errno = e, trace = tr\<rparr> =
      (0x4000000, \<lparr>clock = 4, errno = e, trace = tr @ [SysMmap sz 3 (UMMU_OFFSET_QUE quiet_env tid) 0x4000000]\<rparr>)" if "sz \<noteq> 0" for tid sz
    using that by (simp add: ummu_get_core_buf_def sys_mmap_def tick_def log_call_def) (simp add: quiet_env_def)
  have "os_getpagesize quiet_env = 4096" by (simp add: quiet_env_def)
  then show ?thesis using assms by (simp add: ummu_queue_create_def m a CORE_BUF_CHECK_INVALID_def Let_def) blast
qed

lemma quiet_table:
  assumes "mi_tid mi = 5" "tf_blk_exp_size info = 0x10000"
  shows "\<exists>mi' w'. ummu_mapt_table_ctx_init quiet_env 3 mi info \<lparr>clock = 4, errno = e, trace = tr\<rparr> = Some ((0, mi'), w')"
proof -
  have c: "c_malloc quiet_env \<lparr>clock = 4, errno = e, trace = tr\<rparr> = (True, \<lparr>clock = 5, errno = e, trace = tr\<rparr>)"
    "ummu_create_seg_mng quiet_env \<lparr>clock = 5, errno = e, trace = tr\<rparr> = ((0, Some []), \<lparr>clock = 6, errno = e, trace = tr\<rparr>)"
    by (simp_all add: c_malloc_def tick_def quiet_env_def ummu_create_seg_mng_def ummu_create_seg_tree_def)
  then show ?thesis
    using assms quiet_root [of zero_table_node "tf_hw_cap info AND HW_CAP_EXPAN \<noteq> 0" e tr 0]
    by (auto simp: ummu_mapt_table_ctx_init_def Let_def)
qed

lemma quiet_allocate:
  assumes m: "m = MAPT_MODE_ENTRY \<or> m = MAPT_MODE_TABLE"
  shows "\<exists>ctx w. ummu_allocate_tid quiet_env (Some start_ctx) (Some m) False world0 = Some (0, Some ctx, Some 5, w)"
proof -
  let ?i = "zero_tid_info\<lparr>tf_mode := m, tf_dev := - 1, tf_tid := 5, tf_ummu_cnt := 1, tf_blk_exp_size := 0x10000\<rparr>"
  obtain tr where g: "ummu_get_tid quiet_env 3 (zero_tid_info\<lparr>tf_mode := m\<rparr>) world0 = ((0, ?i), \<lparr>clock = 1, errno = 0, trace = tr\<rparr>)"
    by (simp add: ummu_get_tid_def sys_ioctl_def quiet_env_def world0_def tick_def log_call_def)
  have i: "tf_tid ?i = 5" "tf_mode ?i = m" "tf_hw_cap ?i = 0" "tf_ummu_cnt ?i = 1" "tf_pcmdq_order ?i = 0" "tf_pcplq_order ?i = 0"
    "tf_blk_exp_size ?i = 0x10000" by (simp_all add: zero_tid_info_def)
  obtain mi where a: "ummu_alloc_mapt_mem quiet_env ?i \<lparr>clock = 1, errno = 0, trace = tr\<rparr> = (Some mi, \<lparr>clock = 2, errno = 0, trace = tr\<rparr>)"
    "mi_kcmd_plbi mi = 0" "mi_tid mi = 5" "mi_mode mi = m"
    using i by (simp add: ummu_alloc_mapt_mem_def c_malloc_def tick_def) (simp add: quiet_env_def)
  obtain qc tr' where q: "ummu_queue_create quiet_env mi ?i 3 \<lparr>clock = 2, errno = 0, trace = tr\<rparr> =
      Some ((0, mi\<lparr>mi_queue_ctx := qc\<rparr>), \<lparr>clock = 4, errno = 0, trace = tr'\<rparr>)"
    using quiet_queue [OF a(2) i(4-6)] by blast
  let ?mi = "mi\<lparr>mi_queue_ctx := qc\<rparr>" and ?w = "\<lparr>clock = 4, errno = 0, trace = tr'\<rparr>"
  have t: "\<exists>mi' w'. (if m = MAPT_MODE_ENTRY then Some (ummu_mapt_entry_init quiet_env 3 ?mi ?w)
      else ummu_mapt_table_ctx_init quiet_env 3 ?mi ?i ?w) = Some ((0, mi'), w')"
  proof (cases "m = MAPT_MODE_ENTRY")
    case True
    then show ?thesis by (simp add: ummu_mapt_entry_init_def ummu_get_core_buf_def sys_mmap_def CORE_BUF_CHECK_INVALID_def BLOCK_SIZE_4K_def Let_def)
        (simp add: quiet_env_def)
  next
    case False
    have "mi_tid ?mi = 5" using a(3) by simp
    from quiet_table [OF this i(7)] False show ?thesis by simp
  qed
  then obtain mi' w' where t: "(if m = MAPT_MODE_ENTRY then Some (ummu_mapt_entry_init quiet_env 3 ?mi ?w)
      else ummu_mapt_table_ctx_init quiet_env 3 ?mi ?i ?w) = Some ((0, mi'), w')" by blast
  have "ummu_mapt_create quiet_env 3 ?i \<lparr>clock = 1, errno = 0, trace = tr\<rparr> = Some (Some mi', w')"
    using a q t by (simp add: ummu_mapt_create_def)
  moreover have "ummu_check_input_param m False = 0" using m by (auto simp: ummu_check_input_param_def check_mode_ok Let_def)
  ultimately show ?thesis
    using g i(1) by (simp add: ummu_allocate_tid_def start_ctx_def ummu_map_insert_def hashmap_insert_def)
qed

text \<open>A process with one TID, in either mode, and nothing granted.\<close>

lemma tid_reachable:
  assumes m: "m = MAPT_MODE_ENTRY \<or> m = MAPT_MODE_TABLE"
  obtains ctx mi where "reachable quiet_env ctx" "get_mapt_info_by_tid ctx 5 = Some mi" "mi_mode mi = m" "segs mi = Map.empty"
proof -
  have q: "driver_ok quiet_env" "fresh_mem quiet_env" using quiet_env_ok by (simp_all add: env_ok_def)
  obtain ctx w where alloc: "ummu_allocate_tid quiet_env (Some start_ctx) (Some m) False world0 = Some (0, Some ctx, Some 5, w)"
    using quiet_allocate [OF m] by blast
  have c: "ctx_ok quiet_env start_ctx" by (rule reachable_ok [OF start_reachable quiet_env_ok])
  show thesis
  proof (rule allocate_ok [OF c q, of "Some m" False world0])
    fix ret w' assume "ummu_allocate_tid quiet_env (Some start_ctx) (Some m) False world0 = Some (ret, Some start_ctx, None, w')"
    then show thesis using alloc by simp
  next
    fix tid mi ctx' w'
    assume a: "ummu_allocate_tid quiet_env (Some start_ctx) (Some m) False world0 = Some (0, Some ctx', Some tid, w')"
      "ctx_upd start_ctx tid mi ctx'" "mi_ok quiet_env mi" "Some m = Some (mi_mode mi)" "fresh_mapt mi"
    then have t: "tid = 5" using alloc by simp
    have "api_exec quiet_env sample_request (AllocateTid (Some m) False) start_ctx world0 = Some (0, Some ctx', w')"
      using a(1) by (simp add: api_exec_def)
    then have "reachable quiet_env ctx'" by (rule quiet_call [OF start_reachable])
    moreover have "get_mapt_info_by_tid ctx' 5 = Some mi" using a(2-4) t m by (auto simp: mi_ok_def ctx_upd_def get_mapt_info_by_tid_def check_mode_ok)
    moreover have "segs mi = Map.empty" using a(5) by (auto simp: fresh_mapt_def segs_def entry_segs_def split: block_base.splits)
    ultimately show thesis using that a(4) by simp
  qed
qed

lemma table_tid_reachable:
  obtains ctx mi where "reachable quiet_env ctx" "get_mapt_info_by_tid ctx 5 = Some mi" "mi_mode mi = MAPT_MODE_TABLE" "segs mi = Map.empty"
  by (rule tid_reachable [of MAPT_MODE_TABLE]) (rule disjI2, rule refl)

lemma segs_set_segs [simp]: "segs (set_segs mi tc t) = map_of t" "mi_valid (set_segs mi tc t) = mi_valid mi"
  "mi_mode (set_segs mi tc t) = mi_mode mi"
  by (simp_all add: segs_def set_segs_def)

lemma no_segs:
  assumes "mi_ok E mi" "mi_mode mi = MAPT_MODE_TABLE" "segs mi = Map.empty"
  shows "table_ok mi []"
proof -
  from assms(1,2) obtain t where t: "table_ok mi t" by (cases rule: mi_ok_cases) (auto simp: ummu_consts)
  with assms(3) table_ok_segs [OF t] show ?thesis by simp
qed

definition sample_attr :: seg_attr where
  "sample_attr = \<lparr>sa_token = Some \<lparr>ti_input = 0, ti_tokenVal = 9\<rparr>, sa_e_bit = UMMU_EBIT_ON\<rparr>"

lemma table_segment_reachable:
  obtains ctx mi where "reachable quiet_env ctx" "get_mapt_info_by_tid ctx 5 = Some mi" "mi_mode mi = MAPT_MODE_TABLE"
    "segs mi = [Range 0x7000 0x1FFF \<mapsto> segment 0x7000 0x2000 MAPT_PERM_RW UMMU_EBIT_ON (sa_token sample_attr)]"
proof -
  obtain ctx mi where c: "reachable quiet_env ctx" "get_mapt_info_by_tid ctx 5 = Some mi" "mi_mode mi = MAPT_MODE_TABLE" "segs mi = Map.empty"
    by (rule table_tid_reachable)
  have t: "table_ok mi []" by (rule no_segs [OF ctx_ok_get [OF reachable_ok [OF c(1) quiet_env_ok] c(2)] c(3,4)])
  obtain tc di w1 where g: "request_ok di" "request_range di = Range 0x7000 (0x2000 - 1)"
    "seg_of_grant di = segment 0x7000 0x2000 MAPT_PERM_RW (sa_e_bit sample_attr) (sa_token sample_attr)"
    "ummu_grant quiet_env sample_request (Some ctx) 5 0x7000 0x2000 MAPT_PERM_RW (Some sample_attr) world0 =
      (let ((ret, t'), w2) = ummu_insert_new_addr quiet_env [] di w1
       in Some (ret, Some (put_mapt ctx 5 (set_segs mi tc t')), Some sample_attr, w2))"
    by (rule first_grant [OF c(2) t quiet_fresh_mem, of sample_attr "0x2000" "0x7000" MAPT_PERM_RW sample_request world0])
      (simp_all add: sample_attr_def valid_perms_def)
  have m: "os_malloc quiet_env (clock w1)" by (simp add: quiet_env_def)
  obtain t' where t': "ummu_insert_new_addr quiet_env [] di w1 = ((0, t'), tick w1)" "map_of t' = [request_range di \<mapsto> seg_of_grant di]"
    by (rule insert_new_addr_free [of "[]", OF _ g(1) _ m]) (simp_all add: seg_wf_def)
  let ?mi = "set_segs mi tc t'"
  have "api_exec quiet_env sample_request (Grant 5 0x7000 0x2000 MAPT_PERM_RW (Some sample_attr)) ctx world0 = Some (0, Some (put_mapt ctx 5 ?mi), tick w1)"
    using g(4) t'(1) by (simp add: api_exec_def)
  then have "reachable quiet_env (put_mapt ctx 5 ?mi)" by (rule quiet_call [OF c(1)])
  moreover have "get_mapt_info_by_tid (put_mapt ctx 5 ?mi) 5 = Some ?mi" using get_put_mapt [OF c(2), of ?mi 5] by simp
  ultimately show thesis using that [of "put_mapt ctx 5 ?mi" ?mi] c(3) t'(2) g(2,3) by (simp add: sample_attr_def)
qed

lemma ungrant_call:
  "call = (case tok of None \<Rightarrow> Ungrant tid data sz | Some v \<Rightarrow> UngrantByToken tid data sz v) \<Longrightarrow>
   api_exec E junk call ctx w =
     ummu_ungrant_data E junk (Some ctx) tid data sz (case tok of None \<Rightarrow> 0 | Some v \<Rightarrow> v) (tok \<noteq> None) w"
  by (simp add: api_exec_def ummu_ungrant_def ummu_ungrant_by_token_def split: option.splits)

lemma table_mode_ok:
  assumes "ctx_ok E ctx" "get_mapt_info_by_tid ctx tid = Some mi" "mi_mode mi = MAPT_MODE_TABLE"
  obtains t where "table_ok mi t" "queues_ready E mi" "mi_valid mi \<noteq> 0" "segs mi = map_of t"
  using ctx_ok_get [OF assms(1,2)] assms(3) that table_ok_segs by (cases rule: mi_ok_cases) (auto simp: ummu_consts)

lemma ungrant_call_outcome:
  fixes data sz
  assumes c: "ctx_ok E ctx" and E: "fresh_mem E" and g: "get_mapt_info_by_tid ctx tid = Some mi"
    and call: "call = (case tok of None \<Rightarrow> Ungrant tid data sz | Some v \<Rightarrow> UngrantByToken tid data sz v)"
  defines "r \<equiv> Range data (sz - 1)"
  obtains ret ctx' w' mi' where "api_exec E junk call ctx w = Some (ret, Some ctx', w')"
    "get_mapt_info_by_tid ctx' tid = Some mi'" "\<forall>t. t \<noteq> tid \<longrightarrow> get_mapt_info_by_tid ctx' t = get_mapt_info_by_tid ctx t"
    "ret = 0 \<longleftrightarrow> sz \<noteq> 0 \<and> (mi_mode mi = MAPT_MODE_TABLE \<longrightarrow> unat data mod 4096 = 0) \<and> ungrant_possible (segs mi) r tok"
    "segs mi' = (if ret = 0 then ungrant_step (segs mi) r tok else segs mi)"
    "\<forall>x. access mi' x = (if ret = 0 \<and> in_range r x then map_option attrs_of_seg (segs mi' r) else access mi x)"
proof -
  let ?tv = "case tok of None \<Rightarrow> 0 | Some v \<Rightarrow> v" and ?b = "tok \<noteq> None"
  have tok: "tok = (if ?b then Some ?tv else None)" by (auto split: option.splits)
  show thesis
  proof (rule ungrant_outcome [OF c E g tok, where junk = junk and data = data and sz = sz and w = w, folded r_def])
    fix ret ctx' w' mi'
    assume u: "ummu_ungrant_data E junk (Some ctx) tid data sz ?tv ?b w = Some (ret, Some ctx', w')" "ctx_upd ctx tid mi' ctx'"
      "get_mapt_info_by_tid ctx' tid = Some mi'"
      "ret = 0 \<longleftrightarrow> sz \<noteq> 0 \<and> (mi_mode mi = MAPT_MODE_TABLE \<longrightarrow> unat data mod 4096 = 0) \<and> ungrant_possible (segs mi) r tok"
      "segs mi' = (if ret = 0 then ungrant_step (segs mi) r tok else segs mi)"
      "\<forall>x. access mi' x = (if ret = 0 \<and> in_range r x then map_option attrs_of_seg (segs mi' r) else access mi x)"
    have run: "api_exec E junk call ctx w = Some (ret, Some ctx', w')" unfolding ungrant_call [OF call] by (rule u(1))
    have others: "\<forall>t. t \<noteq> tid \<longrightarrow> get_mapt_info_by_tid ctx' t = get_mapt_info_by_tid ctx t" using ctx_upd_get(1) [OF u(2)] by simp
    show thesis by (rule that [OF run u(3) others u(4-6)])
  qed
qed

text \<open>A range that is not recorded cannot be ungranted.\<close>

lemma ungrant_unrecorded:
  assumes "get_mapt_info_by_tid ctx tid = Some mi" "mi_mode mi = MAPT_MODE_TABLE" "table_segs mi t"
    "map_of t (Range data (sz - 1)) = None" "0 < unat sz" "unat data + unat sz \<le> 2 ^ 48" "unat data mod 4096 = 0"
  shows "ummu_ungrant E junk (Some ctx) tid data sz w = Some (- EINVAL, Some ctx, w)"
proof -
  define d where "d = junk\<lparr>di_lvl := MAX_LEVEL_INDEX, di_data := data, di_data_size := sz, di_tokenval := 0, di_bytoken := False,
    di_data_base := data, di_data_limit := data + sz - 1\<rparr>"
  have ok: "request_ok d" "request_range d = Range data (sz - 1)" using assms(5,6) by (simp_all add: request_ok_def request_range_def d_def)
  have "ummu_ungrant_check mi d = Some UMMU_OP_END" using ungrant_check_table [OF assms(3) ok(1)] assms(4) by (simp add: ok(2))
  then show ?thesis using assms(1,2,5,7) unfolding ummu_ungrant_def ummu_ungrant_data_def
    by (auto simp: d_def [symmetric] ALIGN_VPAGE_iff Let_def)
qed

lemma quiet_ready: "queues_ready (E\<lparr>os_malloc := f\<rparr>) mi = queues_ready E mi"
  by (simp add: queues_ready_def plbi_ready_def mi_device_ok_def device_ok_def)

text \<open>What an ungrant that succeeds finds recorded, and what it leaves.\<close>

lemma ungrant_success:
  assumes "ctx_ok E ctx" "fresh_mem E" "get_mapt_info_by_tid ctx tid = Some mi"
    "ummu_ungrant_data E junk (Some ctx) tid data sz (case tok of None \<Rightarrow> 0 | Some v \<Rightarrow> v) (tok \<noteq> None) w = Some (0, Some ctx', w')"
  obtains s mi' where "segs mi (Range data (sz - 1)) = Some s" "get_mapt_info_by_tid ctx' tid = Some mi'"
    "segs mi' = ungrant_step (segs mi) (Range data (sz - 1)) tok" "\<And>mi3. ctx' = put_mapt ctx tid mi3 \<Longrightarrow> mi3 = mi'"
    "\<forall>x. access mi' x = (if in_range (Range data (sz - 1)) x then map_option attrs_of_seg (segs mi' (Range data (sz - 1))) else access mi x)"
proof -
  let ?r = "Range data (sz - 1)"
  have tok: "tok = (if tok \<noteq> None then Some (case tok of None \<Rightarrow> 0 | Some v \<Rightarrow> v) else None)" by (auto split: option.splits)
  obtain ret c w1 mi' where "ummu_ungrant_data E junk (Some ctx) tid data sz (case tok of None \<Rightarrow> 0 | Some v \<Rightarrow> v) (tok \<noteq> None) w = Some (ret, Some c, w1)"
    "ctx_upd ctx tid mi' c" "get_mapt_info_by_tid c tid = Some mi'"
    "ret = 0 \<longleftrightarrow> sz \<noteq> 0 \<and> (mi_mode mi = MAPT_MODE_TABLE \<longrightarrow> unat data mod 4096 = 0) \<and> ungrant_possible (segs mi) ?r tok"
    "segs mi' = (if ret = 0 then ungrant_step (segs mi) ?r tok else segs mi)"
    "\<forall>x. access mi' x = (if ret = 0 \<and> in_range ?r x then map_option attrs_of_seg (segs mi' ?r) else access mi x)"
    by (rule ungrant_outcome [OF assms(1-3) tok, where junk = junk and data = data and sz = sz and w = w])
  with assms(4) have u: "ctx_upd ctx tid mi' ctx'" "get_mapt_info_by_tid ctx' tid = Some mi'" "ungrant_possible (segs mi) ?r tok"
    "segs mi' = ungrant_step (segs mi) ?r tok"
    "\<forall>x. access mi' x = (if in_range ?r x then map_option attrs_of_seg (segs mi' ?r) else access mi x)" by simp_all
  obtain s where s: "segs mi ?r = Some s" using u(3) by (auto simp: ungrant_possible_def split: option.splits)
  have one: "mi3 = mi'" if "ctx' = put_mapt ctx tid mi3" for mi3
    using u(1) ctx_upd_put [OF assms(3), of mi3] that unfolding ctx_upd_def by (metis fun_upd_same option.inject)
  show thesis by (rule that [OF s u(2,4) one u(5)])
qed

text \<open>A process with one TID in table mode, which has granted \<open>0x7000 .. 0x8fff\<close> and uses the given queues.\<close>

lemma one_tid:
  assumes "\<And>mi. mi_queue_ctx mi = qc \<Longrightarrow> mi_kcmd_plbi mi = 0 \<Longrightarrow> queues_ready E mi"
  obtains ctx mi where "ctx_ok E ctx" "get_mapt_info_by_tid ctx 5 = Some mi" "mi_mode mi = MAPT_MODE_TABLE" "mi_kcmd_plbi mi = 0"
    "mi_queue_ctx mi = qc"
    "segs mi = [Range 0x7000 (0x2000 - 1) \<mapsto> segment 0x7000 0x2000 MAPT_PERM_RW UMMU_EBIT_ON (sa_token sample_attr)]"
proof -
  obtain ctx mi where c: "reachable quiet_env ctx" "get_mapt_info_by_tid ctx 5 = Some mi" "mi_mode mi = MAPT_MODE_TABLE"
    "segs mi = [Range 0x7000 0x1FFF \<mapsto> segment 0x7000 0x2000 MAPT_PERM_RW UMMU_EBIT_ON (sa_token sample_attr)]"
    by (rule table_segment_reachable)
  obtain t where t: "table_ok mi t" "mi_valid mi \<noteq> 0" "segs mi = map_of t"
    by (rule table_mode_ok [OF reachable_ok [OF c(1) quiet_env_ok] c(2,3)])
  let ?mi = "mi\<lparr>mi_kcmd_plbi := 0, mi_queue_ctx := qc\<rparr>"
  let ?ctx = "start_ctx\<lparr>cx_mapt_map := [(5, ?mi)]\<rparr>"
  have k: "table_ok ?mi t" "queues_ready E ?mi" using t assms by (auto simp: table_ok_def)
  have g: "ummu_map_get (cx_mapt_map ?ctx) u = (if u = 5 then Some ?mi else None)" for u
    by (simp add: ummu_map_get_def hashmap_get_def)
  have "ctx_ok E ?ctx" unfolding ctx_ok_def g using mi_ok_table [OF k] t(2) by (simp add: map_wf_def)
  moreover have "get_mapt_info_by_tid ?ctx 5 = Some ?mi" using t(2) c(3) unfolding get_mapt_info_by_tid_def g by (simp add: check_mode_ok)
  moreover have "segs ?mi = segs mi" by (simp add: segs_def)
  ultimately show thesis using that [of ?ctx ?mi] c(3,4) by simp
qed

end
