(* ===== verification/Ummu_Calls.thy ===== *)
theory Ummu_Calls
  imports Ummu_Api
begin

text \<open>
  What the public calls of the library promise, over the invariant of \<open>Ummu_Api\<close>: grants, ungrants and the
  invalidation they send in both modes, the allocation and release of TIDs, unloading.
\<close>

section \<open>Properties\<close>



text \<open>C2: In every state a process can reach without having lost the record of a grant (C12), the records of the segment manager and the permission table
  of a TID in table mode agree: the records are disjoint non-empty ranges, and an address can be
  accessed, with given attributes, exactly when a recorded segment with these attributes covers it.\<close>

theorem records_match_table:
  assumes "reachable E ctx" "env_ok E" "get_mapt_info_by_tid ctx tid = Some mi" "mi_mode mi = MAPT_MODE_TABLE"
  shows "\<exists>tc t. mi_block_base mi = TableBase tc \<and> tc_granted_addr_mng tc = Some t \<and> seg_wf t \<and>
    (\<forall>x g. access mi x = Some g \<longleftrightarrow> (\<exists>(r, s) \<in> set t. in_range r x \<and> g = attrs_of_seg s)) \<and>
    (\<forall>(r, s) \<in> set t. si_token_check s = 1 \<longrightarrow> si_token_count s \<in> {1, 2})"
proof -
  have "mi_ok E mi" by (rule ctx_ok_get [OF reachable_ok [OF assms(1,2)] assms(3)])
  then obtain t where t: "table_ok mi t" using assms(4) by (cases rule: mi_ok_cases) (auto simp: ummu_consts)
  then obtain tc where c: "mi_block_base mi = TableBase tc" "tc_granted_addr_mng tc = Some t" "seg_wf t" "\<forall>(r, s) \<in> set t. seg_ok s"
    by (rule table_okE)
  have "access mi x = Some g \<longleftrightarrow> (\<exists>(r, s) \<in> set t. in_range r x \<and> g = attrs_of_seg s)" for x g
    using table_ok_access [OF t, of x g] seg_wf_mem [OF c(3), of "\<lambda>r s. in_range r x \<and> g = attrs_of_seg s"]
    by (simp add: in_range_def conj_assoc)
  with c show ?thesis by (auto simp: seg_ok_def)
qed

theorem records_match_table_witness:
  "\<exists>ctx mi. reachable quiet_env ctx \<and> get_mapt_info_by_tid ctx 5 = Some mi \<and> access mi 0x7000 = None"
proof -
  obtain ctx mi where c: "reachable quiet_env ctx" "get_mapt_info_by_tid ctx 5 = Some mi" "mi_mode mi = MAPT_MODE_TABLE" "segs mi = Map.empty"
    by (rule table_tid_reachable)
  from records_match_table [OF c(1) quiet_env_ok c(2,3)] obtain tc t where
    t: "mi_block_base mi = TableBase tc" "tc_granted_addr_mng tc = Some t" "\<And>x g. access mi x = Some g \<longleftrightarrow> (\<exists>(r, s) \<in> set t. in_range r x \<and> g = attrs_of_seg s)"
    by blast
  have "t = []" using c(4) t(1,2) by (cases t) (auto simp: segs_def fun_eq_iff split: if_splits)
  then have "access mi 0x7000 = None" using t(3) [of "0x7000"] by (cases "access mi 0x7000") auto
  with c show ?thesis by blast
qed

text \<open>C1: Every call of the API returns, whatever the call and its arguments are, whichever system calls and
  \<^verbatim>\<open>malloc\<close> calls fail, and whatever the process did before, as long as none of its earlier grants lost the
  record of its segment (C12): the call ends without undefined behaviour (no access outside an array
  or a mapped block, no wrong union member, no endless loop), with a code and a context.  From this
  context the same holds again, unless this very call is a grant that loses its record.\<close>

theorem api_calls_return:
  assumes "reachable E ctx" "env_ok E"
  shows "\<exists>ret ctx' w'. api_exec E junk call ctx w = Some (ret, Some ctx', w') \<and>
    (\<not> lost E junk call ctx w \<longrightarrow> reachable E ctx')"
proof -
  from api_exec_ok [OF reachable_ok [OF assms] assms(2), of junk call w] obtain ret ctx' w' where
    "api_exec E junk call ctx w = Some (ret, Some ctx', w')" by blast
  with reachable.call [OF assms(1) this] show ?thesis by blast
qed

theorem api_calls_return_witness:
  "\<exists>ctx ret ctx' w'. get_mapt_info_by_tid ctx 5 \<noteq> None \<and>
     api_exec quiet_env sample_request (Ungrant 5 0x7000 0x2000) ctx world0 = Some (ret, Some ctx', w') \<and> reachable quiet_env ctx'"
proof -
  obtain ctx mi where c: "reachable quiet_env ctx" "get_mapt_info_by_tid ctx 5 = Some mi" by (rule table_tid_reachable)
  from api_calls_return [OF c(1) quiet_env_ok, of sample_request "Ungrant 5 0x7000 0x2000" world0] c(2) show ?thesis by auto
qed

text \<open>C3: \<^verbatim>\<open>ummu_grant\<close> in table mode, with a token supplied by the caller or none, in every state a process can
  reach without having lost the record of a grant.  It returns -EINVAL exactly when the request is
  malformed or the records do not allow it: an overlap with another segment, or the same segment
  without room for a second token or with another permission or e-bit.  When it returns 0, the
  segment is recorded as requested (or gets the second token) and every address of the range can be
  accessed with the recorded attributes.  Otherwise no record changes, and no access changes either,
  but for the one failure that loses the record (\<open>record_lost\<close>: no memory for it after the
  permission is in the table), which returns -ENOMEM and leaves the range accessible.  No other address
  and no other TID changes, whatever the result.\<close>

theorem table_mode_grant:
  assumes "reachable E ctx" "env_ok E" "get_mapt_info_by_tid ctx tid = Some mi" "mi_mode mi = MAPT_MODE_TABLE"
    "\<forall>tk \<in> set_option (sa_token attr). ti_input tk = 0"
  shows "let r = Range data (sz - 1); new = segment data sz perm (sa_e_bit attr) (sa_token attr);
      lost = record_lost E junk (cx_shared_fd ctx) mi data sz perm attr w in
    \<exists>ret ctx' mi' w'. ummu_grant E junk (Some ctx) tid data sz perm (Some attr) w = Some (ret, Some ctx', Some attr, w') \<and>
      get_mapt_info_by_tid ctx' tid = Some mi' \<and> ret \<in> {0, - EINVAL, - ERANGE, - ENOMEM} \<and> (lost \<longrightarrow> ret = - ENOMEM) \<and>
      (ret = - EINVAL \<longleftrightarrow>
        \<not> (0 < unat sz \<and> unat data + unat sz \<le> 2 ^ 48 \<and> unat data mod 4096 = 0 \<and> perm \<in> valid_perms \<and>
           sa_e_bit attr \<in> {UMMU_EBIT_OFF, UMMU_EBIT_ON} \<and> grant_possible (segs mi) r new (sa_token attr))) \<and>
      segs mi' = (if ret = 0 then grant_step (segs mi) r new (sa_token attr) else segs mi) \<and>
      (\<forall>x. access mi' x = (if ret = 0 \<and> in_range r x then map_option attrs_of_seg (segs mi' r)
         else if lost \<and> in_range r x then Some (attrs_of_seg new) else access mi x)) \<and>
      (\<forall>t. t \<noteq> tid \<longrightarrow> get_mapt_info_by_tid ctx' t = get_mapt_info_by_tid ctx t)"
proof -
  let ?r = "Range data (sz - 1)" and ?new = "segment data sz perm (sa_e_bit attr) (sa_token attr)"
  let ?d = "junk\<lparr>di_data := data, di_data_size := sz, di_perm := perm, di_token := sa_token attr, di_e_bit := sa_e_bit attr\<rparr>"
  obtain d1 where p: "ummu_perm_data_preproc E ?d w = ((0, d1), w)" "di_token d1 = sa_token attr"
    using preproc_supplied [of ?d E w] assms(5) by auto
  obtain ret ctx' tok w' mi' where g: "ummu_grant E junk (Some ctx) tid data sz perm (Some attr) w = Some (ret, Some ctx', Some (attr\<lparr>sa_token := tok\<rparr>), w')"
    "get_mapt_info_by_tid ctx' tid = Some mi'" "\<forall>t. t \<noteq> tid \<longrightarrow> get_mapt_info_by_tid ctx' t = get_mapt_info_by_tid ctx t"
    "ret \<in> {0, - EINVAL, - ERANGE, - ENOMEM}" "record_lost E junk (cx_shared_fd ctx) mi data sz perm attr w \<longrightarrow> ret = - ENOMEM"
    "tok = sa_token attr \<or> tok = di_token (snd (fst (ummu_perm_data_preproc E ?d w)))"
    "ret = - EINVAL \<longleftrightarrow> \<not> (ummu_check_data ?d MAPT_MODE_TABLE = 0 \<and> fst (fst (ummu_perm_data_preproc E ?d w)) = 0 \<and>
         grant_possible (segs mi) ?r (segment data sz perm (sa_e_bit attr) tok) tok)"
    "segs mi' = (if ret = 0 then grant_step (segs mi) ?r (segment data sz perm (sa_e_bit attr) tok) tok else segs mi)"
    "\<forall>x. access mi' x = (if ret = 0 \<and> in_range ?r x then map_option attrs_of_seg (segs mi' ?r)
       else if record_lost E junk (cx_shared_fd ctx) mi data sz perm attr w \<and> in_range ?r x
       then Some (attrs_of_seg (segment data sz perm (sa_e_bit attr) tok)) else access mi x)"
    by (rule grant_outcome [OF reachable_ok [OF assms(1,2)] env_mem [OF assms(2)] assms(3,4), where junk = junk and data = data and sz = sz
        and perm = perm and attr = attr and w = w])
  have tok: "tok = sa_token attr" using g(6) p by simp
  have inval: "ret = - EINVAL \<longleftrightarrow> \<not> (0 < unat sz \<and> unat data + unat sz \<le> 2 ^ 48 \<and> unat data mod 4096 = 0 \<and> perm \<in> valid_perms \<and>
       sa_e_bit attr \<in> {UMMU_EBIT_OFF, UMMU_EBIT_ON} \<and> grant_possible (segs mi) ?r ?new (sa_token attr))"
    using g(7) p(1) by (simp add: check_data_ok tok conj_assoc)
  have res: "ummu_grant E junk (Some ctx) tid data sz perm (Some attr) w = Some (ret, Some ctx', Some attr, w')"
    using g(1) by (simp add: tok)
  show ?thesis unfolding Let_def
    by (intro exI conjI) (fact res, fact g(2), fact g(4), fact g(5), fact inval, fact g(8) [unfolded tok], fact g(9) [unfolded tok], fact g(3))
qed

theorem table_mode_grant_witness:
  "\<exists>ctx mi ret ctx' mi' w'. reachable quiet_env ctx \<and> get_mapt_info_by_tid ctx 5 = Some mi \<and>
     ummu_grant quiet_env sample_request (Some ctx) 5 0x7000 0x2000 MAPT_PERM_RW (Some \<lparr>sa_token = None, sa_e_bit = UMMU_EBIT_ON\<rparr>) world0 =
       Some (ret, Some ctx', Some \<lparr>sa_token = None, sa_e_bit = UMMU_EBIT_ON\<rparr>, w') \<and>
     get_mapt_info_by_tid ctx' 5 = Some mi' \<and> ret \<noteq> - EINVAL \<and>
     (ret = 0 \<longrightarrow> access mi' 0x8FFF = Some \<lparr>ga_perm = ucast MAPT_PERM_RW, ga_ebit = ucast UMMU_EBIT_ON, ga_tokens = None\<rparr>)"
proof -
  obtain ctx mi where c: "reachable quiet_env ctx" "get_mapt_info_by_tid ctx 5 = Some mi" "mi_mode mi = MAPT_MODE_TABLE" "segs mi = Map.empty"
    by (rule table_tid_reachable)
  let ?a = "\<lparr>sa_token = None, sa_e_bit = UMMU_EBIT_ON\<rparr> :: seg_attr" and ?r = "Range 0x7000 (0x2000 - 1)"
  let ?new = "segment 0x7000 0x2000 MAPT_PERM_RW (sa_e_bit ?a) (sa_token ?a)"
  have "\<forall>tk \<in> set_option (sa_token ?a). ti_input tk = 0" by simp
  from table_mode_grant [OF c(1) quiet_env_ok c(2,3) this, where sz = "0x2000" and data = "0x7000" and perm = MAPT_PERM_RW
      and junk = sample_request and w = world0, unfolded Let_def]
  obtain ret ctx' mi' w' where g:
    "ummu_grant quiet_env sample_request (Some ctx) 5 0x7000 0x2000 MAPT_PERM_RW (Some ?a) world0 = Some (ret, Some ctx', Some ?a, w')"
    "get_mapt_info_by_tid ctx' 5 = Some mi'"
    "ret = - EINVAL \<longleftrightarrow> \<not> (0 < unat (0x2000 :: u64) \<and> unat (0x7000 :: u64) + unat (0x2000 :: u64) \<le> 2 ^ 48 \<and>
       unat (0x7000 :: u64) mod 4096 = 0 \<and> MAPT_PERM_RW \<in> valid_perms \<and> sa_e_bit ?a \<in> {UMMU_EBIT_OFF, UMMU_EBIT_ON} \<and>
       grant_possible (segs mi) ?r ?new (sa_token ?a))"
    "segs mi' = (if ret = 0 then grant_step (segs mi) ?r ?new (sa_token ?a) else segs mi)"
    "\<forall>x. access mi' x = (if ret = 0 \<and> in_range ?r x then map_option attrs_of_seg (segs mi' ?r)
       else if record_lost quiet_env sample_request (cx_shared_fd ctx) mi 0x7000 0x2000 MAPT_PERM_RW ?a world0 \<and> in_range ?r x
       then Some (attrs_of_seg ?new) else access mi x)"
    by (elim exE conjE) (rule that)
  have "ret \<noteq> - EINVAL" unfolding g(3) using c(4) by (simp add: grant_possible_def valid_perms_def)
  moreover have "access mi' 0x8FFF = Some \<lparr>ga_perm = ucast MAPT_PERM_RW, ga_ebit = ucast UMMU_EBIT_ON, ga_tokens = None\<rparr>" if "ret = 0"
    using g(4) g(5) [rule_format, of "0x8FFF"] that c(4)
    by (simp add: grant_step_def in_range_def Range_def segment_def attrs_of_seg_def)
  ultimately show ?thesis using c(1,2) g(1,2) by blast
qed

text \<open>C4: \<^verbatim>\<open>ummu_ungrant\<close> and \<^verbatim>\<open>ummu_ungrant_by_token\<close> in table mode, in every state a process can reach without
  having lost the record of a grant (C12).  They return 0 exactly when the size is not zero, the
  address is page-aligned and exactly this range is recorded (with this token, when one is given), and
  then they cannot fail, whatever memory is left: the record and all access to the range are gone, or,
  when the segment had two tokens and one was named, only that token is.  Otherwise nothing changes.
  No other address and no other TID changes.\<close>

theorem table_mode_ungrant:
  assumes "reachable E ctx" "env_ok E" "get_mapt_info_by_tid ctx tid = Some mi" "mi_mode mi = MAPT_MODE_TABLE"
    "call = (case tok of None \<Rightarrow> Ungrant tid data sz | Some v \<Rightarrow> UngrantByToken tid data sz v)"
  shows "let r = Range data (sz - 1) in
    \<exists>ret ctx' mi' w'. api_exec E junk call ctx w = Some (ret, Some ctx', w') \<and> get_mapt_info_by_tid ctx' tid = Some mi' \<and>
      (ret = 0 \<longleftrightarrow> sz \<noteq> 0 \<and> unat data mod 4096 = 0 \<and> ungrant_possible (segs mi) r tok) \<and>
      segs mi' = (if ret = 0 then ungrant_step (segs mi) r tok else segs mi) \<and>
      (\<forall>x. access mi' x = (if ret = 0 \<and> in_range r x then map_option attrs_of_seg (segs mi' r) else access mi x)) \<and>
      (\<forall>t. t \<noteq> tid \<longrightarrow> get_mapt_info_by_tid ctx' t = get_mapt_info_by_tid ctx t)"
proof -
  let ?r = "Range data (sz - 1)"
  obtain ret ctx' w' mi' where u: "api_exec E junk call ctx w = Some (ret, Some ctx', w')"
    "get_mapt_info_by_tid ctx' tid = Some mi'" "\<forall>t. t \<noteq> tid \<longrightarrow> get_mapt_info_by_tid ctx' t = get_mapt_info_by_tid ctx t"
    "ret = 0 \<longleftrightarrow> sz \<noteq> 0 \<and> (mi_mode mi = MAPT_MODE_TABLE \<longrightarrow> unat data mod 4096 = 0) \<and> ungrant_possible (segs mi) ?r tok"
    "segs mi' = (if ret = 0 then ungrant_step (segs mi) ?r tok else segs mi)"
    "\<forall>x. access mi' x = (if ret = 0 \<and> in_range ?r x then map_option attrs_of_seg (segs mi' ?r) else access mi x)"
    by (rule ungrant_call_outcome [OF reachable_ok [OF assms(1,2)] env_mem [OF assms(2)] assms(3,5), where junk = junk and w = w])
  have iff: "ret = 0 \<longleftrightarrow> sz \<noteq> 0 \<and> unat data mod 4096 = 0 \<and> ungrant_possible (segs mi) ?r tok" using u(4) assms(4) by simp
  show ?thesis unfolding Let_def
    by (intro exI conjI) (fact u(1), fact u(2), fact iff, fact u(5), fact u(6), fact u(3))
qed

theorem table_mode_ungrant_witness:
  "\<exists>ctx mi ctx' mi' w'. reachable quiet_env ctx \<and> get_mapt_info_by_tid ctx 5 = Some mi \<and> access mi 0x8123 \<noteq> None \<and>
     api_exec quiet_env sample_request (UngrantByToken 5 0x7000 0x2000 9) ctx world0 = Some (0, Some ctx', w') \<and>
     get_mapt_info_by_tid ctx' 5 = Some mi' \<and> access mi' 0x8123 = None"
proof -
  let ?r = "Range 0x7000 (0x2000 - 1)" and ?new = "segment 0x7000 0x2000 MAPT_PERM_RW UMMU_EBIT_ON (sa_token sample_attr)"
  obtain ctx mi where c: "reachable quiet_env ctx" "get_mapt_info_by_tid ctx 5 = Some mi" "mi_mode mi = MAPT_MODE_TABLE" "segs mi = [?r \<mapsto> ?new]"
    using table_segment_reachable by auto
  have in_r: "in_range ?r 0x8123" by (simp add: in_range_def Range_def)
  obtain t where t: "table_ok mi t"
    using ctx_ok_get [OF reachable_ok [OF c(1) quiet_env_ok] c(2)] c(3) by (cases rule: mi_ok_cases) (auto simp: ummu_consts)
  have acc: "access mi 0x8123 \<noteq> None" using access_seg [OF t, of ?r ?new] c(4) in_r by simp
  have poss: "ungrant_possible (segs mi) ?r (Some 9)" "ungrant_step (segs mi) ?r (Some 9) ?r = None"
    unfolding c(4) by (simp_all add: ungrant_possible_def ungrant_step_def segment_def sample_attr_def)
  have call: "UngrantByToken 5 0x7000 0x2000 9 =
      (case Some 9 of None \<Rightarrow> Ungrant 5 0x7000 0x2000 | Some v \<Rightarrow> UngrantByToken 5 0x7000 0x2000 v)" by simp
  from table_mode_ungrant [OF c(1) quiet_env_ok c(2,3) call, of sample_request world0, unfolded Let_def] obtain ret ctx' mi' w' where u:
    "api_exec quiet_env sample_request (UngrantByToken 5 0x7000 0x2000 9) ctx world0 = Some (ret, Some ctx', w')"
    "get_mapt_info_by_tid ctx' 5 = Some mi'"
    "ret = 0 \<longleftrightarrow> (0x2000 :: u64) \<noteq> 0 \<and> unat (0x7000 :: u64) mod 4096 = 0 \<and> ungrant_possible (segs mi) ?r (Some 9)"
    "segs mi' = (if ret = 0 then ungrant_step (segs mi) ?r (Some 9) else segs mi)"
    "\<forall>x. access mi' x = (if ret = 0 \<and> in_range ?r x then map_option attrs_of_seg (segs mi' ?r) else access mi x)"
    by (elim exE conjE) (rule that)
  have r0: "ret = 0" using u(3) poss(1) by simp
  have "access mi' 0x8123 = None" using u(4) u(5) [rule_format, of "0x8123"] r0 in_r poss(2) by simp
  then show ?thesis using c(1,2) u(1,2) r0 acc by blast
qed

text \<open>C12: When no memory is left for the record of a new segment (\<open>record_lost\<close>), \<^verbatim>\<open>ummu_grant\<close> on a TID in table
  mode, whatever it has granted so far, returns -ENOMEM and records nothing, but the permission stays in the
  table: every address of the range can be accessed with the requested attributes, all other access is
  as before, and the caller cannot take the permission back, because \<^verbatim>\<open>ummu_ungrant\<close> on the range
  returns -EINVAL and changes nothing, then and at any later time in this state.\<close>

theorem grant_unrecorded_on_enomem:
  assumes "ctx_ok E ctx" "fresh_mem E" "get_mapt_info_by_tid ctx tid = Some mi"
    "record_lost E junk (cx_shared_fd ctx) mi data sz perm attr w"
  shows "\<exists>tok ctx' mi' w'.
    ummu_grant E junk (Some ctx) tid data sz perm (Some attr) w = Some (- ENOMEM, Some ctx', Some (attr\<lparr>sa_token := tok\<rparr>), w') \<and>
    get_mapt_info_by_tid ctx' tid = Some mi' \<and> segs mi' = segs mi \<and> segs mi (Range data (sz - 1)) = None \<and>
    (\<forall>x. access mi' x = (if in_range (Range data (sz - 1)) x
       then Some (attrs_of_seg (segment data sz perm (sa_e_bit attr) tok)) else access mi x)) \<and>
    (\<forall>E' junk' w2. ummu_ungrant E' junk' (Some ctx') tid data sz w2 = Some (- EINVAL, Some ctx', w2))"
proof -
  have mode: "mi_mode mi = MAPT_MODE_TABLE" using assms(4) by (simp add: record_lost_def Let_def split: prod.splits)
  obtain t where t: "table_ok mi t" "queues_ready E mi" "mi_valid mi \<noteq> 0" by (rule table_mode_ok [OF assms(1,3) mode])
  note new = record_lost_new [OF t(1) assms(4)]
  obtain ret ctx' tok w' mi' t' where g: "ummu_grant E junk (Some ctx) tid data sz perm (Some attr) w = Some (ret, Some ctx', Some (attr\<lparr>sa_token := tok\<rparr>), w')"
    "ctx_upd ctx tid mi' ctx'" "if record_lost E junk (cx_shared_fd ctx) mi data sz perm attr w then ret = - ENOMEM \<and> unrecorded mi' t t' else table_ok mi' t'"
    "mi_valid mi' \<noteq> 0"
    "map_of t' = (if ret = 0 \<or> record_lost E junk (cx_shared_fd ctx) mi data sz perm attr w
       then grant_step (map_of t) (Range data (sz - 1)) (segment data sz perm (sa_e_bit attr) tok) tok else map_of t)"
    by (rule grant_table_mode [OF assms(3) t(1,2) assms(2), where junk = junk and data = data and sz = sz and perm = perm and attr = attr and w = w])
  have ret: "ret = - ENOMEM" and un: "unrecorded mi' t t'" using g(3) assms(4) by simp_all
  have m: "map_of t' = (map_of t)(Range data (sz - 1) \<mapsto> segment data sz perm (sa_e_bit attr) tok)"
    using g(5) assms(4) new(1) by (simp add: grant_step_def)
  have un': "mi_mode mi' = MAPT_MODE_TABLE" "table_segs mi' t" by (rule unrecordedE [OF un], simp add: table_segs_def ummu_consts)+
  have get: "get_mapt_info_by_tid ctx' tid = Some mi'" by (rule ctx_upd_get(2) [OF g(2,4) un'(1)])
  have "ummu_ungrant E' junk' (Some ctx') tid data sz w2 = Some (- EINVAL, Some ctx', w2)" for E' junk' w2
    by (rule ungrant_unrecorded [OF get un' new])
  then show ?thesis using g(1) get unrecorded_access [OF t(1) un m] new(1) table_ok_segs [OF t(1)] unfolding ret by auto
qed

theorem grant_unrecorded_on_enomem_witness:
  "\<exists>ctx mi ctx' mi' tok w'. get_mapt_info_by_tid ctx 5 = Some mi \<and> access mi 0x8123 = None \<and>
     ummu_grant (quiet_env\<lparr>os_malloc := \<lambda>_. False\<rparr>) sample_request (Some ctx) 5 0x7000 0x2000 MAPT_PERM_RW (Some sample_attr) world0 =
       Some (- ENOMEM, Some ctx', Some (sample_attr\<lparr>sa_token := tok\<rparr>), w') \<and>
     get_mapt_info_by_tid ctx' 5 = Some mi' \<and> access mi' 0x8123 \<noteq> None"
proof -
  let ?E = "quiet_env\<lparr>os_malloc := \<lambda>_. False\<rparr>"
  obtain ctx mi where c: "reachable quiet_env ctx" "get_mapt_info_by_tid ctx 5 = Some mi" "mi_mode mi = MAPT_MODE_TABLE" "segs mi = Map.empty"
    by (rule table_tid_reachable)
  have ok: "ctx_ok quiet_env ctx" by (rule reachable_ok [OF c(1) quiet_env_ok])
  have t: "table_ok mi []" by (rule no_segs [OF ctx_ok_get [OF ok c(2)] c(3,4)])
  have f: "fresh_mem ?E" using quiet_fresh_mem by (simp add: fresh_mem_def)
  have ctx: "ctx_ok ?E ctx" using ok by (simp add: ctx_ok_def mi_ok_def quiet_ready)
  have "record_lost ?E sample_request (cx_shared_fd ctx) mi 0x7000 0x2000 MAPT_PERM_RW sample_attr world0"
    by (rule first_grant [OF c(2) t f, of sample_attr "0x2000" "0x7000" MAPT_PERM_RW sample_request world0])
      (simp_all add: sample_attr_def valid_perms_def)
  from grant_unrecorded_on_enomem [OF ctx f c(2) this] obtain tok ctx' mi' w' where
    "ummu_grant ?E sample_request (Some ctx) 5 0x7000 0x2000 MAPT_PERM_RW (Some sample_attr) world0 = Some (- ENOMEM, Some ctx', Some (sample_attr\<lparr>sa_token := tok\<rparr>), w')"
    "get_mapt_info_by_tid ctx' 5 = Some mi'"
    "\<forall>x. access mi' x = (if in_range (Range 0x7000 (0x2000 - 1)) x
       then Some (attrs_of_seg (segment 0x7000 0x2000 MAPT_PERM_RW (sa_e_bit sample_attr) tok)) else access mi x)" by blast
  moreover have "in_range (Range 0x7000 (0x2000 - 1)) 0x8123" by (simp add: in_range_def Range_def)
  moreover have "access mi 0x8123 = None" using table_ok_access [OF t, of "0x8123"] by (cases "access mi 0x8123") auto
  ultimately show ?thesis using c(2) by fastforce
qed

text \<open>C14: \<^verbatim>\<open>ummu_allocate_tid\<close>.  On success the TID the driver handed out was not in the table and now has a
  control structure in the requested mode with nothing granted; no other TID changes.  On failure
  the context is as before, and a TID that the driver had already handed out is given back to it
  as the last thing the call does.\<close>

theorem allocate_tid_outcome:
  assumes "ctx_ok E ctx" "driver_ok E" "fresh_mem E"
  shows "\<exists>ret ctx' t w'. ummu_allocate_tid E (Some ctx) mode null w = Some (ret, Some ctx', t, w') \<and> ctx_ok E ctx' \<and>
    (if ret = 0
     then \<exists>tid mi. t = Some tid \<and> ummu_map_get (cx_mapt_map ctx) tid = None \<and>
        ummu_map_get (cx_mapt_map ctx') = (ummu_map_get (cx_mapt_map ctx))(tid \<mapsto> mi) \<and>
        mode = Some (mi_mode mi) \<and> mi_tid mi = tid \<and> fresh_mapt mi
     else ctx' = ctx \<and> t = None \<and>
        (\<forall>m info w1. mode = Some m \<and> ummu_check_input_param m null = 0 \<and>
           ummu_get_tid E (cx_shared_fd ctx) (zero_tid_info\<lparr>tf_mode := m\<rparr>) w = ((0, info), w1) \<longrightarrow>
           (\<exists>r. last (trace w') = SysIoctl UMMU_IOCFREE_TID (zero_tid_info\<lparr>tf_tid := tf_tid info\<rparr>) r)))"
proof (rule allocate_ok [OF assms, of mode null w])
  fix ret w'
  assume a: "ummu_allocate_tid E (Some ctx) mode null w = Some (ret, Some ctx, None, w')" "ret \<noteq> 0"
    "\<forall>m info w1. mode = Some m \<and> ummu_check_input_param m null = 0 \<and>
       ummu_get_tid E (cx_shared_fd ctx) (zero_tid_info\<lparr>tf_mode := m\<rparr>) w = ((0, info), w1) \<longrightarrow>
       (\<exists>w2. w' = ummu_put_tid E (cx_shared_fd ctx) (tf_tid info) w2)"
  have "\<exists>r. last (trace w') = SysIoctl UMMU_IOCFREE_TID (zero_tid_info\<lparr>tf_tid := tf_tid info\<rparr>) r"
    if "mode = Some m" "ummu_check_input_param m null = 0"
      "ummu_get_tid E (cx_shared_fd ctx) (zero_tid_info\<lparr>tf_mode := m\<rparr>) w = ((0, info), w1)" for m info w1
  proof -
    from that(3) have "0 \<le> cx_shared_fd ctx" by (auto simp: ummu_get_tid_def errno_defs split: if_splits)
    moreover from a(3) that obtain w2 where "w' = ummu_put_tid E (cx_shared_fd ctx) (tf_tid info) w2" by blast
    ultimately show ?thesis by (auto simp: ummu_put_tid_def sys_ioctl_def split: prod.splits)
  qed
  with a assms(1) show ?thesis by auto
next
  fix tid mi ctx' w'
  assume a: "ummu_allocate_tid E (Some ctx) mode null w = Some (0, Some ctx', Some tid, w')"
    "ummu_map_get (cx_mapt_map ctx) tid = None" "ctx_upd ctx tid mi ctx'" "mi_ok E mi" "mode = Some (mi_mode mi)" "fresh_mapt mi" "mi_tid mi = tid"
  then show ?thesis using ctx_ok_upd [OF assms(1) a(3,4)] by (auto simp: ctx_upd_def)
qed

theorem allocate_tid_outcome_witness:
  "\<exists>ret ctx' t w'. ummu_allocate_tid quiet_env (Some start_ctx) (Some MAPT_MODE_ENTRY) False world0 = Some (ret, Some ctx', t, w') \<and>
     (ret \<noteq> 0 \<longrightarrow> ctx' = start_ctx)"
proof -
  have q: "driver_ok quiet_env" "fresh_mem quiet_env" using quiet_env_ok by (simp_all add: env_ok_def)
  from allocate_tid_outcome [OF reachable_ok [OF start_reachable quiet_env_ok] q, of "Some MAPT_MODE_ENTRY" False world0] show ?thesis by metis
qed

text \<open>C15: \<^verbatim>\<open>ummu_free_tid\<close> on a TID of the table always succeeds: it removes this TID and no other, and gives
  the TID back to the driver as the last thing it does, after its structures are gone.  On an
  unknown TID it returns -EINVAL and does nothing.\<close>

theorem free_tid_outcome:
  assumes "ctx_ok E ctx"
  shows "\<exists>ret ctx' w'. ummu_free_tid E (Some ctx) tid w = Some (ret, Some ctx', w') \<and> ctx_ok E ctx' \<and>
    (if ummu_map_get (cx_mapt_map ctx) tid = None then ret = - EINVAL \<and> ctx' = ctx \<and> w' = w
     else ret = 0 \<and> ummu_map_get (cx_mapt_map ctx') = (ummu_map_get (cx_mapt_map ctx))(tid := None) \<and>
       (0 \<le> cx_shared_fd ctx \<longrightarrow> (\<exists>r. last (trace w') = SysIoctl UMMU_IOCFREE_TID (zero_tid_info\<lparr>tf_tid := tid\<rparr>) r)))"
proof (rule free_ok_call [OF assms, of tid w])
  assume "ummu_free_tid E (Some ctx) tid w = Some (- EINVAL, Some ctx, w)" "ummu_map_get (cx_mapt_map ctx) tid = None"
  with assms show ?thesis by simp
next
  fix ctx' w1
  assume "ummu_free_tid E (Some ctx) tid w = Some (0, Some ctx', ummu_put_tid E (cx_shared_fd ctx) tid w1)" "ctx_ok E ctx'"
    "ummu_map_get (cx_mapt_map ctx') = (ummu_map_get (cx_mapt_map ctx))(tid := None)" "ummu_map_get (cx_mapt_map ctx) tid \<noteq> None"
  then show ?thesis by (auto simp: ummu_put_tid_def sys_ioctl_def split: prod.splits)
qed

theorem free_tid_outcome_witness:
  "\<exists>ctx ctx' w'. get_mapt_info_by_tid ctx 5 \<noteq> None \<and> ummu_free_tid quiet_env (Some ctx) 5 world0 = Some (0, Some ctx', w') \<and>
     ummu_map_get (cx_mapt_map ctx') 5 = None"
proof -
  obtain ctx mi where c: "reachable quiet_env ctx" "get_mapt_info_by_tid ctx 5 = Some mi" by (rule table_tid_reachable)
  from free_tid_outcome [OF reachable_ok [OF c(1) quiet_env_ok], of 5 world0] get_mapt_info_SomeD(1) [OF c(2)] c(2) show ?thesis by auto
qed

section \<open>Unloading\<close>

lemma destroy_all:
  assumes "\<forall>(k, mi) \<in> set m. mi_ok E mi"
  shows "\<exists>w'. fold_opt (\<lambda>e. ummu_mapt_info_destroy E fd (snd e)) m w = Some w'"
proof -
  have "\<exists>w'. ummu_mapt_info_destroy E fd (snd e) w = Some w' \<and> True" if "e \<in> set m" for e w
    using mapt_destroy_ok [of E "snd e" fd w] assms that by (auto simp: ummu_mapt_info_destroy_def)
  then show ?thesis
    using fold_opt_total [where P = "\<lambda>_. True" and xs = m and f = "\<lambda>e. ummu_mapt_info_destroy E fd (snd e)" and s = w] by simp
qed

text \<open>C18: \<^verbatim>\<open>ummu_uninit\<close> always completes, whatever TIDs and grants a process still has: every control
  structure is destroyed without undefined behaviour, the context is gone, and closing the driver's
  file, which makes the driver reclaim the TIDs, is the last thing it does.\<close>

theorem unload_completes:
  assumes "ctx_ok E ctx"
  shows "\<exists>w'. ummu_uninit E (Some ctx) w = Some (None, w') \<and>
    (0 \<le> cx_shared_fd ctx \<longrightarrow> last (trace w') = SysClose (cx_shared_fd ctx))"
proof -
  have wf: "map_wf (cx_mapt_map ctx)" using assms by (simp add: ctx_ok_def)
  have "\<forall>(k, mi) \<in> set (cx_mapt_map ctx). mi_ok E mi"
    using assms wf by (auto simp: ctx_ok_def map_wf_def ummu_map_get_def hashmap_get_def)
  from destroy_all [OF this, of "cx_shared_fd ctx" w] obtain w1 where
    "fold_opt (\<lambda>e. ummu_mapt_info_destroy E (cx_shared_fd ctx) (snd e)) (cx_mapt_map ctx) w = Some w1" by blast
  then show ?thesis by (simp add: ummu_uninit_def ummu_map_clear_def hashmap_clear_def sys_close_def)
qed

theorem unload_completes_witness:
  "\<exists>ctx w'. get_mapt_info_by_tid ctx 5 \<noteq> None \<and> ummu_uninit quiet_env (Some ctx) world0 = Some (None, w')"
proof -
  obtain ctx mi where c: "reachable quiet_env ctx" "get_mapt_info_by_tid ctx 5 = Some mi" by (rule table_tid_reachable)
  from unload_completes [OF reachable_ok [OF c(1) quiet_env_ok], of world0] c(2) show ?thesis by blast
qed

text \<open>C5: An ungrant that reports success has told the hardware to forget the range, after the table or the entry
  was changed.  For a TID in either mode whose invalidations go through the kernel (\<^verbatim>\<open>kcmd_plbi\<close>), in a
  context that has the driver's file open, the last call that \<^verbatim>\<open>ummu_ungrant\<close> or \<^verbatim>\<open>ummu_ungrant_by_token\<close>
  makes is the ioctl that invalidates, for this TID, a range that contains the whole ungranted range.  The
  context is any of the library's invariant (\<open>ctx_ok\<close>), block memory is zeroed (\<open>fresh_mem\<close>).\<close>

theorem ungrant_invalidates:
  assumes "ctx_ok E ctx" "fresh_mem E" "get_mapt_info_by_tid ctx tid = Some mi"
    "mi_kcmd_plbi mi \<noteq> 0" "0 \<le> cx_shared_fd ctx"
    "call = (case tok of None \<Rightarrow> Ungrant tid data sz | Some v \<Rightarrow> UngrantByToken tid data sz v)"
    "api_exec E junk call ctx w = Some (0, Some ctx', w')"
  shows "\<exists>info r. last (trace w') = SysIoctl UMMU_IOCPLBI_VA info r \<and> tf_tid info = mi_tid mi \<and> covers info data sz"
proof -
  note u = assms(7) [unfolded ungrant_call [OF assms(6)]]
  obtain s where "segs mi (Range data (sz - 1)) = Some s" by (rule ungrant_success [OF assms(1-3) u]) blast
  then show ?thesis by (rule ungrant_invalidation [OF u assms(3) ctx_ok_get [OF assms(1,3)] assms(4,5)])
qed

theorem ungrant_invalidates_witness:
  "\<exists>ctx mi ctx' w' info r. get_mapt_info_by_tid ctx 5 = Some mi \<and>
     api_exec quiet_env sample_request (Ungrant 5 0x7000 0x2000) ctx world0 = Some (0, Some ctx', w') \<and>
     last (trace w') = SysIoctl UMMU_IOCPLBI_VA info r \<and> covers info 0x7000 0x2000"
proof -
  let ?r = "Range 0x7000 (0x2000 - 1)" and ?new = "segment 0x7000 0x2000 MAPT_PERM_RW UMMU_EBIT_ON (sa_token sample_attr)"
  obtain ctx mi where c: "reachable quiet_env ctx" "get_mapt_info_by_tid ctx 5 = Some mi" "mi_mode mi = MAPT_MODE_TABLE" "segs mi = [?r \<mapsto> ?new]"
    using table_segment_reachable by auto
  obtain t where t: "table_ok mi t" "queues_ready quiet_env mi" "mi_valid mi \<noteq> 0"
    using ctx_ok_get [OF reachable_ok [OF c(1) quiet_env_ok] c(2)] c(3) by (cases rule: mi_ok_cases) (auto simp: ummu_consts)
  let ?mi = "mi\<lparr>mi_kcmd_plbi := 1\<rparr>" and ?ctx = "(put_mapt ctx 5 (mi\<lparr>mi_kcmd_plbi := 1\<rparr>))\<lparr>cx_shared_fd := 3\<rparr>"
  have k: "table_ok ?mi t" "queues_ready quiet_env ?mi" using t by (auto simp: table_ok_def queues_ready_def plbi_ready_def)
  have g: "get_mapt_info_by_tid ?ctx 5 = Some ?mi" using get_put_mapt [OF c(2), of ?mi 5] by (simp add: get_mapt_info_by_tid_def)
  have "ctx_ok quiet_env (put_mapt ctx 5 ?mi)"
    by (rule ctx_ok_upd [OF reachable_ok [OF c(1) quiet_env_ok] ctx_upd_put [OF c(2)] mi_ok_table [OF k]]) (use t(3) in simp)
  then have ok: "ctx_ok quiet_env ?ctx" by (simp add: ctx_ok_def)
  note m = quiet_fresh_mem
  have poss: "ungrant_possible (map_of t) ?r None" using c(4) table_ok_segs [OF t(1)] by (simp add: ungrant_possible_def)
  obtain ctx' w' where u: "ummu_ungrant_data quiet_env sample_request (Some ?ctx) 5 0x7000 0x2000 0 False world0 = Some (0, Some ctx', w')"
    by (rule ungrant_table_mode [OF g k m, where bytoken = False and tok = None and data = "0x7000" and sz = "0x2000" and tv = 0
        and junk = sample_request and w = world0]) (use poss in auto)
  have run: "api_exec quiet_env sample_request (Ungrant 5 0x7000 0x2000) ?ctx world0 = Some (0, Some ctx', w')"
    using u by (simp add: api_exec_def ummu_ungrant_def)
  have call: "Ungrant 5 0x7000 0x2000 = (case None of None \<Rightarrow> Ungrant 5 0x7000 0x2000 | Some v \<Rightarrow> UngrantByToken 5 0x7000 0x2000 v)" by simp
  from ungrant_invalidates [OF ok m g _ _ call run] obtain info r where
    "last (trace w') = SysIoctl UMMU_IOCPLBI_VA info r" "covers info 0x7000 0x2000" by auto
  with g run show ?thesis by blast
qed


text \<open>C6: Invalidation through the user-mode queues (no \<^verbatim>\<open>kcmd_plbi\<close>), when no device has stopped (\<open>mi_prompt\<close>):
  after an ungrant that reports success, in either mode, every hardware queue of the TID was given, in its
  order and after all it was given before, the same PLBI command with its PSYNC, and the power-of-two
  range which this command names contains the whole ungranted range.  The context is any of the library's
  invariant (\<open>ctx_ok\<close>), block memory is zeroed (\<open>fresh_mem\<close>).\<close>

theorem ungrant_posts_invalidation:
  assumes "ctx_ok E ctx" "fresh_mem E" "get_mapt_info_by_tid ctx tid = Some mi" "mi_kcmd_plbi mi = 0" "mi_prompt E mi"
    "call = (case tok of None \<Rightarrow> Ungrant tid data sz | Some v \<Rightarrow> UngrantByToken tid data sz v)"
    "api_exec E junk call ctx w = Some (0, Some ctx', w')"
  shows "\<exists>cmd mi' qs qs'. get_mapt_info_by_tid ctx' tid = Some mi' \<and> cmd_covers cmd data sz \<and>
    qc_queue (mi_queue_ctx mi) = Some qs \<and> qc_queue (mi_queue_ctx mi') = Some qs' \<and>
    length qs = unat (qc_ummu_cnt (mi_queue_ctx mi)) \<and> length qs' = length qs \<and>
    (\<forall>i < length qs. posted (qc_cmd_que_pi_size (mi_queue_ctx mi)) (plbi_pairs mi cmd) (qs ! i) (qs' ! i))"
proof -
  note mi = ctx_ok_get [OF assms(1,3)]
  note u = assms(7) [unfolded ungrant_call [OF assms(6)]]
  obtain s mi' where s: "segs mi (Range data (sz - 1)) = Some s" "get_mapt_info_by_tid ctx' tid = Some mi'"
    "\<And>mi3. ctx' = put_mapt ctx tid mi3 \<Longrightarrow> mi3 = mi'" by (rule ungrant_success [OF assms(1-3) u]) blast
  have r: "plbi_ready E mi" "queues_ok mi" using mi_ok_ready(1) [OF mi] assms(4) by (auto simp: queues_ready_def plbi_ready_def)
  obtain qs where qs: "qc_queue (mi_queue_ctx mi) = Some qs" "length qs = unat (qc_ummu_cnt (mi_queue_ctx mi))"
    by (rule queues_okE [OF r(2)])
  from ungrant_posted [OF u assms(3) mi s(1) r(1) assms(4,5) qs(1)] obtain cmd mi3 qs' where p:
    "ctx' = put_mapt ctx tid mi3" "cmd_covers cmd data sz" "qc_queue (mi_queue_ctx mi3) = Some qs'" "length qs' = length qs"
    "\<forall>i < length qs. posted (qc_cmd_que_pi_size (mi_queue_ctx mi)) (plbi_pairs mi cmd) (qs ! i) (qs' ! i)" by blast
  have "get_mapt_info_by_tid ctx' tid = Some mi3" using s(2) s(3) [OF p(1)] by simp
  with p qs show ?thesis by blast
qed

text \<open>C13: When a device has stopped and its queues are full, an ungrant, in either mode, still returns 0 and
  changes the record and the access as it always does, but its invalidation is dropped: the queues of the
  TID are exactly as before, since the timeout of \<^verbatim>\<open>ummu_send_cmd\<close> is reported to nobody.  The request
  is one that \<^verbatim>\<open>ummu_ungrant\<close> accepts, in any context of the library's invariant (\<open>ctx_ok\<close>).\<close>

theorem ungrant_drops_invalidation:
  assumes "ctx_ok E ctx" "fresh_mem E" "get_mapt_info_by_tid ctx tid = Some mi" "mi_kcmd_plbi mi = 0"
    "device_stopped E" "queues_full mi"
    "call = (case tok of None \<Rightarrow> Ungrant tid data sz | Some v \<Rightarrow> UngrantByToken tid data sz v)"
    "sz \<noteq> 0" "mi_mode mi = MAPT_MODE_TABLE \<longrightarrow> unat data mod 4096 = 0" "ungrant_possible (segs mi) (Range data (sz - 1)) tok"
  shows "\<exists>ctx' mi' w'. api_exec E junk call ctx w = Some (0, Some ctx', w') \<and> get_mapt_info_by_tid ctx' tid = Some mi' \<and>
    segs mi' = ungrant_step (segs mi) (Range data (sz - 1)) tok \<and>
    (\<forall>x. access mi' x = (if in_range (Range data (sz - 1)) x then map_option attrs_of_seg (segs mi' (Range data (sz - 1)))
       else access mi x)) \<and>
    mi_queue_ctx mi' = mi_queue_ctx mi"
proof -
  let ?r = "Range data (sz - 1)"
  note mi = ctx_ok_get [OF assms(1,3)]
  obtain ret ctx' w' mi' where "api_exec E junk call ctx w = Some (ret, Some ctx', w')"
    "ret = 0 \<longleftrightarrow> sz \<noteq> 0 \<and> (mi_mode mi = MAPT_MODE_TABLE \<longrightarrow> unat data mod 4096 = 0) \<and> ungrant_possible (segs mi) ?r tok"
    by (rule ungrant_call_outcome [OF assms(1-3,7), where junk = junk and w = w])
  with assms(8-10) have run: "api_exec E junk call ctx w = Some (0, Some ctx', w')" by simp
  note u = run [unfolded ungrant_call [OF assms(7)]]
  obtain s mi' where s: "segs mi ?r = Some s" "get_mapt_info_by_tid ctx' tid = Some mi'"
    "segs mi' = ungrant_step (segs mi) ?r tok" "\<And>mi3. ctx' = put_mapt ctx tid mi3 \<Longrightarrow> mi3 = mi'"
    "\<forall>x. access mi' x = (if in_range ?r x then map_option attrs_of_seg (segs mi' ?r) else access mi x)"
    by (rule ungrant_success [OF assms(1-3) u]) blast
  have "queues_ok mi" using mi_ok_ready(1) [OF mi] assms(4) by (auto simp: queues_ready_def plbi_ready_def)
  from ungrant_dropped [OF u assms(3) mi s(1) assms(5) this assms(6,4)] obtain mi3 where
    p: "ctx' = put_mapt ctx tid mi3" "mi_queue_ctx mi3 = mi_queue_ctx mi" by blast
  then have q: "mi_queue_ctx mi' = mi_queue_ctx mi" using s(4) [OF p(1)] by simp
  show ?thesis by (intro exI conjI) (fact run, fact s(2), fact s(3), fact s(5), fact q)
qed

lemma queue_used_same: "queue_used s i i = 0"
  by (simp add: queue_used_def)

lemma sample_queues_ready: "mi_queue_ctx mi = sample_queue_ctx \<Longrightarrow> queues_ready quiet_env mi"
  using sample_plbi_ready [of mi] by (simp add: queues_ready_def sample_queue_ctx_def)

lemma sample_prompt:
  assumes "mi_queue_ctx mi = sample_queue_ctx"
  shows "mi_prompt quiet_env mi"
proof -
  have "queue_used 2 (ct_ucmdq_pi (qm_ctrl q)) (ct_ucmdq_pi (qm_ctrl q)) + 2 * plbi_num mi \<le> 2 ^ 2" for q
    using plbi_cmds_fit(2) [of mi] by (simp add: queue_used_same)
  then show ?thesis using assms by (auto simp: mi_prompt_def device_prompt_def sample_queue_ctx_def quiet_env_def Let_def)
qed

theorem ungrant_posts_invalidation_witness:
  "\<exists>ctx mi ctx' w' cmd mi' qs qs'. get_mapt_info_by_tid ctx 5 = Some mi \<and> mi_queue_ctx mi = sample_queue_ctx \<and>
     api_exec quiet_env sample_request (Ungrant 5 0x7000 0x2000) ctx world0 = Some (0, Some ctx', w') \<and>
     get_mapt_info_by_tid ctx' 5 = Some mi' \<and> cmd_covers cmd 0x7000 0x2000 \<and> qc_queue (mi_queue_ctx mi') = Some qs' \<and>
     posted 2 (plbi_pairs mi cmd) sample_queue (qs' ! 0)"
proof -
  let ?r = "Range 0x7000 (0x2000 - 1)"
  obtain ctx mi where c: "ctx_ok quiet_env ctx" "get_mapt_info_by_tid ctx 5 = Some mi" "mi_mode mi = MAPT_MODE_TABLE" "mi_kcmd_plbi mi = 0"
    "mi_queue_ctx mi = sample_queue_ctx"
    "segs mi = [?r \<mapsto> segment 0x7000 0x2000 MAPT_PERM_RW UMMU_EBIT_ON (sa_token sample_attr)]"
    by (rule one_tid [where E = quiet_env and qc = sample_queue_ctx]) (rule sample_queues_ready)
  obtain t where t: "table_ok mi t" "queues_ready quiet_env mi" "segs mi = map_of t" by (rule table_mode_ok [OF c(1-3)])
  note m = quiet_fresh_mem
  have poss: "ungrant_possible (map_of t) ?r None" unfolding t(3) [symmetric] c(6) by (simp add: ungrant_possible_def)
  obtain ctx' w' where u: "ummu_ungrant_data quiet_env sample_request (Some ctx) 5 0x7000 0x2000 0 False world0 = Some (0, Some ctx', w')"
    by (rule ungrant_table_mode [OF c(2) t(1,2) m, where bytoken = False and tok = None and data = "0x7000" and sz = "0x2000" and tv = 0
        and junk = sample_request and w = world0]) (use poss in auto)
  have call: "Ungrant 5 0x7000 0x2000 = (case None of None \<Rightarrow> Ungrant 5 0x7000 0x2000 | Some v \<Rightarrow> UngrantByToken 5 0x7000 0x2000 v)" by simp
  have run: "api_exec quiet_env sample_request (Ungrant 5 0x7000 0x2000) ctx world0 = Some (0, Some ctx', w')"
    using u by (simp add: api_exec_def ummu_ungrant_def)
  from ungrant_posts_invalidation [OF c(1) m c(2,4) sample_prompt [OF c(5)] call run] obtain cmd mi' qs qs' where p:
    "get_mapt_info_by_tid ctx' 5 = Some mi'" "cmd_covers cmd 0x7000 0x2000" "qc_queue (mi_queue_ctx mi) = Some qs"
    "qc_queue (mi_queue_ctx mi') = Some qs'" "\<forall>i < length qs. posted (qc_cmd_que_pi_size (mi_queue_ctx mi)) (plbi_pairs mi cmd) (qs ! i) (qs' ! i)"
    by blast
  have "posted 2 (plbi_pairs mi cmd) sample_queue (qs' ! 0)" using p(3,5) c(5) by (auto simp: sample_queue_ctx_def)
  with c(2,5) run p(1,2,4) show ?thesis by blast
qed

definition stopped_env :: os_env where
  "stopped_env = quiet_env\<lparr>os_device := \<lambda>_ q. (ct_ucmdq_ci (qm_ctrl q), ct_ucplq_pi (qm_ctrl q), qm_cpl q)\<rparr>"

lemma stopped_device: "device_stopped stopped_env" "device_ok stopped_env sz csz" "fresh_mem stopped_env"
proof -
  show "device_stopped stopped_env" by (simp add: device_stopped_def stopped_env_def)
  have "\<exists>k. k \<le> queue_used (unat sz) (ct_ucmdq_pi (qm_ctrl q)) (ct_ucmdq_ci (qm_ctrl q)) \<and>
      unat (ct_ucmdq_ci (qm_ctrl q)) = (unat (ct_ucmdq_ci (qm_ctrl q)) + k) mod 2 ^ Suc (unat sz)" if "queue_ok sz csz q" for q
    using that by (intro exI [of _ 0]) (auto simp: queue_ok_def ring_legal_def Let_def)
  then show "device_ok stopped_env sz csz"
    by (auto simp: device_ok_def stopped_env_def queue_ok_def Let_def)
  show "fresh_mem stopped_env" using quiet_fresh_mem by (simp add: fresh_mem_def stopped_env_def)
qed

definition full_queue_ctx :: queue_ctx where
  "full_queue_ctx = sample_queue_ctx\<lparr>qc_queue := Some [sample_queue\<lparr>qm_ctrl := (qm_ctrl sample_queue)\<lparr>ct_ucmdq_ci := 3\<rparr>\<rparr>]\<rparr>"

lemma full_queue_ready:
  assumes "mi_queue_ctx mi = full_queue_ctx"
  shows "queues_ready stopped_env mi" "queues_full mi"
proof -
  have "queue_ok 2 2 (sample_queue\<lparr>qm_ctrl := (qm_ctrl sample_queue)\<lparr>ct_ucmdq_ci := 3\<rparr>\<rparr>)"
    by (simp add: queue_ok_def sample_queue_def ring_legal_def queue_used_def)
  then show "queues_ready stopped_env mi"
    using assms stopped_device(2) by (simp add: queues_ready_def plbi_ready_def queues_ok_def mi_device_ok_def full_queue_ctx_def sample_queue_ctx_def)
  have "plbi_num mi = 1 \<or> plbi_num mi = 2" by (simp add: plbi_num_def)
  moreover have "\<not> queue_has_space 7 3 2 2" "\<not> queue_has_space 7 3 2 4" by code_simp+
  ultimately show "queues_full mi"
    using assms by (auto simp: queues_full_def full_queue_ctx_def sample_queue_ctx_def sample_queue_def CMD_NUM_PER_PLBI_def)
qed

theorem ungrant_drops_invalidation_witness:
  "\<exists>ctx mi ctx' mi' w'. get_mapt_info_by_tid ctx 5 = Some mi \<and> segs mi (Range 0x7000 (0x2000 - 1)) \<noteq> None \<and>
     api_exec stopped_env sample_request (Ungrant 5 0x7000 0x2000) ctx world0 = Some (0, Some ctx', w') \<and>
     get_mapt_info_by_tid ctx' 5 = Some mi' \<and> segs mi' (Range 0x7000 (0x2000 - 1)) = None \<and> mi_queue_ctx mi' = mi_queue_ctx mi"
proof -
  let ?r = "Range 0x7000 (0x2000 - 1)"
  obtain ctx mi where c: "ctx_ok stopped_env ctx" "get_mapt_info_by_tid ctx 5 = Some mi" "mi_mode mi = MAPT_MODE_TABLE" "mi_kcmd_plbi mi = 0"
    "mi_queue_ctx mi = full_queue_ctx"
    "segs mi = [?r \<mapsto> segment 0x7000 0x2000 MAPT_PERM_RW UMMU_EBIT_ON (sa_token sample_attr)]"
    by (rule one_tid [where E = stopped_env and qc = full_queue_ctx]) (rule full_queue_ready)
  have poss: "ungrant_possible (segs mi) ?r None" "ungrant_step (segs mi) ?r None ?r = None"
    unfolding c(6) by (simp_all add: ungrant_possible_def ungrant_step_def)
  have call: "Ungrant 5 0x7000 0x2000 = (case None of None \<Rightarrow> Ungrant 5 0x7000 0x2000 | Some v \<Rightarrow> UngrantByToken 5 0x7000 0x2000 v)" by simp
  have al: "(0x2000 :: u64) \<noteq> 0" "mi_mode mi = MAPT_MODE_TABLE \<longrightarrow> unat (0x7000 :: u64) mod 4096 = 0" by simp_all
  from ungrant_drops_invalidation [OF c(1) stopped_device(3) c(2,4) stopped_device(1) full_queue_ready(2) [OF c(5)] call al poss(1), of sample_request world0]
  obtain ctx' mi' w' where "api_exec stopped_env sample_request (Ungrant 5 0x7000 0x2000) ctx world0 = Some (0, Some ctx', w')"
    "get_mapt_info_by_tid ctx' 5 = Some mi'" "segs mi' = ungrant_step (segs mi) ?r None" "mi_queue_ctx mi' = mi_queue_ctx mi" by blast
  moreover have "segs mi ?r \<noteq> None" by (simp add: c(6))
  ultimately show ?thesis using c(2) poss(2) by metis
qed

text \<open>C16: The destruction of a TID in table mode removes the records and unmaps, in increasing order, exactly
  those blocks of level tables whose first table is in use; each of them is mapped at that time.  A block
  whose first table was released before the others therefore stays mapped.\<close>

theorem teardown_unmaps:
  assumes "mi_ok E mi" "mi_block_base mi = TableBase ctx"
  shows "\<exists>freed w'. ummu_mapt_table_ctx_uninit mi w = Some (mi\<lparr>mi_block_base := NoBase\<rparr>, freed, w') \<and>
    trace w' = trace w @ map (\<lambda>b. SysMunmap (mb_block_addr (the (tc_mapt_block_array ctx ! b))) (tc_blk_exp_size ctx))
      (filter (\<lambda>b. bm_bit (tc_level_block_bitmap ctx) (4 * b)) [0..<512]) \<and>
    (\<forall>b < 512. bm_bit (tc_level_block_bitmap ctx) (4 * b) \<longrightarrow> tc_mapt_block_array ctx ! b \<noteq> None)"
proof -
  let ?s = "ctx_walk ctx"
  obtain t where "table_ok mi t" using assms by (cases rule: mi_ok_cases) auto
  then have b: "blocks_ok ?s" using assms(2) by (auto simp: represents_def mapt_ok_def store_ok_def elim!: table_okE)
  have len: "length (tc_mapt_block_array ctx) = 512" using blocks_ok_lengths(2) [OF b] by (simp add: ctx_walk_def)
  have live: "live ?s (4 * i) \<longleftrightarrow> bm_bit (tc_level_block_bitmap ctx) (4 * i)" if "i < 512" for i
    using that by (simp add: live_def ctx_walk_def)
  have at: "blk_at i ?s = tc_mapt_block_array ctx ! i" if "i < 512" for i
    using that len by (simp add: blk_at_def ctx_walk_def arr_rd_def)
  have mapped: "tc_mapt_block_array ctx ! i \<noteq> None" if "i < 512" "bm_bit (tc_level_block_bitmap ctx) (4 * i)" for i
    using that blocks_ok_mapped [OF b that(1)] live at by simp
  obtain freed w' where u: "ummu_mapt_table_ctx_uninit mi w = Some (mi\<lparr>mi_block_base := NoBase\<rparr>, freed, w')"
    "trace w' = trace w @ map (\<lambda>b. SysMunmap (mb_block_addr (the (blk_at b ?s))) (tc_blk_exp_size ctx)) (filter (\<lambda>b. live ?s (4 * b)) [0..<512])"
    by (rule table_uninit_trace [OF assms(2) b])
  have "filter (\<lambda>b. live ?s (4 * b)) [0..<512] = filter (\<lambda>b. bm_bit (tc_level_block_bitmap ctx) (4 * b)) [0..<512]"
    using live by (intro filter_cong) auto
  moreover have "map (\<lambda>b. SysMunmap (mb_block_addr (the (blk_at b ?s))) (tc_blk_exp_size ctx)) (filter P [0..<512]) =
    map (\<lambda>b. SysMunmap (mb_block_addr (the (tc_mapt_block_array ctx ! b))) (tc_blk_exp_size ctx)) (filter P [0..<512])" for P
    using at by (intro map_cong) auto
  ultimately show ?thesis using u mapped by (metis (no_types, lifting))
qed

theorem teardown_unmaps_witness:
  "\<exists>mi ctx freed w' a ms. mi_block_base mi = TableBase ctx \<and>
     ummu_mapt_table_ctx_uninit mi world0 = Some (mi\<lparr>mi_block_base := NoBase\<rparr>, freed, w') \<and>
     trace w' = SysMunmap a (tc_blk_exp_size ctx) # ms"
proof -
  obtain ctx mi where c: "reachable quiet_env ctx" "get_mapt_info_by_tid ctx 5 = Some mi" "mi_mode mi = MAPT_MODE_TABLE" "segs mi = Map.empty"
    by (rule table_tid_reachable)
  have ok: "mi_ok quiet_env mi" by (rule ctx_ok_get [OF reachable_ok [OF c(1) quiet_env_ok] c(2)])
  obtain tc where tc: "mi_block_base mi = TableBase tc" "represents (ctx_walk tc) (grants_of (map_of []))"
    using no_segs [OF ok c(3,4)] by (auto elim: table_okE)
  then have "store_ok (ctx_walk tc)" by (simp add: represents_def mapt_ok_def)
  then have "live (ctx_walk tc) 0" unfolding store_ok_def by blast
  then have z: "bm_bit (tc_level_block_bitmap tc) (4 * 0)" by (simp add: live_def ctx_walk_def)
  have "[0..<512] = 0 # [Suc 0..<512]" by (rule upt_conv_Cons) simp
  moreover obtain freed w' where u: "ummu_mapt_table_ctx_uninit mi world0 = Some (mi\<lparr>mi_block_base := NoBase\<rparr>, freed, w')"
    "trace w' = trace world0 @ map (\<lambda>b. SysMunmap (mb_block_addr (the (tc_mapt_block_array tc ! b))) (tc_blk_exp_size tc))
      (filter (\<lambda>b. bm_bit (tc_level_block_bitmap tc) (4 * b)) [0..<512])"
    using teardown_unmaps [OF ok tc(1), of world0] by blast
  ultimately have "\<exists>a ms. trace w' = SysMunmap a (tc_blk_exp_size tc) # ms" using z by (simp add: world0_def)
  with tc(1) u(1) show ?thesis by blast
qed

section \<open>Entry mode\<close>

lemma entry_mode_ok:
  assumes "reachable E ctx" "env_ok E" "get_mapt_info_by_tid ctx tid = Some mi" "mi_mode mi = MAPT_MODE_ENTRY"
  obtains a n where "mi_block_base mi = EntryBase a n" "entry_ok n" "queues_ready E mi" "mi_valid mi \<noteq> 0" "segs mi = entry_segs n"
    "access mi = entry_access n"
proof -
  have "mi_ok E mi" by (rule ctx_ok_get [OF reachable_ok [OF assms(1,2)] assms(3)])
  then obtain a n where "mi_block_base mi = EntryBase a n" "entry_ok n" "queues_ready E mi" "mi_valid mi \<noteq> 0"
    using assms(4) by (cases rule: mi_ok_cases) (auto simp: ummu_consts)
  then show thesis by (intro that) (simp_all add: segs_def access_def)
qed

lemma entry_segment_reachable:
  obtains ctx mi where "reachable quiet_env ctx" "get_mapt_info_by_tid ctx 5 = Some mi" "mi_mode mi = MAPT_MODE_ENTRY"
    "segs mi = [Range 0x7123 (0x2000 - 1) \<mapsto> segment 0x7123 0x2000 MAPT_PERM_RW (sa_e_bit sample_attr) (sa_token sample_attr)]"
proof -
  obtain ctx mi where c: "reachable quiet_env ctx" "get_mapt_info_by_tid ctx 5 = Some mi" "mi_mode mi = MAPT_MODE_ENTRY" "segs mi = Map.empty"
    by (rule tid_reachable [of MAPT_MODE_ENTRY]) (rule disjI1, rule refl)
  obtain a n where e: "mi_block_base mi = EntryBase a n" "entry_ok n" "queues_ready quiet_env mi" "mi_valid mi \<noteq> 0" "segs mi = entry_segs n"
    by (rule entry_mode_ok [OF c(1) quiet_env_ok c(2,3)])
  let ?d = "sample_request\<lparr>di_data := 0x7123, di_data_size := 0x2000, di_perm := MAPT_PERM_RW, di_token := sa_token sample_attr, di_e_bit := sa_e_bit sample_attr\<rparr>"
  obtain d1 where p: "ummu_perm_data_preproc quiet_env ?d world0 = ((0, d1), world0)" "di_token d1 = sa_token sample_attr"
    using preproc_supplied [of ?d quiet_env world0] by (auto simp: sample_attr_def)
  have chk: "ummu_check_data ?d MAPT_MODE_ENTRY = 0" by (simp add: check_data_ok sample_attr_def valid_perms_def ummu_consts)
  obtain ret ctx' tok w' mi' n' where g: "ummu_grant quiet_env sample_request (Some ctx) 5 0x7123 0x2000 MAPT_PERM_RW (Some sample_attr) world0 =
      Some (ret, Some ctx', Some (sample_attr\<lparr>sa_token := tok\<rparr>), w')"
    "ctx_upd ctx 5 mi' ctx'" "mi_mode mi' = MAPT_MODE_ENTRY" "mi_block_base mi' = EntryBase a n'" "mi_valid mi' \<noteq> 0"
    "let d = ?d in (tok = sa_token sample_attr \<or> tok = di_token (snd (fst (ummu_perm_data_preproc quiet_env d world0)))) \<and>
       (ret = 0 \<longleftrightarrow> ummu_check_data d MAPT_MODE_ENTRY = 0 \<and> fst (fst (ummu_perm_data_preproc quiet_env d world0)) = 0 \<and>
         entry_possible (entry_segs n) (Range 0x7123 (0x2000 - 1)) (segment 0x7123 0x2000 MAPT_PERM_RW (sa_e_bit sample_attr) tok) tok)"
    "entry_segs n' = (if ret = 0 then grant_step (entry_segs n) (Range 0x7123 (0x2000 - 1)) (segment 0x7123 0x2000 MAPT_PERM_RW (sa_e_bit sample_attr) tok) tok
       else entry_segs n)"
    by (rule grant_entry_mode [OF c(2,3) e(1-4), where junk = sample_request and data = "0x7123" and sz = "0x2000" and perm = MAPT_PERM_RW
        and attr = sample_attr and w = world0])
  have tok: "tok = sa_token sample_attr" using g(6) p by (simp add: Let_def)
  have "entry_possible (entry_segs n) (Range 0x7123 (0x2000 - 1)) (segment 0x7123 0x2000 MAPT_PERM_RW (sa_e_bit sample_attr) tok) tok"
    using c(4) e(5) by (simp add: entry_possible_def)
  then have ret: "ret = 0" using g(6) chk p(1) unfolding Let_def by simp
  have s: "segs mi' = [Range 0x7123 (0x2000 - 1) \<mapsto> segment 0x7123 0x2000 MAPT_PERM_RW (sa_e_bit sample_attr) (sa_token sample_attr)]"
  proof -
    have "entry_segs n = Map.empty" using c(4) e(5) by simp
    then show ?thesis using g(4,7) ret by (simp add: segs_def tok grant_step_def)
  qed
  have "api_exec quiet_env sample_request (Grant 5 0x7123 0x2000 MAPT_PERM_RW (Some sample_attr)) ctx world0 = Some (0, Some ctx', w')"
    using g(1) ret by (simp add: api_exec_def)
  then have "reachable quiet_env ctx'" by (rule quiet_call [OF c(1)])
  then show thesis using ctx_upd_get_entry [OF g(2,5,3)] g(3) s by (rule that)
qed

text \<open>C21: \<^verbatim>\<open>ummu_grant\<close> in entry mode, with a token supplied by the caller or none.  It returns 0 exactly when
  the request is well-formed and either nothing is granted, or exactly this range is, with a token, the same
  permission and e-bit and no second token yet, and this call brings one.  Then the range is recorded in
  the entry node (or gets the second token) and every address of the range can be accessed with the
  recorded attributes.  Otherwise it returns -EINVAL and nothing changes.  No other address and no other
  TID changes.\<close>

theorem entry_grant_outcome:
  assumes "reachable E ctx" "env_ok E" "get_mapt_info_by_tid ctx tid = Some mi" "mi_mode mi = MAPT_MODE_ENTRY"
    "\<forall>tk \<in> set_option (sa_token attr). ti_input tk = 0"
  shows "let r = Range data (sz - 1); new = segment data sz perm (sa_e_bit attr) (sa_token attr) in
    \<exists>ret ctx' mi' w'. ummu_grant E junk (Some ctx) tid data sz perm (Some attr) w = Some (ret, Some ctx', Some attr, w') \<and>
      get_mapt_info_by_tid ctx' tid = Some mi' \<and> ret \<in> {0, - EINVAL} \<and>
      (ret = 0 \<longleftrightarrow> 0 < unat sz \<and> unat data + unat sz \<le> 2 ^ 48 \<and> perm \<in> valid_perms \<and>
         sa_e_bit attr \<in> {UMMU_EBIT_OFF, UMMU_EBIT_ON} \<and>
         (segs mi = Map.empty \<or> segs mi r \<noteq> None \<and> grant_possible (segs mi) r new (sa_token attr))) \<and>
      segs mi' = (if ret = 0 then grant_step (segs mi) r new (sa_token attr) else segs mi) \<and>
      (\<forall>x. access mi' x = (if ret = 0 \<and> in_range r x then map_option attrs_of_seg (segs mi' r) else access mi x)) \<and>
      (\<forall>t. t \<noteq> tid \<longrightarrow> get_mapt_info_by_tid ctx' t = get_mapt_info_by_tid ctx t)"
proof -
  let ?r = "Range data (sz - 1)" and ?new = "segment data sz perm (sa_e_bit attr) (sa_token attr)"
  let ?d = "junk\<lparr>di_data := data, di_data_size := sz, di_perm := perm, di_token := sa_token attr, di_e_bit := sa_e_bit attr\<rparr>"
  obtain a n where e: "mi_block_base mi = EntryBase a n" "entry_ok n" "queues_ready E mi" "mi_valid mi \<noteq> 0"
    and now: "segs mi = entry_segs n" "access mi = entry_access n" by (rule entry_mode_ok [OF assms(1-4)])
  obtain ret ctx' tok w' mi' n' where g: "ummu_grant E junk (Some ctx) tid data sz perm (Some attr) w = Some (ret, Some ctx', Some (attr\<lparr>sa_token := tok\<rparr>), w')"
    "ctx_upd ctx tid mi' ctx'" "mi_mode mi' = MAPT_MODE_ENTRY" "mi_block_base mi' = EntryBase a n'" "mi_valid mi' \<noteq> 0" "ret \<in> {0, - EINVAL}"
    "let d = ?d in (tok = sa_token attr \<or> tok = di_token (snd (fst (ummu_perm_data_preproc E d w)))) \<and>
       (ret = 0 \<longleftrightarrow> ummu_check_data d MAPT_MODE_ENTRY = 0 \<and> fst (fst (ummu_perm_data_preproc E d w)) = 0 \<and>
         entry_possible (entry_segs n) ?r (segment data sz perm (sa_e_bit attr) tok) tok)"
    "entry_segs n' = (if ret = 0 then grant_step (entry_segs n) ?r (segment data sz perm (sa_e_bit attr) tok) tok else entry_segs n)"
    by (rule grant_entry_mode [OF assms(3,4) e, where junk = junk and data = data and sz = sz and perm = perm and attr = attr and w = w])
  obtain d1 where p: "ummu_perm_data_preproc E ?d w = ((0, d1), w)" "di_token d1 = sa_token attr"
    using preproc_supplied [of ?d E w] assms(5) by auto
  have tok: "tok = sa_token attr" using g(7) p by (simp add: Let_def)
  have new: "segs mi' = entry_segs n'" "access mi' = entry_access n'" using g(4) by (simp_all add: segs_def access_def)
  have ne: "MAPT_MODE_ENTRY \<noteq> MAPT_MODE_TABLE" by (simp add: ummu_consts)
  have poss: "entry_possible (entry_segs n) ?r ?new (sa_token attr) \<longleftrightarrow>
      segs mi = Map.empty \<or> segs mi ?r \<noteq> None \<and> grant_possible (segs mi) ?r ?new (sa_token attr)" by (simp add: entry_possible_def now)
  have iff: "ret = 0 \<longleftrightarrow> 0 < unat sz \<and> unat data + unat sz \<le> 2 ^ 48 \<and> perm \<in> valid_perms \<and>
      sa_e_bit attr \<in> {UMMU_EBIT_OFF, UMMU_EBIT_ON} \<and>
      (segs mi = Map.empty \<or> segs mi ?r \<noteq> None \<and> grant_possible (segs mi) ?r ?new (sa_token attr))"
    unfolding poss [symmetric] using g(7) p(1) ne by (simp add: Let_def check_data_ok tok conj_assoc)
  have segs': "segs mi' = (if ret = 0 then grant_step (segs mi) ?r ?new (sa_token attr) else segs mi)"
    using g(8) by (simp add: tok now new)
  have acc: "access mi' x = (if ret = 0 \<and> in_range ?r x then map_option attrs_of_seg (segs mi' ?r) else access mi x)" for x
    unfolding now new using segs' iff unfolding now new by (intro entry_grant_access) auto
  have res: "ummu_grant E junk (Some ctx) tid data sz perm (Some attr) w = Some (ret, Some ctx', Some attr, w')"
    using g(1) by (simp add: tok)
  note get = ctx_upd_get_entry [OF g(2,5,3)] ctx_upd_get(1) [OF g(2)]
  show ?thesis unfolding Let_def
    by (intro exI conjI allI impI) (fact res, fact get(1), fact g(6), fact iff, fact segs', fact acc, rule get(2))
qed

text \<open>C22: \<^verbatim>\<open>ummu_ungrant\<close> and \<^verbatim>\<open>ummu_ungrant_by_token\<close> in entry mode.  They return 0 exactly when the size is
  not zero and exactly this range is granted (with this token, when one is given); then the record and
  all access are gone, or, when the segment had two tokens and one was named, only that token is.
  Otherwise nothing changes.  No other TID changes.\<close>

theorem entry_ungrant_outcome:
  assumes "reachable E ctx" "env_ok E" "get_mapt_info_by_tid ctx tid = Some mi" "mi_mode mi = MAPT_MODE_ENTRY"
    "call = (case tok of None \<Rightarrow> Ungrant tid data sz | Some v \<Rightarrow> UngrantByToken tid data sz v)"
  shows "let r = Range data (sz - 1) in
    \<exists>ret ctx' mi' w'. api_exec E junk call ctx w = Some (ret, Some ctx', w') \<and> get_mapt_info_by_tid ctx' tid = Some mi' \<and>
      (ret = 0 \<longleftrightarrow> sz \<noteq> 0 \<and> ungrant_possible (segs mi) r tok) \<and>
      segs mi' = (if ret = 0 then ungrant_step (segs mi) r tok else segs mi) \<and>
      (\<forall>x. access mi' x = (if ret = 0 \<and> in_range r x then map_option attrs_of_seg (segs mi' r) else access mi x)) \<and>
      (\<forall>t. t \<noteq> tid \<longrightarrow> get_mapt_info_by_tid ctx' t = get_mapt_info_by_tid ctx t)"
proof -
  let ?r = "Range data (sz - 1)"
  obtain ret ctx' w' mi' where u: "api_exec E junk call ctx w = Some (ret, Some ctx', w')"
    "get_mapt_info_by_tid ctx' tid = Some mi'" "\<forall>t. t \<noteq> tid \<longrightarrow> get_mapt_info_by_tid ctx' t = get_mapt_info_by_tid ctx t"
    "ret = 0 \<longleftrightarrow> sz \<noteq> 0 \<and> (mi_mode mi = MAPT_MODE_TABLE \<longrightarrow> unat data mod 4096 = 0) \<and> ungrant_possible (segs mi) ?r tok"
    "segs mi' = (if ret = 0 then ungrant_step (segs mi) ?r tok else segs mi)"
    "\<forall>x. access mi' x = (if ret = 0 \<and> in_range ?r x then map_option attrs_of_seg (segs mi' ?r) else access mi x)"
    by (rule ungrant_call_outcome [OF reachable_ok [OF assms(1,2)] env_mem [OF assms(2)] assms(3,5), where junk = junk and w = w])
  have iff: "ret = 0 \<longleftrightarrow> sz \<noteq> 0 \<and> ungrant_possible (segs mi) ?r tok" using u(4) assms(4) by (simp add: ummu_consts)
  show ?thesis unfolding Let_def
    by (intro exI conjI) (fact u(1), fact u(2), fact iff, fact u(5), fact u(6), fact u(3))
qed

theorem entry_grant_outcome_witness:
  "\<exists>ctx mi ctx' mi' w'. reachable quiet_env ctx \<and> get_mapt_info_by_tid ctx 5 = Some mi \<and> mi_mode mi = MAPT_MODE_ENTRY \<and>
     ummu_grant quiet_env sample_request (Some ctx) 5 0x7123 0x2000 MAPT_PERM_RW (Some sample_attr) world0 = Some (0, Some ctx', Some sample_attr, w') \<and>
     get_mapt_info_by_tid ctx' 5 = Some mi' \<and> access mi' 0x8000 \<noteq> None"
proof -
  obtain ctx mi where c: "reachable quiet_env ctx" "get_mapt_info_by_tid ctx 5 = Some mi" "mi_mode mi = MAPT_MODE_ENTRY" "segs mi = Map.empty"
    by (rule tid_reachable [of MAPT_MODE_ENTRY]) (rule disjI1, rule refl)
  let ?r = "Range 0x7123 (0x2000 - 1)" and ?new = "segment 0x7123 0x2000 MAPT_PERM_RW (sa_e_bit sample_attr) (sa_token sample_attr)"
  have a: "\<forall>tk \<in> set_option (sa_token sample_attr). ti_input tk = 0" by (simp add: sample_attr_def)
  from entry_grant_outcome [OF c(1) quiet_env_ok c(2,3) a, of "0x7123" "0x2000" MAPT_PERM_RW sample_request world0, unfolded Let_def]
  obtain ret ctx' mi' w' where g: "ummu_grant quiet_env sample_request (Some ctx) 5 0x7123 0x2000 MAPT_PERM_RW (Some sample_attr) world0 = Some (ret, Some ctx', Some sample_attr, w')"
    "get_mapt_info_by_tid ctx' 5 = Some mi'"
    "ret = 0 \<longleftrightarrow> 0 < unat (0x2000 :: u64) \<and> unat (0x7123 :: u64) + unat (0x2000 :: u64) \<le> 2 ^ 48 \<and> MAPT_PERM_RW \<in> valid_perms \<and>
       sa_e_bit sample_attr \<in> {UMMU_EBIT_OFF, UMMU_EBIT_ON} \<and>
       (segs mi = Map.empty \<or> segs mi ?r \<noteq> None \<and> grant_possible (segs mi) ?r ?new (sa_token sample_attr))"
    "segs mi' = (if ret = 0 then grant_step (segs mi) ?r ?new (sa_token sample_attr) else segs mi)"
    "\<forall>x. access mi' x = (if ret = 0 \<and> in_range ?r x then map_option attrs_of_seg (segs mi' ?r) else access mi x)"
    by (elim exE conjE) (rule that)
  have "ret = 0" unfolding g(3) using c(4) by (simp add: valid_perms_def sample_attr_def)
  moreover have "segs mi' ?r \<noteq> None" using g(4) \<open>ret = 0\<close> by (simp add: grant_step_def)
  moreover have "in_range ?r 0x8000" by (simp add: in_range_def Range_def)
  ultimately have "access mi' 0x8000 \<noteq> None" using g(5) by simp
  with c(1-3) g(1,2) \<open>ret = 0\<close> show ?thesis by blast
qed

theorem entry_ungrant_outcome_witness:
  "\<exists>ctx mi ret ctx' mi' w'. reachable quiet_env ctx \<and> get_mapt_info_by_tid ctx 5 = Some mi \<and> segs mi \<noteq> Map.empty \<and>
     api_exec quiet_env sample_request (UngrantByToken 5 0x7123 0x2000 9) ctx world0 = Some (0, Some ctx', w') \<and>
     get_mapt_info_by_tid ctx' 5 = Some mi' \<and> segs mi' = Map.empty"
proof -
  let ?r = "Range 0x7123 (0x2000 - 1)" and ?new = "segment 0x7123 0x2000 MAPT_PERM_RW (sa_e_bit sample_attr) (sa_token sample_attr)"
  obtain ctx mi where c: "reachable quiet_env ctx" "get_mapt_info_by_tid ctx 5 = Some mi" "mi_mode mi = MAPT_MODE_ENTRY" "segs mi = [?r \<mapsto> ?new]"
    by (rule entry_segment_reachable)
  have call: "UngrantByToken 5 0x7123 0x2000 9 = (case Some 9 of None \<Rightarrow> Ungrant 5 0x7123 0x2000 | Some v \<Rightarrow> UngrantByToken 5 0x7123 0x2000 v)" by simp
  have poss: "ungrant_possible (segs mi) ?r (Some 9)" "ungrant_step (segs mi) ?r (Some 9) = Map.empty"
    unfolding c(4) by (simp_all add: ungrant_possible_def ungrant_step_def segment_def sample_attr_def)
  from entry_ungrant_outcome [OF c(1) quiet_env_ok c(2,3) call, of sample_request world0, unfolded Let_def] obtain ret ctx' mi' w' where u:
    "api_exec quiet_env sample_request (UngrantByToken 5 0x7123 0x2000 9) ctx world0 = Some (ret, Some ctx', w')"
    "get_mapt_info_by_tid ctx' 5 = Some mi'" "ret = 0 \<longleftrightarrow> (0x2000 :: u64) \<noteq> 0 \<and> ungrant_possible (segs mi) ?r (Some 9)"
    "segs mi' = (if ret = 0 then ungrant_step (segs mi) ?r (Some 9) else segs mi)"
    by (elim exE conjE) (rule that)
  have "ret = 0" using u(3) poss by simp
  moreover have "segs mi \<noteq> Map.empty" by (simp add: c(4))
  ultimately show ?thesis using c(1,2) u poss(2) by auto
qed

end
