(* ===== verification/Spec2Isabelle.thy ===== *)
theory Spec2Isabelle
  imports Ummu_Calls
begin

text \<open>
  Verification of libummu, the user-mode library of the UMMU (\<^verbatim>\<open>src/\<close>).

  \<^bold>\<open>The program.\<close>  A process obtains a TID from the driver behind \<^verbatim>\<open>/dev/ummu/tid\<close> and grants
  devices access to ranges of its memory under that TID.  The hardware reads the permissions from
  memory that the driver maps into the process: one permission entry per TID in entry mode, or a
  permission table of four levels in table mode.  The library checks each request, writes this
  memory, keeps its own record of the granted segments (table mode), and tells the hardware to
  forget cached permissions, through command queues that are also mapped, or through an ioctl.

  \<^bold>\<open>Theories and sources\<close>, in the order in which they build on each other:
  \<^item> \<open>Ummu_Prelude\<close>: machine words, errno values, checked array access, shared lemmas.
  \<^item> \<open>Ummu_Common\<close>: \<^verbatim>\<open>ummu_common.h\<close>, \<^verbatim>\<open>ummu_common.c\<close>: bitmaps and bit searches.
  \<^item> \<open>Ummu_Node\<close>: \<^verbatim>\<open>ummu_mapt.h\<close>, \<^verbatim>\<open>kernel_headers/ummu_core.h\<close>: node layouts, address macros,
    the request descriptor.
  \<^item> \<open>Ummu_Os\<close>: the boundary: C library, driver and device as a parameter \<open>E :: os_env\<close>, the trace of
    system calls in \<open>world\<close>.
  \<^item> \<open>Ummu_Resource\<close>: \<^verbatim>\<open>ummu_resource.c\<close>: mappings, TIDs, random tokens.
  \<^item> \<open>Ummu_NodeOps\<close>: the checks, the token functions and the filling of one node, \<^verbatim>\<open>ummu_mapt.c\<close>.
  \<^item> \<open>Ummu_SegTree\<close>, \<open>Ummu_SegMng\<close>: \<^verbatim>\<open>ummu_seg_tree.cpp\<close>, \<^verbatim>\<open>ummu_seg_mng.c\<close>: the ordered map of granted
    ranges, the records of the segments, the classification of requests.
  \<^item> \<open>Ummu_Queue\<close>: \<^verbatim>\<open>ummu_queue.c\<close>: command and completion queues, invalidation.
  \<^item> \<open>Ummu_LevelBlock\<close>: \<^verbatim>\<open>ummu_level_block.c\<close>: allocation of level tables in mapped blocks.
  \<^item> \<open>Ummu_Table\<close>: the walks of \<^verbatim>\<open>ummu_mapt.c\<close> over the permission table.
  \<^item> \<open>Ummu_PermTree\<close>, \<open>Ummu_TableRep\<close>, \<open>Ummu_TableClear\<close>, \<open>Ummu_TableFill\<close>, \<open>Ummu_TableToken\<close>,
    \<open>Ummu_TableSpec\<close>: no code; the meaning of the permission table and the proof that the walks of
    \<open>Ummu_Table\<close> implement it.
  \<^item> \<open>Ummu_Map\<close>: \<^verbatim>\<open>ummu_map.c\<close>, \<^verbatim>\<open>ummu_utils.cpp\<close>: the table of TIDs.
  \<^item> \<open>Ummu_Mapt\<close>: the public functions of \<^verbatim>\<open>ummu_mapt.c\<close>.
  \<^item> \<open>Ummu_Log\<close>: \<^verbatim>\<open>ummu_log.h\<close>: levels, filter, and the line that is written.
  \<^item> \<open>Ummu_Main\<close>: \<^verbatim>\<open>ummu_main.c\<close>: start, fork, unload, log level.
  \<^item> \<open>Ummu_Records\<close>, \<open>Ummu_Requests\<close>, \<open>Ummu_Entry\<close>, \<open>Ummu_Api\<close>, \<open>Ummu_Calls\<close>: no code; records and
    table together, grants and ungrants in table mode and in entry mode, the invariant of the whole
    library, and what each public call promises.

  \<^bold>\<open>How state and operations correspond.\<close>  Structures are records with the C field names behind a
  short prefix (\<open>mi_\<close> for \<^verbatim>\<open>ummu_mapt_info\<close>, \<open>tc_\<close> for \<^verbatim>\<open>ummu_mapt_table_ctx\<close>, \<open>tn_\<close> and \<open>en_\<close> for the two
  kinds of node); every definition has the name of its C function.  Memory owned by one structure is
  part of its record, so a block carries the nodes of its mapping; a pointer to a table node is a
  reference \<open>nref\<close>.  Functions pass the state explicitly and return the C result.  \<open>None\<close> is undefined
  behaviour (an access outside an array or a mapped block, a NULL pointer, the wrong member of a
  union), the end of the process by an uncaught exception, or an endless loop.  Integers keep their
  width; a macro that computes in \<^verbatim>\<open>int\<close> does so here.

  \<^bold>\<open>Interfaces\<close> are locales, interpreted on the definitions that provide them: \<open>token_slots\<close> (two-slot
  token stores; the entry node, the table node behind the entry-node cast, a segment record),
  \<open>seg_store\<close> (what the segment manager needs of the range map), \<open>ring_index\<close> (what a ring needs of its
  index function), \<open>grant_store\<close> (what the table promises: the next set of grants) and \<open>tid_map\<close>.

  \<^bold>\<open>What the lemmas show.\<close>
  \<^item> Bit searches and the set-bit loop equal naive scans.
  \<^item> The queues: index arithmetic with the wrap bit; a command is appended in order and nothing that is
    outstanding is overwritten (\<open>send_on_queue_ok\<close>); every wait is bounded.
  \<^item> Level tables: allocation hands out a table that nobody uses, release gives back exactly one, and a
    block is unmapped with its last table (\<open>alloc_level_cases\<close> and the lemmas on release).
  \<^item> The permission table: \<open>tree\<close> reads the tables out of memory, \<open>perm_at\<close> is what the hardware finds at an
    address, \<open>tiled\<close> is the shape that a granted range has after any history of promotions, and
    \<open>represents s G\<close> says that the tables of \<open>s\<close> hold exactly the disjoint grants \<open>G\<close>, that no level table is
    shared or leaked and that all counts and bitmaps fit.  Filling, clearing and token updates are
    proved level by level (\<open>fill_by_level_ok\<close>, \<open>clear_by_level_ok\<close>) and give the refinement
    \<open>table_op_refines_grants\<close>.
  \<^item> Entry mode: \<open>entry_segs\<close> reads the one node of the TID as the record of a segment, and the checks and
    operations on the node are the steps of table mode on that record (\<open>grant_entry_mode\<close>,
    \<open>ungrant_entry_mode\<close>).
  \<^item> Invalidation: with a device that makes progress (\<open>mi_prompt\<close>) every queue is given the command
    (\<open>send_plbi_posted\<close>); with one that has stopped it is dropped (\<open>send_plbi_stopped\<close>).
  \<^item> The whole library: \<open>ctx_ok\<close> is kept by every public call and holds in every reachable state, and from
    it follow the properties of the calls in \<open>Ummu_Calls\<close>.

  \<^bold>\<open>Bounds and fuel.\<close>  No definition takes fuel.  The table walks go down at most four levels and are total
  by that measure.  The loop of \<^verbatim>\<open>ummu_table_clear_head_node\<close> counts to \<^verbatim>\<open>MAX_CLEAR_LOOP\<close> = 4096 in the
  code itself; a tiled range has at most \<open>max_pieces\<close> = 3585 pieces below one node, so the bound is never
  met.  The wait for queue space is bounded by the code's own counter.  The loop of
  \<^verbatim>\<open>ummu_get_cpl_psync\<close>, which ends only if the device keeps its indices legal, is a
  \<^theory_text>\<open>partial_function\<close>, and that it ends is proved.

  \<^bold>\<open>What is assumed\<close>, always as a named hypothesis, with a witness that it can hold (\<open>quiet_env\<close>):
  \<open>device_ok\<close> (the device moves its indices only over entries that are there), \<open>fresh_queues_ok\<close> (queues
  come in their reset state), \<open>fresh_mem\<close> (newly mapped table memory holds no valid node; the code
  relies on it without clearing the memory), \<open>driver_ok\<close> (the driver answers an allocation in the requested
  mode, with blocks of at least 64K), and \<open>os_malloc\<close> succeeding for the properties on records
  (\<open>grant_unrecorded_on_enomem\<close> shows what happens otherwise).  Between two calls the world may change
  freely, and the uninitialised stack memory that a request descriptor starts from is arbitrary (\<open>junk\<close>).

  \<^bold>\<open>Not modelled.\<close>  Where each function logs: a line that is written (\<open>Ummu_Log\<close>) has no effect on the state.
  Locks: each operation is the code between taking and releasing the locks of the context and the TID,
  which serialise it; interleavings of threads and the memory barriers before a node becomes valid are
  therefore not visible here, and neither is the device reading a node between two stores.  Failure of
  \<^verbatim>\<open>pthread\<close> initialisation, \<^verbatim>\<open>close\<close> and \<^verbatim>\<open>munmap\<close>, whose results the code ignores.

  \<^bold>\<open>Further work.\<close>  The order of the stores to one node, seen by a device that reads concurrently, and
  interleavings of threads at the granularity of the locks.
\<close>

end
